(* ===== verification/Prelude.thy ===== *)
theory Prelude
  imports Main "HOL-Library.Word" "HOL-Library.List_Lexorder" "HOL-Library.Char_ord"
begin

text \<open>
  What every component of the development shares: the machine integer types of the Rust
  sources, the result type with its third outcome (a panic), bounds-checked indexing and
  slicing, and the big-endian byte encodings of \<open>to_be_bytes\<close> and \<open>from_be_bytes\<close>.

  Strings are \<open>string\<close>s of bytes: a character stands for one byte of the UTF-8 text,
  so \<open>length\<close> is \<open>str::len\<close>, and the order of \<open>HOL-Library.List_Lexorder\<close> on
  them is the byte-wise order of \<open>str\<close>. Counters keep their width (a release build
  wraps); lengths of vectors and slices are \<open>nat\<close>, and every \<open>as\<close> cast of a length
  is written out as \<open>of_nat\<close> into the target width.
\<close>

unbundle bit_operations_syntax

type_synonym u8 = "8 word"
type_synonym u16 = "16 word"
type_synonym u32 = "32 word"
type_synonym u64 = "64 word"
type_synonym i64 = "64 word" \<comment> \<open>two's complement, read by \<open>sint\<close>\<close>
type_synonym i32 = "32 word"
type_synonym usize = "64 word"
type_synonym bytes = "u8 list"
type_synonym nanos = nat \<comment> \<open>\<open>Duration\<close> and \<open>Instant\<close> in nanoseconds\<close>

named_theorems rr_simps "computation rules of the result type"
named_theorems cursor_intros "how a cursor moves over encoded data"

lemma unat_less [simp]: "unat (w :: 'a::len word) < 2 ^ LENGTH('a)"
  by (rule unsigned_less)

lemma unat_max_word: "unat (- 1 :: 'a::len word) = 2 ^ LENGTH('a) - 1"
  by (simp add: unsigned_minus_1_eq_mask mask_eq_exp_minus_1)

lemmas unat_u16_less = unat_less [where 'a = 16, simplified]
  and unat_u32_less = unat_less [where 'a = 32, simplified]
  and unat_u64_less = unat_less [where 'a = 64, simplified]

subsection \<open>Results and panics\<close>

datatype ('a, 'e) rresult = Ok 'a | Err 'e | Panic

fun and_then :: "('a, 'e) rresult \<Rightarrow> ('a \<Rightarrow> ('b, 'e) rresult) \<Rightarrow> ('b, 'e) rresult" where
  "and_then (Ok a) f = f a"
| "and_then (Err e) f = Err e"
| "and_then Panic f = Panic"

definition ok_or :: "'a option \<Rightarrow> 'e \<Rightarrow> ('a, 'e) rresult" where
  "ok_or x e = (case x of Some a \<Rightarrow> Ok a | None \<Rightarrow> Err e)"

lemma ok_or_simps [simp]: "ok_or (Some a) e = Ok a" "ok_or None e = Err e"
  by (simp_all add: ok_or_def)

lemma and_then_Ok_iff: "and_then m f = Ok b \<longleftrightarrow> (\<exists>a. m = Ok a \<and> f a = Ok b)"
  by (cases m) auto

lemma and_then_Panic_iff: "and_then m f = Panic \<longleftrightarrow> m = Panic \<or> (\<exists>a. m = Ok a \<and> f a = Panic)"
  by (cases m) auto

lemma ok_or_not_Panic [simp]: "ok_or x e \<noteq> Panic"
  by (cases x) auto

declare and_then.simps [rr_simps] ok_or_simps [rr_simps]

subsection \<open>Bounds-checked reads\<close>

text \<open>\<open>data[i]\<close> and \<open>data[i..j]\<close>: out of range they panic.\<close>

definition index :: "'a list \<Rightarrow> nat \<Rightarrow> ('a, 'e) rresult" where
  "index data i = (if i < length data then Ok (data ! i) else Panic)"

definition subslice :: "'a list \<Rightarrow> nat \<Rightarrow> nat \<Rightarrow> ('a list, 'e) rresult" where
  "subslice data i j =
     (if i \<le> j \<and> j \<le> length data then Ok (take (j - i) (drop i data)) else Panic)"

text \<open>\<open>try_into\<close> from a slice to an array of \<open>n\<close> bytes.\<close>

definition try_into :: "nat \<Rightarrow> 'e \<Rightarrow> 'a list \<Rightarrow> ('a list, 'e) rresult" where
  "try_into n e bs = (if length bs = n then Ok bs else Err e)"

lemma subslice_length: "subslice data i j = Ok bs \<Longrightarrow> length bs = j - i"
  by (auto simp: subslice_def split: if_splits)

lemma subslice_not_Err [simp]: "subslice data i j \<noteq> Err e"
  by (simp add: subslice_def)

text \<open>
  \<open>suffix_at data p r\<close>: reading from position \<open>p\<close> of \<open>data\<close>, what is left is \<open>r\<close>.
  The decoders keep a position; their correctness proofs move this predicate forward.
\<close>

definition suffix_at :: "'a list \<Rightarrow> nat \<Rightarrow> 'a list \<Rightarrow> bool" where
  "suffix_at data p r \<longleftrightarrow> p \<le> length data \<and> drop p data = r"

lemma suffix_at_0 [intro, simp]: "suffix_at data 0 data"
  by (simp add: suffix_at_def)

lemma suffix_at_length: "suffix_at data p r \<Longrightarrow> length data = p + length r"
  by (auto simp: suffix_at_def)

lemma suffix_at_iff: "suffix_at data p r \<longleftrightarrow> (\<exists>pre. data = pre @ r \<and> length pre = p)"
proof
  assume "suffix_at data p r"
  then have "data = take p data @ r" and "length (take p data) = p"
    by (auto simp: suffix_at_def)
  then show "\<exists>pre. data = pre @ r \<and> length pre = p" by blast
qed (auto simp: suffix_at_def)

lemma suffix_at_add [cursor_intros]:
  assumes "suffix_at data p (bs @ r)" and "length bs = n"
  shows "suffix_at data (p + n) r"
proof -
  from assms(1) obtain pre where "data = (pre @ bs) @ r" and "length pre = p"
    by (auto simp: suffix_at_iff)
  with assms(2) show ?thesis by (auto simp: suffix_at_def)
qed

lemma suffix_at_subslice:
  assumes "suffix_at data p (bs @ r)" and "length bs = n"
  shows "subslice data p (p + n) = Ok bs"
  using suffix_at_length [OF assms(1)] assms by (simp add: subslice_def suffix_at_def)

lemma suffix_at_index:
  assumes "suffix_at data p (b # r)"
  shows "index data p = Ok b"
  using assms by (auto simp: suffix_at_iff index_def)

lemma suffix_at_Cons [cursor_intros]: "suffix_at data p (b # r) \<Longrightarrow> suffix_at data (p + 1) r"
  using suffix_at_add [of data p "[b]" r 1] by simp

subsection \<open>Big-endian encodings\<close>

text \<open>
  \<open>be_of_nat n x\<close>: the low \<open>n\<close> bytes of \<open>x\<close>, most significant first.
\<close>

fun be_of_nat :: "nat \<Rightarrow> nat \<Rightarrow> bytes" where
  "be_of_nat 0 x = []"
| "be_of_nat (Suc n) x = be_of_nat n (x div 256) @ [of_nat (x mod 256)]"

definition nat_of_be :: "bytes \<Rightarrow> nat" where
  "nat_of_be bs = fold (\<lambda>b acc. acc * 256 + unat b) bs 0"

definition to_be_bytes :: "'a::len word \<Rightarrow> bytes" where
  "to_be_bytes w = be_of_nat (LENGTH('a) div 8) (unat w)"

definition from_be_bytes :: "bytes \<Rightarrow> 'a::len word" where
  "from_be_bytes bs = of_nat (nat_of_be bs)"

lemma be_of_nat_numeral [simp]:
  "be_of_nat (numeral k) x = be_of_nat (pred_numeral k) (x div 256) @ [of_nat (x mod 256)]"
  by (simp only: numeral_eq_Suc [of k] be_of_nat.simps)

lemma length_be_of_nat [simp]: "length (be_of_nat n x) = n"
  by (induction n arbitrary: x) auto

lemma nat_of_be_Nil [simp]: "nat_of_be [] = 0"
  by (simp add: nat_of_be_def)

lemma nat_of_be_snoc [simp]: "nat_of_be (bs @ [b]) = nat_of_be bs * 256 + unat b"
  by (simp add: nat_of_be_def)

lemma unat_u8_less [simp]: "unat (b :: u8) < 256"
  using unsigned_less [of b] by simp

lemma unat_of_nat_u8_mod [simp]: "unat (of_nat (x mod 256) :: u8) = x mod 256"
  by (simp add: unat_of_nat)

lemma nat_of_be_less: "nat_of_be bs < 256 ^ length bs"
proof (induction bs rule: rev_induct)
  case (snoc b bs)
  have "nat_of_be bs * 256 + unat b < (nat_of_be bs + 1) * 256" by simp
  also have "\<dots> \<le> 256 ^ length bs * 256" using snoc by (intro mult_le_mono) auto
  finally show ?case by simp
qed simp

lemma nat_of_be_of_nat: "nat_of_be (be_of_nat n x) = x mod 256 ^ n"
proof (induction n arbitrary: x)
  case (Suc n)
  have "nat_of_be (be_of_nat (Suc n) x) = 256 * (x div 256 mod 256 ^ n) + x mod 256"
    by (simp add: Suc)
  also have "\<dots> = x mod (256 * 256 ^ n)" by (simp add: mod_mult2_eq)
  finally show ?case by simp
qed simp

lemma be_of_nat_of_be: "be_of_nat (length bs) (nat_of_be bs) = bs"
  by (induction bs rule: rev_induct) simp_all

lemma length_to_be_bytes [simp]: "length (to_be_bytes (w :: 'a::len word)) = LENGTH('a) div 8"
  by (simp add: to_be_bytes_def)

lemma pow_256_len:
  assumes "8 dvd LENGTH('a::len)"
  shows "256 ^ (LENGTH('a) div 8) = (2 :: nat) ^ LENGTH('a)"
proof -
  have "(256 :: nat) = 2 ^ 8" by simp
  then have "256 ^ (LENGTH('a) div 8) = (2 :: nat) ^ (8 * (LENGTH('a) div 8))"
    by (simp only: power_mult)
  with assms show ?thesis by simp
qed

text \<open>Every word of whole bytes survives the round trip, and so does every byte array.\<close>

lemma from_to_be_bytes:
  assumes "8 dvd LENGTH('a::len)"
  shows "from_be_bytes (to_be_bytes w) = (w :: 'a word)"
proof -
  have "unat w mod 256 ^ (LENGTH('a) div 8) = unat w"
    using unsigned_less [of w] by (simp add: pow_256_len [OF assms])
  then show ?thesis
    by (simp add: from_be_bytes_def to_be_bytes_def nat_of_be_of_nat)
qed

lemma to_from_be_bytes:
  assumes "8 * length bs = LENGTH('a::len)"
  shows "to_be_bytes (from_be_bytes bs :: 'a word) = bs"
proof -
  from assms have len: "LENGTH('a) div 8 = length bs" by (simp flip: assms)
  moreover have "8 dvd LENGTH('a)" using dvd_triv_left [of 8 "length bs"] assms by simp
  ultimately have "nat_of_be bs < 2 ^ LENGTH('a)"
    using nat_of_be_less [of bs] pow_256_len [where 'a = 'a] by simp
  then have "unat (from_be_bytes bs :: 'a word) = nat_of_be bs"
    by (simp add: from_be_bytes_def unat_of_nat)
  then show ?thesis by (simp add: to_be_bytes_def len be_of_nat_of_be)
qed

lemma to_be_bytes_inj:
  assumes "8 dvd LENGTH('a::len)"
  shows "to_be_bytes (v :: 'a word) = to_be_bytes w \<longleftrightarrow> v = w"
proof
  assume "to_be_bytes v = to_be_bytes w"
  then have "from_be_bytes (to_be_bytes v) = (from_be_bytes (to_be_bytes w) :: 'a word)" by simp
  then show "v = w" by (simp only: from_to_be_bytes [OF assms])
qed simp

subsection \<open>The byte-wise order of big-endian keys\<close>

lemma list_less_snoc:
  fixes xs ys :: "('a :: linorder) list"
  assumes "length xs = length ys"
  shows "xs @ [x] < ys @ [y] \<longleftrightarrow> xs < ys \<or> xs = ys \<and> x < y"
  using assms by (induction xs ys rule: list_induct2) auto

lemma list_less_append:
  fixes xs ys :: "('a :: linorder) list"
  assumes "length xs = length ys"
  shows "xs @ us < ys @ vs \<longleftrightarrow> xs < ys \<or> xs = ys \<and> us < vs"
  using assms by (induction xs ys rule: list_induct2) auto

lemma be_of_nat_less:
  "x < 256 ^ n \<Longrightarrow> y < 256 ^ n \<Longrightarrow> be_of_nat n x < be_of_nat n y \<longleftrightarrow> x < y"
proof (induction n arbitrary: x y)
  case (Suc n)
  have dv: "x div 256 < 256 ^ n" "y div 256 < 256 ^ n"
    using Suc.prems by (simp_all add: div_less_iff_less_mult mult.commute)
  have "x div 256 = y div 256" if "be_of_nat n (x div 256) = be_of_nat n (y div 256)"
    using arg_cong [OF that, of nat_of_be] dv by (simp add: nat_of_be_of_nat)
  then have eq: "be_of_nat n (x div 256) = be_of_nat n (y div 256) \<longleftrightarrow> x div 256 = y div 256"
    by auto
  have "(of_nat (x mod 256) :: u8) < of_nat (y mod 256) \<longleftrightarrow> x mod 256 < y mod 256"
    by (simp add: word_less_nat_alt)
  moreover have "x < y \<longleftrightarrow> x div 256 < y div 256 \<or> x div 256 = y div 256 \<and> x mod 256 < y mod 256"
    using div_mult_mod_eq [of x 256] div_mult_mod_eq [of y 256] by linarith
  ultimately show ?case
    using Suc.IH [OF dv] eq by (simp add: list_less_snoc)
qed simp

text \<open>Byte order of the encodings is the numeric order: the reason keys are big-endian.\<close>

lemma to_be_bytes_less:
  assumes "8 dvd LENGTH('a::len)"
  shows "to_be_bytes (v :: 'a word) < to_be_bytes w \<longleftrightarrow> v < w"
proof -
  have "unat v < 256 ^ (LENGTH('a) div 8)" and "unat w < 256 ^ (LENGTH('a) div 8)"
    by (simp_all only: pow_256_len [OF assms] unsigned_less)
  then show ?thesis
    by (simp only: to_be_bytes_def be_of_nat_less word_less_nat_alt)
qed

lemma to_be_bytes_le:
  assumes "8 dvd LENGTH('a::len)"
  shows "to_be_bytes (v :: 'a word) \<le> to_be_bytes w \<longleftrightarrow> v \<le> w"
  by (simp only: linorder_not_less [symmetric] to_be_bytes_less [OF assms])

end
