(* ===== verification/Rust_Str.thy ===== *)
theory Rust_Str
  imports Prelude
begin

text \<open>
  The parts of Rust's \<open>str\<close> and integer formatting that the sources use: UTF-8 validation,
  searching, splitting and trimming, and printing and parsing of unsigned numbers.
  These model the standard library, so they have no lines of the repository of their own.
\<close>

subsection \<open>Bytes and characters\<close>

definition byte_of :: "char \<Rightarrow> u8" where
  "byte_of c = of_nat (of_char c)"

definition char_of_byte :: "u8 \<Rightarrow> char" where
  "char_of_byte b = char_of (unat b)"

definition as_bytes :: "string \<Rightarrow> bytes" where
  "as_bytes s = map byte_of s"

lemma of_char_nat_less [simp]: "of_char c < (256 :: nat)"
  by (cases c) simp

lemma char_of_byte_of [simp]: "char_of_byte (byte_of c) = c"
  by (simp add: char_of_byte_def byte_of_def unat_of_nat)

lemma byte_of_char_of [simp]: "byte_of (char_of_byte b) = b"
  by (simp add: char_of_byte_def byte_of_def of_char_of unat_of_nat)

lemma length_as_bytes [simp]: "length (as_bytes s) = length s"
  by (simp add: as_bytes_def)

lemma map_char_as_bytes [simp]: "map char_of_byte (as_bytes s) = s"
  by (simp add: as_bytes_def comp_def map_idI)

lemma as_bytes_map_char [simp]: "as_bytes (map char_of_byte bs) = bs"
  by (simp add: as_bytes_def comp_def map_idI)

lemma as_bytes_append [simp]: "as_bytes (s @ t) = as_bytes s @ as_bytes t"
  by (simp add: as_bytes_def)

lemma as_bytes_inj [simp]: "as_bytes s = as_bytes t \<longleftrightarrow> s = t"
  using map_char_as_bytes by metis

lemma byte_of_eq [simp]: "byte_of c = byte_of d \<longleftrightarrow> c = d"
  using char_of_byte_of by metis

lemma unat_of_nat_len:
  "n < 2 ^ LENGTH('a) \<Longrightarrow> unat (of_nat n :: 'a::len word) = n"
  by (simp add: unat_of_nat)

text \<open>\<open>str::from_utf8\<close>: well-formed UTF-8 byte sequences, Unicode's table 3-7.\<close>

definition byte_in :: "nat \<Rightarrow> nat \<Rightarrow> u8 \<Rightarrow> bool" where
  "byte_in lo hi b \<longleftrightarrow> lo \<le> unat b \<and> unat b \<le> hi"

abbreviation cont_byte :: "u8 \<Rightarrow> bool" where
  "cont_byte \<equiv> byte_in 0x80 0xBF"

fun utf8_valid :: "bytes \<Rightarrow> bool" where
  "utf8_valid [] = True"
| "utf8_valid (b0 # bs) =
     (if byte_in 0 0x7F b0 then utf8_valid bs
      else if byte_in 0xC2 0xDF b0 then
        (case bs of b1 # r \<Rightarrow> cont_byte b1 \<and> utf8_valid r | _ \<Rightarrow> False)
      else if byte_in 0xE0 0xEF b0 then
        (case bs of
           b1 # b2 # r \<Rightarrow>
             byte_in (if unat b0 = 0xE0 then 0xA0 else 0x80)
                     (if unat b0 = 0xED then 0x9F else 0xBF) b1
             \<and> cont_byte b2 \<and> utf8_valid r
         | _ \<Rightarrow> False)
      else if byte_in 0xF0 0xF4 b0 then
        (case bs of
           b1 # b2 # b3 # r \<Rightarrow>
             byte_in (if unat b0 = 0xF0 then 0x90 else 0x80)
                     (if unat b0 = 0xF4 then 0x8F else 0xBF) b1
             \<and> cont_byte b2 \<and> cont_byte b3 \<and> utf8_valid r
         | _ \<Rightarrow> False)
      else False)"

definition from_utf8 :: "'e \<Rightarrow> bytes \<Rightarrow> (string, 'e) rresult" where
  "from_utf8 e bs = (if utf8_valid bs then Ok (map char_of_byte bs) else Err e)"

text \<open>The type invariant of \<open>String\<close>.\<close>

definition wf_str :: "string \<Rightarrow> bool" where
  "wf_str s \<longleftrightarrow> utf8_valid (as_bytes s)"

lemma from_utf8_as_bytes [simp]: "wf_str s \<Longrightarrow> from_utf8 e (as_bytes s) = Ok s"
  by (simp add: from_utf8_def wf_str_def)

lemma from_utf8_Ok: "from_utf8 e bs = Ok s \<Longrightarrow> wf_str s \<and> as_bytes s = bs"
  by (auto simp: from_utf8_def wf_str_def split: if_splits)

lemma from_utf8_not_Panic [simp]: "from_utf8 e bs \<noteq> Panic"
  by (simp add: from_utf8_def)

definition is_ascii :: "string \<Rightarrow> bool" where
  "is_ascii s = list_all (\<lambda>c. of_char c < (128 :: nat)) s"

lemma wf_str_ascii: "is_ascii s \<Longrightarrow> wf_str s"
  by (induction s)
     (auto simp: is_ascii_def wf_str_def as_bytes_def byte_in_def byte_of_def unat_of_nat)

subsection \<open>Searching and splitting\<close>

definition starts_with :: "string \<Rightarrow> string \<Rightarrow> bool" where
  "starts_with s p \<longleftrightarrow> take (length p) s = p"

text \<open>\<open>str::find\<close>: the byte offset of the first occurrence.\<close>

fun find_sub :: "string \<Rightarrow> string \<Rightarrow> nat option" where
  "find_sub s p =
     (if starts_with s p then Some 0
      else case s of [] \<Rightarrow> None | _ # t \<Rightarrow> map_option Suc (find_sub t p))"

declare find_sub.simps [simp del]

definition contains :: "string \<Rightarrow> string \<Rightarrow> bool" where
  "contains s p \<longleftrightarrow> find_sub s p \<noteq> None"

fun split_once :: "char \<Rightarrow> string \<Rightarrow> (string \<times> string) option" where
  "split_once d [] = None"
| "split_once d (c # s) =
     (if c = d then Some ([], s)
      else map_option (\<lambda>(a, b). (c # a, b)) (split_once d s))"

text \<open>\<open>str::split\<close> on a one-byte separator, and \<open>str::splitn\<close>.\<close>

fun split_on :: "char \<Rightarrow> string \<Rightarrow> string list" where
  "split_on d [] = [[]]"
| "split_on d (c # s) =
     (if c = d then [] # split_on d s
      else case split_on d s of p # ps \<Rightarrow> (c # p) # ps | [] \<Rightarrow> [[c]])"

fun splitn :: "nat \<Rightarrow> char \<Rightarrow> string \<Rightarrow> string list" where
  "splitn 0 d s = []"
| "splitn (Suc 0) d s = [s]"
| "splitn (Suc (Suc n)) d s =
     (case split_once d s of None \<Rightarrow> [s] | Some (a, b) \<Rightarrow> a # splitn (Suc n) d b)"

lemma split_once_Some:
  "split_once d s = Some (a, b) \<longleftrightarrow> s = a @ d # b \<and> d \<notin> set a"
proof (induction s arbitrary: a)
  case (Cons c s)
  then show ?case by (cases a) auto
qed simp

lemma split_once_None: "split_once d s = None \<longleftrightarrow> d \<notin> set s"
  by (induction s) auto

lemma split_once_append [simp]: "d \<notin> set a \<Longrightarrow> split_once d (a @ d # b) = Some (a, b)"
  by (simp add: split_once_Some)

lemma find_sub_Some:
  "find_sub s p = Some i \<Longrightarrow> i + length p \<le> length s \<and> take (length p) (drop i s) = p"
proof (induction s p arbitrary: i rule: find_sub.induct)
  case (1 s p)
  show ?case
  proof (cases "starts_with s p")
    case True
    with "1.prems" show ?thesis
      by (auto simp: find_sub.simps [of s p] starts_with_def) (metis length_take min.cobounded1 min.commute)
  next
    case False
    with "1.prems" obtain c t j where "s = c # t" "find_sub t p = Some j" "i = Suc j"
      by (auto simp: find_sub.simps [of s p] split: list.splits)
    with "1.IH" [OF False] show ?thesis by simp
  qed
qed

subsection \<open>Trimming\<close>

text \<open>
  The UTF-8 encodings of the characters with the Unicode property \<open>White_Space\<close>, which
  \<open>trim\<close> and \<open>split_whitespace\<close> use.
\<close>

definition utf8_ws :: "nat list list" where
  "utf8_ws = map (\<lambda>n. [n]) [9, 10, 11, 12, 13, 32]
     @ [[0xC2, 0x85], [0xC2, 0xA0], [0xE1, 0x9A, 0x80]]
     @ map (\<lambda>n. [0xE2, 0x80, n]) ([0x80..<0x8B] @ [0xA8, 0xA9, 0xAF])
     @ [[0xE2, 0x81, 0x9F], [0xE3, 0x80, 0x80]]"

definition ws_seqs :: "string list" where
  "ws_seqs = map (map char_of) utf8_ws"

definition rev_ws_seqs :: "string list" where
  "rev_ws_seqs = map rev ws_seqs"

lemma ws_seqs_pos: "w \<in> set ws_seqs \<Longrightarrow> w \<noteq> []"
  by (auto simp: ws_seqs_def utf8_ws_def)

fun strip_seqs :: "string list \<Rightarrow> nat \<Rightarrow> string \<Rightarrow> string" where
  "strip_seqs ws 0 s = s"
| "strip_seqs ws (Suc n) s =
     (case find (starts_with s) ws of
        None \<Rightarrow> s
      | Some w \<Rightarrow> strip_seqs ws n (drop (length w) s))"

definition trim_start :: "string \<Rightarrow> string" where
  "trim_start s = strip_seqs ws_seqs (length s) s"

definition trim_end :: "string \<Rightarrow> string" where
  "trim_end s = rev (strip_seqs rev_ws_seqs (length s) (rev s))"

definition trim :: "string \<Rightarrow> string" where
  "trim s = trim_end (trim_start s)"

text \<open>\<open>trim_end_matches\<close> of one character and \<open>trim_start_matches\<close> of a string.\<close>

definition trim_end_matches :: "char \<Rightarrow> string \<Rightarrow> string" where
  "trim_end_matches c s = rev (dropWhile (\<lambda>x. x = c) (rev s))"

definition trim_start_matches :: "string \<Rightarrow> string \<Rightarrow> string" where
  "trim_start_matches p s = (if p = [] then s else strip_seqs [p] (length s) s)"

text \<open>The first word of \<open>split_whitespace\<close>.\<close>

fun take_word :: "string \<Rightarrow> string" where
  "take_word [] = []"
| "take_word (c # s) = (if list_ex (starts_with (c # s)) ws_seqs then [] else c # take_word s)"

definition first_word :: "string \<Rightarrow> string option" where
  "first_word s = (let t = trim_start s in if t = [] then None else Some (take_word t))"

text \<open>\<open>[T]::join\<close>\<close>

fun join_with :: "string \<Rightarrow> string list \<Rightarrow> string" where
  "join_with sep [] = []"
| "join_with sep [x] = x"
| "join_with sep (x # y # xs) = x @ sep @ join_with sep (y # xs)"

subsection \<open>Printing and parsing numbers\<close>

definition upper_digit :: "nat \<Rightarrow> char" where
  "upper_digit d = ''0123456789ABCDEF'' ! d"

definition lower_digit :: "nat \<Rightarrow> char" where
  "lower_digit d = ''0123456789abcdef'' ! d"

function radix_str :: "(nat \<Rightarrow> char) \<Rightarrow> nat \<Rightarrow> nat \<Rightarrow> string" where
  "radix_str dig b n =
     (if b < 2 \<or> n < b then [dig n] else radix_str dig b (n div b) @ [dig (n mod b)])"
  by pat_completeness auto
termination
  by (relation "measure (\<lambda>(dig, b, n). n)") auto

declare radix_str.simps [simp del]

definition dec_str :: "nat \<Rightarrow> string" where
  "dec_str = radix_str upper_digit 10"

definition hex_upper :: "nat \<Rightarrow> string" where
  "hex_upper = radix_str upper_digit 16"

definition hex_lower :: "nat \<Rightarrow> string" where
  "hex_lower = radix_str lower_digit 16"

definition int_str :: "int \<Rightarrow> string" where
  "int_str i = (if i < 0 then CHR ''-'' # dec_str (nat (- i)) else dec_str (nat i))"

definition to_digit :: "nat \<Rightarrow> char \<Rightarrow> nat option" where
  "to_digit radix c =
     (let n = of_char c :: nat;
          d = (if 48 \<le> n \<and> n \<le> 57 then n - 48
               else if 65 \<le> n \<and> n \<le> 90 then n - 55
               else if 97 \<le> n \<and> n \<le> 122 then n - 87 else radix)
      in if d < radix then Some d else None)"

fun parse_digits :: "nat \<Rightarrow> nat \<Rightarrow> nat \<Rightarrow> string \<Rightarrow> nat option" where
  "parse_digits radix bound acc [] = Some acc"
| "parse_digits radix bound acc (c # s) =
     (case to_digit radix c of
        None \<Rightarrow> None
      | Some d \<Rightarrow>
          (let acc' = acc * radix + d
           in if acc' < bound then parse_digits radix bound acc' s else None))"

text \<open>\<open>from_str_radix\<close> of an unsigned type with values below \<open>bound\<close>.\<close>

definition parse_uint :: "nat \<Rightarrow> nat \<Rightarrow> string \<Rightarrow> nat option" where
  "parse_uint radix bound s =
     (case s of
        [] \<Rightarrow> None
      | c # t \<Rightarrow>
          if t = [] \<and> (c = CHR ''+'' \<or> c = CHR ''-'') then None
          else if c = CHR ''+'' then parse_digits radix bound 0 t
          else parse_digits radix bound 0 s)"

lemma parse_digits_append:
  "parse_digits r bd acc (s @ t) =
     Option.bind (parse_digits r bd acc s) (\<lambda>a. parse_digits r bd a t)"
  by (induction s arbitrary: acc) (auto simp: Let_def split: option.split)

lemma less_16_cases:
  "d < 16 \<Longrightarrow> d = (0::nat) \<or> d = 1 \<or> d = 2 \<or> d = 3 \<or> d = 4 \<or> d = 5 \<or> d = 6 \<or> d = 7 \<or> d = 8
     \<or> d = 9 \<or> d = 10 \<or> d = 11 \<or> d = 12 \<or> d = 13 \<or> d = 14 \<or> d = 15"
  by arith

lemma to_digit_upper: "d < r \<Longrightarrow> r \<le> 16 \<Longrightarrow> to_digit r (upper_digit d) = Some d"
  using less_16_cases [of d] by (auto simp: to_digit_def upper_digit_def)

lemma upper_digit_no_sign:
  "d < 16 \<Longrightarrow> upper_digit d \<noteq> CHR ''+'' \<and> upper_digit d \<noteq> CHR ''-'' \<and> upper_digit d \<noteq> CHR ''/''"
  using less_16_cases [of d] by (auto simp: upper_digit_def)

lemma radix_str_neq_Nil [simp]: "radix_str dig b n \<noteq> []"
  by (subst radix_str.simps) simp

lemma set_radix_str:
  assumes "2 \<le> b"
  shows "set (radix_str dig b n) \<subseteq> dig ` {..<b}"
  using assms
proof (induction dig b n rule: radix_str.induct)
  case (1 dig b n)
  show ?case
  proof (cases "n < b")
    case True
    then show ?thesis using "1.prems" by (subst radix_str.simps) auto
  next
    case False
    with "1" have "set (radix_str dig b (n div b)) \<subseteq> dig ` {..<b}" by simp
    with False "1.prems" show ?thesis by (subst radix_str.simps) auto
  qed
qed

lemma to_digit_lower: "d < r \<Longrightarrow> r \<le> 16 \<Longrightarrow> to_digit r (lower_digit d) = Some d"
  using less_16_cases [of d] by (auto simp: to_digit_def lower_digit_def)

lemma parse_digits_radix:
  assumes "2 \<le> b" "n < bd" and dig: "\<And>d. d < b \<Longrightarrow> to_digit b (dig d) = Some d"
  shows "parse_digits b bd 0 (radix_str dig b n) = Some n"
  using assms(1,2)
proof (induction n rule: less_induct)
  case (less n)
  show ?case
  proof (cases "n < b")
    case True
    with less.prems show ?thesis by (subst radix_str.simps) (simp add: dig)
  next
    case False
    with less.prems have "n div b < n" and "n div b < bd"
      by (auto intro: le_less_trans [OF div_le_dividend])
    with less have "parse_digits b bd 0 (radix_str dig b (n div b)) = Some (n div b)"
      by simp
    moreover have "to_digit b (dig (n mod b)) = Some (n mod b)"
      using less.prems by (intro dig) simp
    ultimately show ?thesis using False less.prems
      by (subst radix_str.simps) (simp add: parse_digits_append)
  qed
qed

lemma parse_digits_radix_str:
  assumes "2 \<le> b" "b \<le> 16" "n < bd"
  shows "parse_digits b bd 0 (radix_str upper_digit b n) = Some n"
  using assms by (intro parse_digits_radix to_digit_upper)

lemma parse_uint_radix_str:
  assumes "2 \<le> b" "b \<le> 16" "n < bd"
  shows "parse_uint b bd (radix_str upper_digit b n) = Some n"
proof (cases "radix_str upper_digit b n")
  case (Cons c t)
  then have "c \<in> upper_digit ` {..<b}" using set_radix_str [OF assms(1), of upper_digit n] by auto
  then have "c \<noteq> CHR ''+''" "c \<noteq> CHR ''-''" using upper_digit_no_sign assms(2) by auto
  then have "parse_uint b bd (c # t) = parse_digits b bd 0 (c # t)"
    by (simp add: parse_uint_def)
  then show ?thesis using parse_digits_radix_str [OF assms] by (simp only: Cons)
qed simp

lemma slash_notin_hex: "CHR ''/'' \<notin> set (hex_upper n)"
  using set_radix_str [of 16 upper_digit n] upper_digit_no_sign
  by (force simp: hex_upper_def)

subsection \<open>Strings without space at their ends\<close>

definition ascii_ws :: "char \<Rightarrow> bool" where
  "ascii_ws c \<longleftrightarrow> of_char c \<in> {9, 10, 11, 12, 13, 32 :: nat}"

definition solid :: "string \<Rightarrow> bool" where
  "solid s \<longleftrightarrow> s \<noteq> [] \<and> \<not> ascii_ws (hd s) \<and> \<not> ascii_ws (last s) \<and> is_ascii s"

lemma ws_seqs_heads:
  "list_all (\<lambda>w. w \<noteq> [] \<and> (ascii_ws (hd w) \<or> (of_char (hd w) :: nat) \<ge> 128)) (ws_seqs @ rev_ws_seqs)"
  by (simp add: ws_seqs_def rev_ws_seqs_def utf8_ws_def ascii_ws_def)

lemma starts_with_hd: "starts_with s w \<Longrightarrow> w \<noteq> [] \<Longrightarrow> s \<noteq> [] \<and> hd s = hd w"
  by (cases s; cases w) (auto simp: starts_with_def)

lemma find_ws_None:
  assumes "ws \<in> {ws_seqs, rev_ws_seqs}" and "\<not> ascii_ws (hd s)" and "(of_char (hd s) :: nat) < 128"
  shows "find (starts_with s) ws = None"
proof -
  have "\<not> starts_with s w" if "w \<in> set ws" for w
  proof
    assume "starts_with s w"
    moreover have "w \<noteq> [] \<and> (ascii_ws (hd w) \<or> (of_char (hd w) :: nat) \<ge> 128)"
      using ws_seqs_heads that assms(1) by (auto simp: list_all_iff)
    ultimately show False using starts_with_hd [of s w] assms(2,3) by auto
  qed
  then show ?thesis by (simp add: find_None_iff)
qed

lemma find_skip: "list_all (\<lambda>x. \<not> P x) xs \<Longrightarrow> P y \<Longrightarrow> find P (xs @ y # ys) = Some y"
  by (induction xs) auto

lemma char_of_32: "char_of (32 :: nat) = CHR '' ''"
proof -
  have "of_char (CHR '' '') = (32 :: nat)" by simp
  then show ?thesis by (metis char_of_char)
qed

lemma ws_seqs_space:
  "ws_seqs = take 5 ws_seqs @ '' '' # drop 6 ws_seqs"
  "rev_ws_seqs = take 5 rev_ws_seqs @ '' '' # drop 6 rev_ws_seqs"
  "list_all (\<lambda>w. w \<noteq> [] \<and> (of_char (hd w) :: nat) \<noteq> 32) (take 5 ws_seqs @ take 5 rev_ws_seqs)"
  by (simp_all add: ws_seqs_def rev_ws_seqs_def utf8_ws_def char_of_32)

lemma find_ws_space:
  "find (starts_with (CHR '' '' # s)) ws_seqs = Some '' ''"
  "find (starts_with (CHR '' '' # s)) rev_ws_seqs = Some '' ''"
proof -
  have "\<not> starts_with (CHR '' '' # s) w" if "w \<noteq> [] \<and> (of_char (hd w) :: nat) \<noteq> 32" for w
  proof
    assume "starts_with (CHR '' '' # s) w"
    then have "hd w = CHR '' ''" using starts_with_hd [of "CHR '' '' # s" w] that by simp
    with that show False by simp
  qed
  then have "list_all (\<lambda>w. \<not> starts_with (CHR '' '' # s) w) (take 5 ws_seqs)"
    "list_all (\<lambda>w. \<not> starts_with (CHR '' '' # s) w) (take 5 rev_ws_seqs)"
    using ws_seqs_space(3) by (simp_all add: list_all_iff)
  moreover have "starts_with (CHR '' '' # s) '' ''" by (simp add: starts_with_def)
  ultimately show "find (starts_with (CHR '' '' # s)) ws_seqs = Some '' ''"
    "find (starts_with (CHR '' '' # s)) rev_ws_seqs = Some '' ''"
    using ws_seqs_space(1,2) find_skip by metis+
qed

lemma solid_ends:
  assumes "solid s"
  shows "\<not> ascii_ws (hd s)" "(of_char (hd s) :: nat) < 128"
    "\<not> ascii_ws (hd (rev s))" "(of_char (hd (rev s)) :: nat) < 128"
  using assms by (auto simp: solid_def is_ascii_def list_all_iff hd_rev)

lemma strip_solid:
  assumes "solid s"
  shows "strip_seqs ws_seqs n (s @ t) = s @ t" "strip_seqs rev_ws_seqs n (rev s) = rev s"
proof -
  have "s \<noteq> []" using assms by (simp add: solid_def)
  then have "find (starts_with (s @ t)) ws_seqs = None" "find (starts_with (rev s)) rev_ws_seqs = None"
    using solid_ends [OF assms] by (auto intro: find_ws_None)
  then show "strip_seqs ws_seqs n (s @ t) = s @ t" "strip_seqs rev_ws_seqs n (rev s) = rev s"
    by (cases n; simp)+
qed

lemma trim_solid:
  assumes "solid s"
  shows "trim s = s" "trim (CHR '' '' # s) = s" "trim (s @ '' '') = s"
proof -
  have start: "trim_start (s @ t) = s @ t" for t
    by (simp only: trim_start_def strip_solid [OF assms])
  have start': "trim_start (CHR '' '' # s) = s"
    using strip_solid(1) [OF assms, where t = "[]"] by (simp add: trim_start_def find_ws_space)
  have "trim_end s = s" "trim_end (s @ '' '') = s"
    by (simp_all add: trim_end_def find_ws_space strip_solid [OF assms])
  then show "trim s = s" "trim (CHR '' '' # s) = s" "trim (s @ '' '') = s"
    using start [of "[]"] start [of "'' ''"] start' by (simp_all add: trim_def)
qed

text \<open>Words of \<open>split_whitespace\<close>.\<close>

definition plain_word :: "string \<Rightarrow> bool" where
  "plain_word w \<longleftrightarrow> w \<noteq> [] \<and> is_ascii w \<and> list_all (\<lambda>c. \<not> ascii_ws c) w"

lemma no_ws_starts:
  "\<not> ascii_ws c \<Longrightarrow> (of_char c :: nat) < 128 \<Longrightarrow> \<not> list_ex (starts_with (c # s)) ws_seqs"
  using find_ws_None [of ws_seqs "c # s"] by (simp add: find_None_iff list_ex_iff)

lemma space_starts: "list_ex (starts_with (CHR '' '' # s)) ws_seqs"
  using find_ws_space(1) [of s] find_Some_iff [of "starts_with (CHR '' '' # s)" ws_seqs]
  by (metis list_ex_iff nth_mem)

lemma take_word_append:
  assumes "is_ascii w" and "list_all (\<lambda>c. \<not> ascii_ws c) w"
  shows "take_word (w @ s) = w @ take_word s"
  using assms by (induction w) (simp_all add: is_ascii_def no_ws_starts)

lemma take_word_plain:
  assumes "is_ascii w" and "list_all (\<lambda>c. \<not> ascii_ws c) w" and "rest = [] \<or> hd rest = CHR '' ''"
  shows "take_word (w @ rest) = w"
  using take_word_append [OF assms(1,2), of rest] assms(3) by (cases rest) (auto simp: space_starts)

lemma plain_solid: "plain_word w \<Longrightarrow> solid w"
  by (cases w) (auto simp: plain_word_def solid_def list_all_iff)

lemma trim_start_plain:
  assumes "plain_word w"
  shows "trim_start (w @ s) = w @ s" "trim_start (CHR '' '' # w @ s) = w @ s"
  using strip_solid(1) [OF plain_solid [OF assms]] by (simp_all add: trim_start_def find_ws_space)

lemma first_word_plain:
  assumes "plain_word w" and "rest = [] \<or> hd rest = CHR '' ''"
  shows "first_word (w @ rest) = Some w"
  using trim_start_plain [OF assms(1)] take_word_plain [of w rest] assms by (simp add: first_word_def plain_word_def)

lemma dec_str_plain: "plain_word (dec_str n)"
proof -
  have "\<not> ascii_ws c \<and> (of_char c :: nat) < 128" if c: "c \<in> set (dec_str n)" for c
  proof -
    have "c \<in> upper_digit ` {..<10}" using c set_radix_str [of 10 upper_digit n] by (auto simp: dec_str_def)
    then obtain d where "d < 10" "c = upper_digit d" by auto
    moreover have "\<forall>d < 10. \<not> ascii_ws (upper_digit d) \<and> (of_char (upper_digit d) :: nat) < 128" by code_simp
    ultimately show ?thesis by simp
  qed
  then show ?thesis by (auto simp: plain_word_def is_ascii_def list_all_iff dec_str_def)
qed

lemma length_dec_str: "length (dec_str n) \<le> n div 10 + 1"
proof -
  have "length (radix_str f 10 n) \<le> n div 10 + 1" for f :: "nat \<Rightarrow> char"
    by (induction f "10 :: nat" n rule: radix_str.induct) (subst radix_str.simps, simp, linarith)
  then show ?thesis by (simp add: dec_str_def)
qed

lemma find_sub_None_char: "c \<in> set p \<Longrightarrow> c \<notin> set s \<Longrightarrow> find_sub s p = None"
proof (rule ccontr)
  assume c: "c \<in> set p" "c \<notin> set s" and "find_sub s p \<noteq> None"
  then obtain i where "take (length p) (drop i s) = p" using find_sub_Some by blast
  then have "set p \<subseteq> set (drop i s)" using set_take_subset [of "length p" "drop i s"] by simp
  then show False using c set_drop_subset [of i s] by blast
qed

lemma find_sub_at:
  assumes "p \<noteq> []" and "hd p \<notin> set a"
  shows "find_sub (a @ p @ b) p = Some (length a)"
  using assms(2)
proof (induction a)
  case Nil
  show ?case by (subst find_sub.simps) (simp add: starts_with_def)
next
  case (Cons c a)
  then have "\<not> starts_with (c # a @ p @ b) p" using assms(1) starts_with_hd [of "c # a @ p @ b" p] by auto
  with Cons show ?case by (subst find_sub.simps) simp
qed

lemma split_on_append: "d \<notin> set a \<Longrightarrow> split_on d (a @ d # b) = a # split_on d b"
  by (induction a) auto

lemma split_on_none: "d \<notin> set a \<Longrightarrow> split_on d a = [a]"
  by (induction a) auto

end
