(* ===== verification/Lsn.thy ===== *)
theory Lsn
  imports Rust_Str
begin

text \<open>
  Log sequence numbers, \<open>src/shared/src/lsn/types.rs\<close>: the newtype with its derived order,
  the big-endian key encoding, PostgreSQL's \<open>X/Y\<close> text format and saturating addition.
\<close>

datatype lsn = Lsn (get: u64)

instantiation lsn :: linorder
begin

definition less_eq_lsn :: "lsn \<Rightarrow> lsn \<Rightarrow> bool" where
  "a \<le> b \<longleftrightarrow> get a \<le> get b"

definition less_lsn :: "lsn \<Rightarrow> lsn \<Rightarrow> bool" where
  "a < b \<longleftrightarrow> get a < get b"

instance
  by standard (auto simp: less_eq_lsn_def less_lsn_def lsn.expand)

end

lemma Lsn_le_iff [simp]: "Lsn a \<le> Lsn b \<longleftrightarrow> a \<le> b"
  by (simp add: less_eq_lsn_def)

lemma Lsn_less_iff [simp]: "Lsn a < Lsn b \<longleftrightarrow> a < b"
  by (simp add: less_lsn_def)

definition lsn_zero :: lsn where
  "lsn_zero = Lsn 0"

definition lsn_max :: lsn where
  "lsn_max = Lsn (- 1)"

definition lsn_to_be_bytes :: "lsn \<Rightarrow> bytes" where
  "lsn_to_be_bytes l = to_be_bytes (get l)"

definition lsn_from_be_bytes :: "bytes \<Rightarrow> lsn" where
  "lsn_from_be_bytes bs = Lsn (from_be_bytes bs)"

datatype lsn_parse_error = LsnParseError string

definition from_pg_str :: "string \<Rightarrow> (lsn, lsn_parse_error) rresult" where
  "from_pg_str s =
     and_then (ok_or (split_once (CHR ''/'') s) (LsnParseError s)) (\<lambda>(hi, lo).
     and_then (ok_or (parse_uint 16 (2 ^ 32) hi) (LsnParseError s)) (\<lambda>hi.
     and_then (ok_or (parse_uint 16 (2 ^ 32) lo) (LsnParseError s)) (\<lambda>lo.
     Ok (Lsn (push_bit 32 (ucast (of_nat hi :: u32)) OR ucast (of_nat lo :: u32))))))"

definition to_pg_string :: "lsn \<Rightarrow> string" where
  "to_pg_string l =
     (let hi = (ucast (drop_bit 32 (get l)) :: u32);
          lo = (ucast (get l) :: u32)
      in hex_upper (unat hi) @ ''/'' @ hex_upper (unat lo))"

definition is_ahead_of :: "lsn \<Rightarrow> lsn \<Rightarrow> bool" where
  "is_ahead_of a b \<longleftrightarrow> get a > get b"

definition lsn_saturating_add :: "lsn \<Rightarrow> u64 \<Rightarrow> lsn" where
  "lsn_saturating_add l d =
     Lsn (if unat (get l) + unat d < 2 ^ 64 then get l + d else - 1)"

definition lsn_display :: "lsn \<Rightarrow> string" where
  "lsn_display l = to_pg_string l"

fun parse_error_display :: "lsn_parse_error \<Rightarrow> string" where
  "parse_error_display (LsnParseError s) = ''invalid LSN format: '' @ [CHR 39] @ s @ [CHR 39]"

subsection \<open>Order and encoding\<close>

lemma lsn_zero_le [simp]: "lsn_zero \<le> l"
  by (simp add: lsn_zero_def less_eq_lsn_def)

lemma lsn_le_max [simp]: "l \<le> lsn_max"
  by (simp add: lsn_max_def less_eq_lsn_def)

lemma lsn_max_le [simp]: "lsn_max \<le> l \<longleftrightarrow> l = lsn_max"
  using antisym lsn_le_max by blast

lemma is_ahead_of_less: "is_ahead_of a b \<longleftrightarrow> b < a"
  by (simp add: is_ahead_of_def less_lsn_def)

lemma length_lsn_to_be_bytes [simp]: "length (lsn_to_be_bytes l) = 8"
  by (simp add: lsn_to_be_bytes_def)

lemma lsn_from_to_be_bytes [simp]: "lsn_from_be_bytes (lsn_to_be_bytes l) = l"
  by (simp add: lsn_from_be_bytes_def lsn_to_be_bytes_def from_to_be_bytes)

lemma lsn_to_be_bytes_less: "lsn_to_be_bytes a < lsn_to_be_bytes b \<longleftrightarrow> a < b"
  by (simp add: lsn_to_be_bytes_def less_lsn_def to_be_bytes_less)

lemma lsn_to_be_bytes_le: "lsn_to_be_bytes a \<le> lsn_to_be_bytes b \<longleftrightarrow> a \<le> b"
  by (simp add: lsn_to_be_bytes_def less_eq_lsn_def to_be_bytes_le)

lemma lsn_to_be_bytes_eq [simp]: "lsn_to_be_bytes a = lsn_to_be_bytes b \<longleftrightarrow> a = b"
  by (cases a; cases b) (simp add: lsn_to_be_bytes_def to_be_bytes_inj)

subsection \<open>Saturating addition\<close>

lemma unat_lsn_saturating_add:
  "unat (get (lsn_saturating_add l d)) = min (unat (get l) + unat d) (2 ^ 64 - 1)"
proof (cases "unat (get l) + unat d < 2 ^ 64")
  case True
  then have "unat (get l + d) = unat (get l) + unat d"
    by (simp add: unat_word_ariths)
  with True show ?thesis by (simp add: lsn_saturating_add_def)
next
  case False
  then show ?thesis by (simp add: lsn_saturating_add_def unat_max_word)
qed

lemma le_lsn_saturating_add: "l \<le> lsn_saturating_add l d"
  using unat_lsn_saturating_add [of l d] unat_u64_less [of "get l"]
  by (simp add: less_eq_lsn_def word_le_nat_alt)

text \<open>The successor is strictly ahead except at the last LSN.\<close>

lemma less_lsn_saturating_add_1: "l < lsn_saturating_add l 1 \<longleftrightarrow> l \<noteq> lsn_max"
proof -
  have "unat (get l) < 2 ^ 64" using unat_u64_less [of "get l"] by simp
  moreover have "l = lsn_max \<longleftrightarrow> unat (get l) = 2 ^ 64 - 1"
    by (cases l) (auto simp: lsn_max_def unat_max_word word_unat_eq_iff)
  ultimately show ?thesis
    using unat_lsn_saturating_add [of l 1] by (auto simp: less_lsn_def word_less_nat_alt)
qed

lemma lsn_saturating_add_1_le:
  "lsn_saturating_add a 1 \<le> b \<longleftrightarrow> a < b \<or> b = lsn_max"
proof -
  have "unat (get a) < 2 ^ 64" "unat (get b) < 2 ^ 64"
    using unat_u64_less [of "get a"] unat_u64_less [of "get b"] by simp_all
  moreover have "b = lsn_max \<longleftrightarrow> unat (get b) = 2 ^ 64 - 1"
    by (cases b) (auto simp: lsn_max_def unat_max_word word_unat_eq_iff)
  ultimately show ?thesis
    using unat_lsn_saturating_add [of a 1]
    by (auto simp: less_lsn_def less_eq_lsn_def word_less_nat_alt word_le_nat_alt)
qed

subsection \<open>The text format\<close>

lemma hi_lo_word:
  fixes v :: u64
  shows "push_bit 32 (ucast (ucast (drop_bit 32 v) :: u32)) OR ucast (ucast v :: u32) = v"
  by (rule bit_word_eqI) (auto simp: bit_simps)

lemma from_pg_str_outcome:
  "(\<exists>l. from_pg_str s = Ok l) \<or> from_pg_str s = Err (LsnParseError s)"
  by (cases "split_once (CHR ''/'') s")
     (auto simp: from_pg_str_def ok_or_def split: option.splits)

lemma to_pg_string_parses: "from_pg_str (to_pg_string l) = Ok l"
proof -
  define hi where "hi = (ucast (drop_bit 32 (get l)) :: u32)"
  define lo where "lo = (ucast (get l) :: u32)"
  have split: "split_once (CHR ''/'') (to_pg_string l) = Some (hex_upper (unat hi), hex_upper (unat lo))"
    by (simp add: to_pg_string_def hi_def lo_def slash_notin_hex)
  have parse: "parse_uint 16 (2 ^ 32) (hex_upper (unat w)) = Some (unat w)" for w :: u32
    using unat_u32_less [of w] by (simp add: hex_upper_def parse_uint_radix_str)
  have "Lsn (push_bit 32 (ucast hi) OR ucast lo) = l"
    by (cases l) (simp add: hi_def lo_def hi_lo_word)
  then show ?thesis by (simp add: from_pg_str_def split parse [simplified])
qed

text \<open>
  The \<open>X/Y\<close> text of an LSN parses back to that LSN, whatever its 64 bits
  (\<open>Lsn::to_pg_string\<close> then \<open>Lsn::from_pg_str\<close>).
\<close>

theorem from_pg_str_to_pg_string: "from_pg_str (to_pg_string l) = Ok l"
  by (rule to_pg_string_parses)

end
