(* ===== verification/Event.thy ===== *)
theory Event
  imports Lsn
begin

text \<open>
  The change event that flows through the whole pipeline (\<open>src/shared/src/event\<close>) and the
  tenant identifier (\<open>src/shared/src/tenant\<close>). A field of a Rust struct becomes a record
  field with the struct's prefix. \<open>estimated_size\<close> starts from
  \<open>size_of::<ChangeEvent>()\<close>, which the compiler chooses: it is the argument \<open>sz\<close>.
\<close>

datatype OpType = Insert | Update | Delete | Truncate

definition as_str :: "OpType \<Rightarrow> string" where
  "as_str op = (case op of
      Insert \<Rightarrow> ''insert'' | Update \<Rightarrow> ''update'' | Delete \<Rightarrow> ''delete'' | Truncate \<Rightarrow> ''truncate'')"

definition from_str_tag :: "string \<Rightarrow> OpType option" where
  "from_str_tag s =
     (if s = ''insert'' \<or> s = ''INSERT'' \<or> s = ''I'' then Some Insert
      else if s = ''update'' \<or> s = ''UPDATE'' \<or> s = ''U'' then Some Update
      else if s = ''delete'' \<or> s = ''DELETE'' \<or> s = ''D'' then Some Delete
      else if s = ''truncate'' \<or> s = ''TRUNCATE'' \<or> s = ''T'' then Some Truncate
      else None)"

definition op_display :: "OpType \<Rightarrow> string" where
  "op_display op = as_str op"

record TableId =
  tid_schema :: string
  tid_table :: string

definition table_id_new :: "string \<Rightarrow> string \<Rightarrow> TableId" where
  "table_id_new schema table = \<lparr>tid_schema = schema, tid_table = table\<rparr>"

definition qualified_name :: "TableId \<Rightarrow> string" where
  "qualified_name t = tid_schema t @ ''.'' @ tid_table t"

definition from_qualified :: "string \<Rightarrow> TableId option" where
  "from_qualified s =
     map_option (\<lambda>(schema, table). \<lparr>tid_schema = schema, tid_table = table\<rparr>)
       (split_once (CHR ''.'') s)"

definition table_id_display :: "TableId \<Rightarrow> string" where
  "table_id_display t = tid_schema t @ ''.'' @ tid_table t"

record ColumnValue =
  cv_name :: string
  cv_type_oid :: u32
  cv_value :: "string option"

record RowData =
  columns :: "ColumnValue list"

definition row_get :: "RowData \<Rightarrow> string \<Rightarrow> ColumnValue option" where
  "row_get row name = find (\<lambda>c. cv_name c = name) (columns row)"

definition get_text :: "RowData \<Rightarrow> string \<Rightarrow> string option" where
  "get_text row name = Option.bind (row_get row name) cv_value"

record ChangeEvent =
  ev_lsn :: u64
  ev_xid :: u32
  ev_op :: OpType
  ev_table :: TableId
  ev_schema_fingerprint :: u64
  ev_after :: "RowData option"
  ev_before :: "RowData option"
  ev_commit_timestamp_us :: i64

definition event_lsn :: "ChangeEvent \<Rightarrow> lsn" where
  "event_lsn e = Lsn (ev_lsn e)"

definition is_data_event :: "ChangeEvent \<Rightarrow> bool" where
  "is_data_event e \<longleftrightarrow> (case ev_op e of Insert \<Rightarrow> True | Update \<Rightarrow> True | Delete \<Rightarrow> True | _ \<Rightarrow> False)"

definition is_truncate :: "ChangeEvent \<Rightarrow> bool" where
  "is_truncate e \<longleftrightarrow> (case ev_op e of Truncate \<Rightarrow> True | _ \<Rightarrow> False)"

definition add_row_size :: "RowData option \<Rightarrow> usize \<Rightarrow> usize" where
  "add_row_size r tot =
     (case r of
        None \<Rightarrow> tot
      | Some row \<Rightarrow>
          fold (\<lambda>col tot. tot + of_nat (length (cv_name col))
                  + (case cv_value col of None \<Rightarrow> 0 | Some v \<Rightarrow> of_nat (length v)))
            (columns row) tot)"

definition estimated_size :: "usize \<Rightarrow> ChangeEvent \<Rightarrow> usize" where
  "estimated_size sz e =
     add_row_size (ev_before e) (add_row_size (ev_after e)
       (sz + (of_nat (length (tid_schema (ev_table e))) + of_nat (length (tid_table (ev_table e))))))"

datatype TenantId = TenantId (tenant_as_str: string)

definition tenant_new :: "string \<Rightarrow> TenantId" where
  "tenant_new i = TenantId i"

definition tenant_display :: "TenantId \<Rightarrow> string" where
  "tenant_display t = tenant_as_str t"

definition default_tenant :: TenantId where
  "default_tenant = TenantId ''default''"

definition cf_name :: "TenantId \<Rightarrow> string" where
  "cf_name t = ''tenant_'' @ tenant_as_str t"

subsection \<open>Properties\<close>

lemma from_str_tag_as_str [simp]: "from_str_tag (as_str op) = Some op"
  by (cases op) (simp_all add: from_str_tag_def as_str_def)

lemma is_truncate_iff: "is_truncate e \<longleftrightarrow> \<not> is_data_event e"
  by (cases "ev_op e") (simp_all add: is_truncate_def is_data_event_def)

lemma cf_name_inj: "cf_name s = cf_name t \<longleftrightarrow> s = t"
  by (cases s; cases t) (simp add: cf_name_def)

lemma get_text_first:
  "get_text row name = (case row_get row name of None \<Rightarrow> None | Some c \<Rightarrow> cv_value c)"
  by (simp add: get_text_def split: option.split)

lemma row_get_Some:
  "row_get row name = Some c \<Longrightarrow> c \<in> set (columns row) \<and> cv_name c = name"
  by (auto simp: row_get_def find_Some_iff)

lemma row_get_None: "row_get row name = None \<longleftrightarrow> name \<notin> cv_name ` set (columns row)"
  by (auto simp: row_get_def find_None_iff)

lemma add_row_size_eq:
  "add_row_size r tot = tot + (case r of None \<Rightarrow> 0 | Some row \<Rightarrow>
     (\<Sum>col\<leftarrow>columns row. of_nat (length (cv_name col))
        + (case cv_value col of None \<Rightarrow> 0 | Some v \<Rightarrow> of_nat (length v))))"
proof (cases r)
  case (Some row)
  have "fold (\<lambda>col tot. tot + of_nat (length (cv_name col))
            + (case cv_value col of None \<Rightarrow> 0 | Some v \<Rightarrow> of_nat (length v))) cs tot
        = tot + (\<Sum>col\<leftarrow>cs. of_nat (length (cv_name col))
            + (case cv_value col of None \<Rightarrow> 0 | Some v \<Rightarrow> of_nat (length v)))"
    for cs and tot :: usize
    by (induction cs arbitrary: tot) (simp_all add: algebra_simps)
  with Some show ?thesis by (simp add: add_row_size_def)
qed (simp add: add_row_size_def)

text \<open>
  A table name round-trips through its \<open>schema.table\<close> text exactly when the schema
  has no dot: \<open>from_qualified\<close> splits at the first one.
\<close>

theorem from_qualified_qualified:
  "from_qualified (qualified_name t) = Some t \<longleftrightarrow> CHR ''.'' \<notin> set (tid_schema t)"
proof
  assume "from_qualified (qualified_name t) = Some t"
  then have "split_once (CHR ''.'') (qualified_name t) = Some (tid_schema t, tid_table t)"
    by (auto simp: from_qualified_def)
  then show "CHR ''.'' \<notin> set (tid_schema t)" by (simp add: split_once_Some)
next
  assume "CHR ''.'' \<notin> set (tid_schema t)"
  then show "from_qualified (qualified_name t) = Some t"
    by (simp add: from_qualified_def qualified_name_def)
qed

end
