(* ===== verification/Nendi_Error.thy ===== *)
theory Nendi_Error
  imports Event
begin

text \<open>
  The daemon's error type, \<open>src/shared/src/error/types.rs\<close>. A boxed source error is
  represented by its message, and \<open>display\<close> is the text \<open>thiserror\<close> derives from the
  \<open>#[error(...)]\<close> attributes.
\<close>

type_synonym boxed_error = string

datatype NendiError =
    ConnectFailed boxed_error
  | ReplicationStreamClosed
  | SlotNotFound string
  | SlotInUse string
  | WalLagExceeded (lag_bytes: u64) (cap_bytes: u64)
  | UnsupportedMessage string
  | MalformedPayload boxed_error
  | SchemaFingerprintMismatch string u64 u64
  | StorageFailed boxed_error
  | WalWriteFailed boxed_error
  | DataDirNotWritable string
  | GrpcStreamError string boxed_error
  | WebhookDeliveryFailed string boxed_error
  | CircuitBreakerOpen string
  | ConfigLoadFailed boxed_error
  | ConfigInvalid string string
  | PublicationTableNotFound string
  | PublicationReconcileFailed string
  | OffsetRegression (or_consumer: string) (or_attempted: u64) (or_current: u64)
  | FilterRejected string string
  | BackpressureFull usize
  | MemoryBudgetExceeded usize usize
  | ShutdownRequested
  | Internal string

definition u64_str :: "u64 \<Rightarrow> string" where
  "u64_str w = dec_str (unat w)"

fun nendi_display :: "NendiError \<Rightarrow> string" where
  "nendi_display (ConnectFailed _) = ''connector: failed to connect to source database''"
| "nendi_display ReplicationStreamClosed = ''connector: replication stream terminated unexpectedly''"
| "nendi_display (SlotNotFound s) = ''connector: replication slot '' @ [CHR 39] @ s @ [CHR 39] @ '' does not exist''"
| "nendi_display (SlotInUse s) = ''connector: replication slot '' @ [CHR 39] @ s @ [CHR 39] @ '' is already active''"
| "nendi_display (WalLagExceeded l c) =
     ''connector: WAL lag '' @ u64_str l @ '' bytes exceeds hard cap '' @ u64_str c @ '' bytes''"
| "nendi_display (UnsupportedMessage s) = ''decoding: unsupported pgoutput message type: '' @ s"
| "nendi_display (MalformedPayload _) = ''decoding: malformed pgoutput payload''"
| "nendi_display (SchemaFingerprintMismatch t e a) =
     ''decoding: schema fingerprint mismatch for table '' @ t @ '' (expected '' @ u64_str e
       @ '', got '' @ u64_str a @ '')''"
| "nendi_display (StorageFailed _) = ''storage: RocksDB operation failed''"
| "nendi_display (WalWriteFailed _) = ''storage: WAL write failed''"
| "nendi_display (DataDirNotWritable s) = ''storage: data directory '' @ [CHR 39] @ s @ [CHR 39] @ '' is not writable''"
| "nendi_display (GrpcStreamError c _) = ''egress: gRPC stream error for consumer '' @ [CHR 39] @ c @ [CHR 39]"
| "nendi_display (WebhookDeliveryFailed t _) =
     ''egress: webhook delivery failed for target '' @ [CHR 39] @ t @ [CHR 39]"
| "nendi_display (CircuitBreakerOpen t) = ''egress: circuit breaker open for target '' @ [CHR 39] @ t @ [CHR 39]"
| "nendi_display (ConfigLoadFailed _) = ''config: failed to load configuration''"
| "nendi_display (ConfigInvalid k r) = ''config: invalid value for '' @ [CHR 39] @ k @ [CHR 39] @ '': '' @ r"
| "nendi_display (PublicationTableNotFound p) =
     ''config: publication '' @ [CHR 39] @ p @ [CHR 39] @ '' references unknown table''"
| "nendi_display (PublicationReconcileFailed p) =
     ''publication: reconcile failed for '' @ [CHR 39] @ p @ [CHR 39]"
| "nendi_display (OffsetRegression c a cur) =
     ''offset: consumer '' @ [CHR 39] @ c @ [CHR 39] @ '' attempted to commit LSN '' @ u64_str a
       @ '' which is behind current '' @ u64_str cur"
| "nendi_display (FilterRejected t op) =
     ''pipeline: ingestion filter rejected event (table='' @ t @ '', op='' @ op @ '')''"
| "nendi_display (BackpressureFull n) =
     ''pipeline: backpressure '' @ map char_of [0xE2, 0x80, 0x94 :: nat] @ '' ring buffer full, ''
       @ u64_str n @ '' events pending''"
| "nendi_display (MemoryBudgetExceeded u b) =
     ''memory: budget exceeded ('' @ u64_str u @ '' / '' @ u64_str b @ '' bytes)''"
| "nendi_display ShutdownRequested = ''daemon: graceful shutdown initiated''"
| "nendi_display (Internal e) = e"

end
