(* ===== verification/Containers.thy ===== *)
theory Containers
  imports Prelude "HOL-Library.DAList"
begin

text \<open>
  The third-party containers the program builds on, as parameters. Their code is not part of
  the repository, so a definition that uses one takes its operations as an argument (a record
  of functions) and what their documentation promises is a locale:

  \<^item> \<open>dashmap\<close>: \<open>dashmap::DashMap\<close>, a hash map with interior mutability;
  \<^item> \<open>array_queue\<close>: \<open>crossbeam::queue::ArrayQueue\<close>, a bounded queue.

  Each locale is interpreted on a complete reference implementation over a library type
  (association lists with distinct keys, and lists with a capacity), which the witnesses of the
  properties use.
\<close>

subsection \<open>DashMap\<close>

record ('m, 'k, 'v) dashmap_ops =
  dm_new :: 'm
  dm_get :: "'m \<Rightarrow> 'k \<Rightarrow> 'v option"
  dm_insert :: "'m \<Rightarrow> 'k \<Rightarrow> 'v \<Rightarrow> 'm"
  dm_remove :: "'m \<Rightarrow> 'k \<Rightarrow> 'm"
  dm_iter :: "'m \<Rightarrow> ('k \<times> 'v) list"
  dm_len :: "'m \<Rightarrow> nat"

locale dashmap =
  fixes D :: "('m, 'k, 'v) dashmap_ops"
  assumes get_new [simp]: "dm_get D (dm_new D) k = None"
    and get_insert [simp]:
      "dm_get D (dm_insert D m k v) k' = (if k' = k then Some v else dm_get D m k')"
    and get_remove [simp]:
      "dm_get D (dm_remove D m k) k' = (if k' = k then None else dm_get D m k')"
    and iter_iff: "(k, v) \<in> set (dm_iter D m) \<longleftrightarrow> dm_get D m k = Some v"
    and iter_distinct: "distinct (map fst (dm_iter D m))"
    and len_iter: "dm_len D m = length (dm_iter D m)"
begin

lemma finite_dom: "finite (dom (dm_get D m))"
proof (rule finite_subset)
  show "dom (dm_get D m) \<subseteq> fst ` set (dm_iter D m)"
    by (force simp: iter_iff [symmetric] dom_def)
qed simp

lemma keys_iter: "set (map fst (dm_iter D m)) = dom (dm_get D m)"
proof (rule set_eqI)
  fix k
  have "k \<in> set (map fst (dm_iter D m)) \<longleftrightarrow> (\<exists>v. (k, v) \<in> set (dm_iter D m))" by force
  then show "k \<in> set (map fst (dm_iter D m)) \<longleftrightarrow> k \<in> dom (dm_get D m)"
    by (simp only: iter_iff dom_def mem_Collect_eq not_None_eq)
qed

lemma len_card: "dm_len D m = card (dom (dm_get D m))"
  using distinct_card [OF iter_distinct, of m] by (simp only: keys_iter len_iter length_map)

lemma iter_new: "dm_iter D (dm_new D) = []"
  using keys_iter [of "dm_new D"] by (simp add: dom_def)

lemma values_iter: "set (map snd (dm_iter D m)) = ran (dm_get D m)"
proof (rule set_eqI)
  fix v
  have "v \<in> set (map snd (dm_iter D m)) \<longleftrightarrow> (\<exists>k. (k, v) \<in> set (dm_iter D m))" by force
  then show "v \<in> set (map snd (dm_iter D m)) \<longleftrightarrow> v \<in> ran (dm_get D m)"
    by (simp only: iter_iff ran_def mem_Collect_eq)
qed

end

definition alist_dashmap :: "(('k, 'v) alist, 'k, 'v) dashmap_ops" where
  "alist_dashmap =
     \<lparr>dm_new = DAList.empty,
      dm_get = DAList.lookup,
      dm_insert = (\<lambda>m k v. DAList.update k v m),
      dm_remove = (\<lambda>m k. DAList.delete k m),
      dm_iter = DAList.impl_of,
      dm_len = (\<lambda>m. length (DAList.impl_of m))\<rparr>"

interpretation alist_dm: dashmap alist_dashmap
proof
  fix m :: "('k, 'v) alist" and k :: 'k and v :: 'v
  show "(k, v) \<in> set (dm_iter alist_dashmap m) \<longleftrightarrow> dm_get alist_dashmap m k = Some v"
    using impl_of_distinct [of m] by (simp add: alist_dashmap_def DAList.lookup_def map_of_eq_Some_iff)
  show "distinct (map fst (dm_iter alist_dashmap m))"
    by (simp add: alist_dashmap_def)
qed (simp_all add: alist_dashmap_def)

subsection \<open>ArrayQueue\<close>

text \<open>
  \<open>aq_push\<close> returns the value back when the queue is full. The locale's \<open>items\<close> and \<open>cap\<close>
  are the abstract view: what the queue holds, oldest first, and its capacity.
\<close>

record ('q, 'a) array_queue_ops =
  aq_new :: "nat \<Rightarrow> 'q"
  aq_push :: "'q \<Rightarrow> 'a \<Rightarrow> (unit, 'a) rresult \<times> 'q"
  aq_pop :: "'q \<Rightarrow> 'a option \<times> 'q"
  aq_len :: "'q \<Rightarrow> nat"
  aq_is_empty :: "'q \<Rightarrow> bool"

locale array_queue =
  fixes Q :: "('q, 'a) array_queue_ops"
    and items :: "'q \<Rightarrow> 'a list"
    and cap :: "'q \<Rightarrow> nat"
  assumes new: "0 < c \<Longrightarrow> items (aq_new Q c) = [] \<and> cap (aq_new Q c) = c"
    and push_room: "length (items q) < cap q \<Longrightarrow>
      fst (aq_push Q q x) = Ok () \<and> items (snd (aq_push Q q x)) = items q @ [x]"
    and push_full: "cap q \<le> length (items q) \<Longrightarrow>
      fst (aq_push Q q x) = Err x \<and> items (snd (aq_push Q q x)) = items q"
    and push_cap: "cap (snd (aq_push Q q x)) = cap q"
    and pop_empty: "items q = [] \<Longrightarrow> fst (aq_pop Q q) = None \<and> items (snd (aq_pop Q q)) = []"
    and pop_item: "items q = x # xs \<Longrightarrow> fst (aq_pop Q q) = Some x \<and> items (snd (aq_pop Q q)) = xs"
    and pop_cap: "cap (snd (aq_pop Q q)) = cap q"
    and len [simp]: "aq_len Q q = length (items q)"
    and is_empty [simp]: "aq_is_empty Q q \<longleftrightarrow> items q = []"

definition list_queue :: "(nat \<times> 'a list, 'a) array_queue_ops" where
  "list_queue =
     \<lparr>aq_new = (\<lambda>c. (c, [])),
      aq_push = (\<lambda>(c, xs) x. if length xs < c then (Ok (), (c, xs @ [x])) else (Err x, (c, xs))),
      aq_pop = (\<lambda>(c, xs). case xs of [] \<Rightarrow> (None, (c, [])) | y # ys \<Rightarrow> (Some y, (c, ys))),
      aq_len = (\<lambda>(c, xs). length xs),
      aq_is_empty = (\<lambda>(c, xs). xs = [])\<rparr>"

interpretation list_aq: array_queue list_queue snd fst
  by unfold_locales (auto simp: list_queue_def split: prod.split list.split)

end
