(* ===== verification/F64.thy ===== *)
theory F64
  imports Prelude Complex_Main
begin

text \<open>
  The \<open>f64\<close> arithmetic of the sources: IEEE 754 binary64 with rounding to nearest, ties to
  even, gradual underflow and overflow to infinity. A finite value is the rational it denotes.
  The sign of zero is not represented: no operation of the sources reads it, and a zero they
  divide by comes from an unsigned integer, so it is positive, or is the rate of a throttle,
  where the quotient of either sign makes the conversion to a duration panic.
\<close>

datatype f64 = Fin rat | PInf | NInf | NaN

subsection \<open>Rounding\<close>

text \<open>The largest \<open>e\<close> with \<open>2 powi e \<le> x\<close>, for positive \<open>x\<close>.\<close>

fun log2_nat :: "nat \<Rightarrow> nat" where
  "log2_nat n = (if n < 2 then 0 else Suc (log2_nat (n div 2)))"

declare log2_nat.simps [simp del]

definition ilog2 :: "rat \<Rightarrow> int" where
  "ilog2 x = (if 1 \<le> x then int (log2_nat (nat \<lfloor>x\<rfloor>))
              else - (int (log2_nat (nat (\<lceil>1 / x\<rceil> - 1))) + 1))"

definition pow2 :: "int \<Rightarrow> rat" where
  "pow2 e = (if 0 \<le> e then 2 ^ nat e else 1 / 2 ^ nat (- e))"

definition round_even :: "rat \<Rightarrow> int" where
  "round_even x =
     (let f = \<lfloor>x\<rfloor>; d = x - of_int f
      in if d < 1 / 2 then f else if 1 / 2 < d then f + 1 else if even f then f else f + 1)"

text \<open>The unit in the last place of a positive value, at least that of the subnormal numbers.\<close>

definition ulp_exp :: "rat \<Rightarrow> int" where
  "ulp_exp x = max (ilog2 x - 52) (- 1074)"

definition rnd_pos :: "rat \<Rightarrow> rat" where
  "rnd_pos x = of_int (round_even (x / pow2 (ulp_exp x))) * pow2 (ulp_exp x)"

definition rnd :: "rat \<Rightarrow> f64" where
  "rnd x =
     (if x = 0 then Fin 0
      else let r = rnd_pos \<bar>x\<bar>
           in if pow2 1024 \<le> r then (if 0 < x then PInf else NInf)
              else Fin (if 0 < x then r else - r))"

subsection \<open>Operations\<close>

definition f64_of_u64 :: "u64 \<Rightarrow> f64" where
  "f64_of_u64 w = rnd (of_nat (unat w))"

fun f64_neg :: "f64 \<Rightarrow> f64" where
  "f64_neg (Fin x) = Fin (- x)"
| "f64_neg PInf = NInf"
| "f64_neg NInf = PInf"
| "f64_neg NaN = NaN"

fun f64_add :: "f64 \<Rightarrow> f64 \<Rightarrow> f64" where
  "f64_add (Fin x) (Fin y) = rnd (x + y)"
| "f64_add NaN _ = NaN"
| "f64_add _ NaN = NaN"
| "f64_add PInf NInf = NaN"
| "f64_add NInf PInf = NaN"
| "f64_add PInf _ = PInf"
| "f64_add NInf _ = NInf"
| "f64_add (Fin _) y = y"

definition f64_sub :: "f64 \<Rightarrow> f64 \<Rightarrow> f64" where
  "f64_sub x y = f64_add x (f64_neg y)"

definition inf_sign :: "bool \<Rightarrow> f64" where
  "inf_sign pos = (if pos then PInf else NInf)"

fun f64_mul :: "f64 \<Rightarrow> f64 \<Rightarrow> f64" where
  "f64_mul (Fin x) (Fin y) = rnd (x * y)"
| "f64_mul NaN _ = NaN"
| "f64_mul _ NaN = NaN"
| "f64_mul (Fin x) y = (if x = 0 then NaN else inf_sign ((0 < x) = (y = PInf)))"
| "f64_mul x (Fin y) = (if y = 0 then NaN else inf_sign ((0 < y) = (x = PInf)))"
| "f64_mul x y = inf_sign (x = y)"

fun f64_div :: "f64 \<Rightarrow> f64 \<Rightarrow> f64" where
  "f64_div (Fin x) (Fin y) =
     (if y \<noteq> 0 then rnd (x / y) else if x = 0 then NaN else inf_sign (0 < x))"
| "f64_div NaN _ = NaN"
| "f64_div _ NaN = NaN"
| "f64_div (Fin x) _ = Fin 0"
| "f64_div x (Fin y) = inf_sign ((0 \<le> y) = (x = PInf))"
| "f64_div _ _ = NaN"

fun f64_lt :: "f64 \<Rightarrow> f64 \<Rightarrow> bool" where
  "f64_lt (Fin x) (Fin y) \<longleftrightarrow> x < y"
| "f64_lt NaN _ \<longleftrightarrow> False"
| "f64_lt _ NaN \<longleftrightarrow> False"
| "f64_lt (Fin _) y \<longleftrightarrow> y = PInf"
| "f64_lt NInf y \<longleftrightarrow> y \<noteq> NInf"
| "f64_lt PInf _ \<longleftrightarrow> False"

fun f64_eq :: "f64 \<Rightarrow> f64 \<Rightarrow> bool" where
  "f64_eq NaN _ \<longleftrightarrow> False"
| "f64_eq x y \<longleftrightarrow> x = y"

definition f64_le :: "f64 \<Rightarrow> f64 \<Rightarrow> bool" where
  "f64_le x y \<longleftrightarrow> f64_lt x y \<or> f64_eq x y"

text \<open>\<open>f64::min\<close> ignores a NaN argument; \<open>f64::clamp\<close> passes a NaN receiver through.\<close>

definition f64_min :: "f64 \<Rightarrow> f64 \<Rightarrow> f64" where
  "f64_min x y = (if x = NaN then y else if y = NaN then x else if f64_lt y x then y else x)"

definition f64_clamp :: "f64 \<Rightarrow> f64 \<Rightarrow> f64 \<Rightarrow> f64" where
  "f64_clamp x lo hi =
     (let x = (if f64_lt x lo then lo else x) in if f64_lt hi x then hi else x)"

text \<open>\<open>Duration::as_secs_f64\<close> and \<open>Duration::from_secs_f64\<close>, which panics unless the result fits.\<close>

definition as_secs_f64 :: "nanos \<Rightarrow> f64" where
  "as_secs_f64 d = f64_add (rnd (of_nat (d div 1000000000)))
     (f64_div (rnd (of_nat (d mod 1000000000))) (rnd 1000000000))"

definition from_secs_f64 :: "f64 \<Rightarrow> (nanos, 'e) rresult" where
  "from_secs_f64 x =
     (case x of
        Fin r \<Rightarrow> (if 0 \<le> r \<and> round_even (r * 1000000000) < 2 ^ 64 * 1000000000
                  then Ok (nat (round_even (r * 1000000000))) else Panic)
      | _ \<Rightarrow> Panic)"

text \<open>\<open>f64::powi\<close> as the runtime library computes it, by repeated squaring.\<close>

function powi_loop :: "nat \<Rightarrow> f64 \<Rightarrow> f64 \<Rightarrow> f64" where
  "powi_loop b a r =
     (let r = (if odd b then f64_mul r a else r)
      in if b < 2 then r else powi_loop (b div 2) (f64_mul a a) r)"
  by pat_completeness auto
termination by (relation "measure fst") auto

declare powi_loop.simps [simp del]

definition f64_powi :: "f64 \<Rightarrow> i32 \<Rightarrow> f64" where
  "f64_powi a b =
     (let r = powi_loop (nat \<bar>sint b\<bar>) a (Fin 1) in if sint b < 0 then f64_div (Fin 1) r else r)"

subsection \<open>Rounding error and monotonicity\<close>

lemma pow2_powi: "pow2 e = 2 powi e"
  by (simp add: pow2_def power_int_def inverse_eq_divide power_one_over)

lemma pow2_pos [simp]: "0 < pow2 e"
  by (simp add: pow2_powi)

lemma pow2_add: "pow2 (a + b) = pow2 a * pow2 b"
  by (simp add: pow2_powi power_int_add)

lemma pow2_neg: "pow2 (- int n) = 1 / 2 ^ n"
  by (auto simp: pow2_def)

lemma pow2_mono: "a \<le> b \<Longrightarrow> pow2 a \<le> pow2 b"
  by (simp add: pow2_powi power_int_increasing)

lemma log2_nat_bounds: "0 < n \<Longrightarrow> 2 ^ log2_nat n \<le> n \<and> n < 2 ^ Suc (log2_nat n)"
proof (induction n rule: log2_nat.induct)
  case (1 n)
  show ?case
  proof (cases "n < 2")
    case True
    with 1 show ?thesis by (simp add: log2_nat.simps)
  next
    case False
    with 1 have "2 ^ log2_nat (n div 2) \<le> n div 2" "n div 2 < 2 ^ Suc (log2_nat (n div 2))" by auto
    with False show ?thesis by (auto simp: log2_nat.simps [of n])
  qed
qed

lemma cast_pow2:
  assumes "2 ^ l \<le> k" and "k + 1 \<le> 2 ^ m"
  shows "(2 :: rat) ^ l \<le> of_nat k" "(of_nat k + 1 :: rat) \<le> 2 ^ m"
proof -
  show "(2 :: rat) ^ l \<le> of_nat k" using assms(1) by simp
  have "of_nat (k + 1) \<le> (2 :: rat) ^ m" by (subst of_nat_le_numeral_power_cancel_iff) (rule assms(2))
  then show "(of_nat k + 1 :: rat) \<le> 2 ^ m" by simp
qed

lemma ilog2_bounds:
  assumes "0 < x"
  shows "pow2 (ilog2 x) \<le> x \<and> x < pow2 (ilog2 x + 1)"
proof (cases "1 \<le> x")
  case True
  define k where "k = nat \<lfloor>x\<rfloor>"
  have k: "0 < k" "of_nat k \<le> x" "x < of_nat k + 1"
    using True by (auto simp: k_def of_nat_nat) linarith+
  from log2_nat_bounds [OF k(1)] have b: "2 ^ log2_nat k \<le> k" "k + 1 \<le> 2 ^ Suc (log2_nat k)" by auto
  note c = cast_pow2 [OF b]
  have "ilog2 x = int (log2_nat k)" using True by (simp add: ilog2_def k_def)
  moreover have "2 ^ log2_nat k \<le> x" "x < 2 ^ Suc (log2_nat k)" using k c by linarith+
  ultimately show ?thesis by (simp add: pow2_def nat_add_distrib)
next
  case False
  define k where "k = nat (\<lceil>1 / x\<rceil> - 1)"
  have "1 < 1 / x" using False assms by simp
  then have k: "0 < k" "of_nat k < 1 / x" "1 / x \<le> of_nat k + 1"
    by (auto simp: k_def of_nat_nat) linarith+
  from log2_nat_bounds [OF k(1)] have b: "2 ^ log2_nat k \<le> k" "k + 1 \<le> 2 ^ Suc (log2_nat k)" by auto
  note c = cast_pow2 [OF b]
  have b2: "2 ^ log2_nat k < 1 / x" "1 / x \<le> 2 ^ Suc (log2_nat k)" using k c by linarith+
  have i: "ilog2 x = - int (Suc (log2_nat k))" "ilog2 x + 1 = - int (log2_nat k)"
    using False by (simp_all add: ilog2_def k_def)
  have p: "pow2 (ilog2 x) = 1 / 2 ^ Suc (log2_nat k)" "pow2 (ilog2 x + 1) = 1 / 2 ^ log2_nat k"
    by (subst i(1), rule pow2_neg) (subst i(2), rule pow2_neg)
  show ?thesis unfolding p using b2 assms by (simp add: field_simps)
qed

lemma round_even_error: "\<bar>of_int (round_even y) - y\<bar> \<le> 1 / 2"
proof -
  define f :: rat where "f = of_int \<lfloor>y\<rfloor>"
  have "f \<le> y" "y < f + 1" unfolding f_def by linarith+
  then show ?thesis
    by (auto simp: round_even_def Let_def abs_le_iff f_def [symmetric])
qed

lemma rnd_pos_error: "\<bar>rnd_pos x - x\<bar> \<le> pow2 (ulp_exp x) / 2"
proof -
  define u where "u = pow2 (ulp_exp x)"
  have "rnd_pos x - x = (of_int (round_even (x / u)) - x / u) * u"
    by (simp add: rnd_pos_def u_def field_simps) (metis less_irrefl pow2_pos)
  then have "\<bar>rnd_pos x - x\<bar> = \<bar>of_int (round_even (x / u)) - x / u\<bar> * u"
    by (simp add: abs_mult u_def abs_of_pos)
  also have "\<dots> \<le> 1 / 2 * u" by (intro mult_right_mono round_even_error) (simp add: u_def less_imp_le)
  finally show ?thesis by (simp add: u_def)
qed

lemma round_even_cases: "round_even y = \<lfloor>y\<rfloor> \<or> round_even y = \<lfloor>y\<rfloor> + 1"
  by (auto simp: round_even_def Let_def)

lemma round_even_mono:
  assumes "y \<le> z"
  shows "round_even y \<le> round_even z"
proof (cases "\<lfloor>y\<rfloor> = \<lfloor>z\<rfloor>")
  case True
  then show ?thesis using assms by (auto simp: round_even_def Let_def)
next
  case False
  then have "\<lfloor>y\<rfloor> + 1 \<le> \<lfloor>z\<rfloor>" using floor_mono [OF assms] by simp
  then show ?thesis using round_even_cases [of y] round_even_cases [of z] by auto
qed

lemma round_even_of_int [simp]: "round_even (of_int i) = i"
  by (simp add: round_even_def)

lemma pow2_nonneg: "0 \<le> e \<Longrightarrow> pow2 e = of_int (2 ^ nat e)"
  by (simp add: pow2_def)

lemma pow2_less_iff: "pow2 a < pow2 b \<longleftrightarrow> a < b"
proof
  assume "a < b"
  then show "pow2 a < pow2 b" by (simp add: pow2_powi power_int_strict_increasing)
qed (use pow2_mono [of b a] in \<open>auto simp: not_le [symmetric]\<close>)

lemma ilog2_mono:
  assumes "0 < x" "x \<le> y"
  shows "ilog2 x \<le> ilog2 y"
proof -
  have "pow2 (ilog2 x) < pow2 (ilog2 y + 1)"
    using ilog2_bounds [of x] ilog2_bounds [of y] assms by linarith
  then show ?thesis by (simp add: pow2_less_iff)
qed

lemma pow2_div: "pow2 a / pow2 b = pow2 (a - b)"
  by (simp add: pow2_powi power_int_diff)

lemma rnd_pos_le_pow2:
  assumes "x \<le> pow2 e" and "ulp_exp x \<le> e"
  shows "rnd_pos x \<le> pow2 e"
proof -
  have "x / pow2 (ulp_exp x) \<le> of_int (2 ^ nat (e - ulp_exp x))"
    using divide_right_mono [OF assms(1), of "pow2 (ulp_exp x)"] assms(2)
    by (simp add: pow2_div less_imp_le pow2_nonneg)
  from round_even_mono [OF this]
  have "(of_int (round_even (x / pow2 (ulp_exp x))) :: rat) \<le> of_int (2 ^ nat (e - ulp_exp x))"
    by (simp only: of_int_le_iff round_even_of_int)
  then have "rnd_pos x \<le> of_int (2 ^ nat (e - ulp_exp x)) * pow2 (ulp_exp x)"
    unfolding rnd_pos_def by (rule mult_right_mono) (simp add: less_imp_le)
  also have "\<dots> = pow2 e"
    using assms(2) pow2_add [of "e - ulp_exp x" "ulp_exp x"] pow2_nonneg [of "e - ulp_exp x"] by simp
  finally show ?thesis .
qed

lemma pow2_le_rnd_pos:
  assumes "pow2 e \<le> x" and "ulp_exp x \<le> e"
  shows "pow2 e \<le> rnd_pos x"
proof -
  have "of_int (2 ^ nat (e - ulp_exp x)) \<le> x / pow2 (ulp_exp x)"
    using divide_right_mono [OF assms(1), of "pow2 (ulp_exp x)"] assms(2)
    by (simp add: pow2_div less_imp_le pow2_nonneg)
  from round_even_mono [OF this]
  have "(of_int (2 ^ nat (e - ulp_exp x)) :: rat) \<le> of_int (round_even (x / pow2 (ulp_exp x)))"
    by (simp only: of_int_le_iff round_even_of_int)
  then have "of_int (2 ^ nat (e - ulp_exp x)) * pow2 (ulp_exp x) \<le> rnd_pos x"
    unfolding rnd_pos_def by (rule mult_right_mono) (simp add: less_imp_le)
  moreover have "of_int (2 ^ nat (e - ulp_exp x)) * pow2 (ulp_exp x) = pow2 e"
    using assms(2) pow2_add [of "e - ulp_exp x" "ulp_exp x"] pow2_nonneg [of "e - ulp_exp x"] by simp
  ultimately show ?thesis by simp
qed

lemma rnd_pos_mono:
  assumes "0 < x" "x \<le> y"
  shows "rnd_pos x \<le> rnd_pos y"
proof (cases "ulp_exp x = ulp_exp y")
  case True
  have "x / pow2 (ulp_exp x) \<le> y / pow2 (ulp_exp x)" using assms(2) by (simp add: divide_right_mono less_imp_le)
  then show ?thesis
    unfolding rnd_pos_def True [symmetric] by (intro mult_right_mono) (simp_all add: round_even_mono less_imp_le)
next
  case False
  then have lt: "ilog2 x < ilog2 y" and u: "ulp_exp y = ilog2 y - 52" "ulp_exp x < ulp_exp y"
    using ilog2_mono [OF assms] by (auto simp: ulp_exp_def max_def split: if_splits)
  have "x \<le> pow2 (ilog2 y)"
    using ilog2_bounds [OF assms(1)] pow2_mono [of "ilog2 x + 1" "ilog2 y"] lt by linarith
  then have "rnd_pos x \<le> pow2 (ilog2 y)" using u by (intro rnd_pos_le_pow2) auto
  also have "\<dots> \<le> rnd_pos y" using u ilog2_bounds [of y] assms by (intro pow2_le_rnd_pos) auto
  finally show ?thesis .
qed

lemma rnd_pos_nonneg: "0 < x \<Longrightarrow> 0 \<le> rnd_pos x"
  unfolding rnd_pos_def using round_even_mono [of 0 "x / pow2 (ulp_exp x)"] round_even_of_int [of 0]
  by (intro mult_nonneg_nonneg) (simp_all add: less_imp_le)

text \<open>Rounding keeps the order, and on normal numbers its relative error is at most \<open>2 ^ -53\<close>.\<close>

lemma rnd_mono: "x \<le> y \<Longrightarrow> \<not> f64_lt (rnd y) (rnd x)"
  using rnd_pos_mono [of x y] rnd_pos_mono [of "- y" "- x"] rnd_pos_nonneg [of y] rnd_pos_nonneg [of "- x"]
  by (auto simp: rnd_def Let_def)

lemma rnd_error:
  assumes "pow2 (- 1022) \<le> x" and "x \<le> 2 ^ 1000"
  obtains r where "rnd x = Fin r" and "\<bar>r - x\<bar> \<le> x / 2 ^ 53"
proof -
  have pos: "0 < x" using assms(1) pow2_pos [of "- 1022"] by linarith
  have "- 1022 < ilog2 x + 1"
    using ilog2_bounds [OF pos] assms(1) pow2_less_iff [of "- 1022" "ilog2 x + 1"] by linarith
  then have "ulp_exp x = ilog2 x + - 52" by (simp add: ulp_exp_def)
  then have "pow2 (ulp_exp x) / 2 = pow2 (ilog2 x) / 2 ^ 53"
    by (simp only: pow2_add) (simp add: pow2_def)
  also have "\<dots> \<le> x / 2 ^ 53" using ilog2_bounds [OF pos] by (simp add: divide_right_mono)
  finally have e: "\<bar>rnd_pos x - x\<bar> \<le> x / 2 ^ 53" using rnd_pos_error [of x] by linarith
  have "x / 2 ^ 53 \<le> x" using pos by (simp add: field_simps)
  then have "rnd_pos x \<le> 2 * 2 ^ 1000" using e assms(2) by linarith
  also have "(2 :: rat) * 2 ^ 1000 < pow2 1024" by (simp add: pow2_def)
  finally have "rnd x = Fin (rnd_pos x)" using pos by (simp add: rnd_def Let_def)
  with e show ?thesis using that by blast
qed

text \<open>A coarse form of the error bound that linear arithmetic can use.\<close>

lemma rnd_near:
  assumes "1 / 2 \<le> x" and "x \<le> 2 ^ 1000"
  obtains r where "rnd x = Fin r" and "9999 / 10000 * x \<le> r" and "r \<le> 10001 / 10000 * x"
proof -
  have "pow2 (- 1022) \<le> pow2 (- 1)" by (rule pow2_mono) simp
  then have "pow2 (- 1022) \<le> x" using assms(1) by (simp add: pow2_def)
  from rnd_error [OF this assms(2)] obtain r where r: "rnd x = Fin r" "\<bar>r - x\<bar> \<le> x / 2 ^ 53" .
  have "x / 2 ^ 53 \<le> x / 10000" using assms(1) by (simp add: field_simps)
  then show ?thesis using that [of r] r by linarith
qed

lemma f64_of_u64_near:
  assumes "0 < unat w"
  obtains r where "f64_of_u64 w = Fin r" and "9999 / 10000 * of_nat (unat w) \<le> r"
    and "r \<le> 10001 / 10000 * of_nat (unat w)"
proof -
  have "unat w < 2 ^ 64" using unat_less [of w] by simp
  then have "(of_nat (unat w) :: rat) < 2 ^ 64"
    by (subst of_nat_less_numeral_power_cancel_iff) simp
  also have "(2 :: rat) ^ 64 \<le> 2 ^ 1000" by (rule power_increasing) simp_all
  finally have "(of_nat (unat w) :: rat) \<le> 2 ^ 1000" by (rule less_imp_le)
  moreover have "(1 :: rat) / 2 \<le> of_nat (unat w)"
  proof -
    have "(of_nat 1 :: rat) \<le> of_nat (unat w)" using assms by (intro of_nat_mono) simp
    then show ?thesis by simp
  qed
  ultimately show ?thesis using rnd_near [of "of_nat (unat w)"] that by (auto simp: f64_of_u64_def)
qed

lemma f64_of_u64_0 [simp]: "f64_of_u64 0 = Fin 0"
  by (simp add: f64_of_u64_def rnd_def)

text \<open>Integers up to \<open>2 ^ 53\<close> are exact.\<close>

lemma rnd_pos_multiple:
  assumes "x = of_int k * pow2 (ulp_exp x)"
  shows "rnd_pos x = x"
proof -
  have "x / pow2 (ulp_exp x) = of_int k"
    using assms pow2_pos [of "ulp_exp x"] by (metis less_irrefl nonzero_mult_div_cancel_right)
  then show ?thesis using assms by (simp add: rnd_pos_def)
qed

lemma rnd_nat:
  assumes "n \<le> 2 ^ 53"
  shows "rnd (of_nat n) = Fin (of_nat n)"
proof (cases "n = 0")
  case False
  let ?x = "of_nat n :: rat"
  have x: "1 \<le> ?x" using False of_nat_mono [of 1 n, where 'a = rat] by simp
  have le: "?x \<le> pow2 53"
    using assms by (simp add: pow2_def)
  have r: "rnd_pos ?x = ?x"
  proof (cases "ulp_exp ?x \<le> 0")
    case True
    have "?x = of_int (int n * 2 ^ nat (- ulp_exp ?x)) * pow2 (ulp_exp ?x)"
      using True pow2_add [of "- ulp_exp ?x" "ulp_exp ?x"] by (simp add: pow2_def)
    then show ?thesis by (rule rnd_pos_multiple)
  next
    case False
    then have "53 \<le> ilog2 ?x" by (simp add: ulp_exp_def)
    then have "pow2 53 \<le> ?x" using ilog2_bounds [of ?x] pow2_mono [of 53 "ilog2 ?x"] x by linarith
    then have "?x = pow2 53" using le by simp
    have "ulp_exp ?x \<le> 53"
    proof -
      have "pow2 (ilog2 ?x) < pow2 54"
        using ilog2_bounds [of ?x] x le pow2_less_iff [of 53 54] by linarith
      then show ?thesis by (simp add: pow2_less_iff ulp_exp_def)
    qed
    then have "?x = of_int (2 ^ nat (53 - ulp_exp ?x)) * pow2 (ulp_exp ?x)"
      using pow2_add [of "53 - ulp_exp ?x" "ulp_exp ?x"] pow2_nonneg [of "53 - ulp_exp ?x"] \<open>?x = pow2 53\<close> by simp
    then show ?thesis by (rule rnd_pos_multiple)
  qed
  have "\<not> pow2 1024 \<le> ?x" using le pow2_less_iff [of 53 1024] by linarith
  then show ?thesis using x r by (simp add: rnd_def Let_def)
qed (simp add: rnd_def)

lemma f64_of_u64_exact: "unat w \<le> 2 ^ 53 \<Longrightarrow> f64_of_u64 w = Fin (of_nat (unat w))"
  unfolding f64_of_u64_def by (rule rnd_nat)

text \<open>Powers of two are exact, and so are their products and powers.\<close>

lemma rnd_pow2:
  assumes "- 1074 \<le> e"
  shows "rnd (pow2 e) = (if e < 1024 then Fin (pow2 e) else PInf)"
proof -
  have "pow2 (ilog2 (pow2 e)) \<le> pow2 e" "pow2 e < pow2 (ilog2 (pow2 e) + 1)"
    using ilog2_bounds [of "pow2 e"] by simp_all
  then have "\<not> e < ilog2 (pow2 e)" "e < ilog2 (pow2 e) + 1"
    using pow2_less_iff [of e "ilog2 (pow2 e)"] pow2_less_iff [of e "ilog2 (pow2 e) + 1"] by linarith+
  then have "ilog2 (pow2 e) = e" by simp
  then have "ulp_exp (pow2 e) \<le> e" using assms by (simp add: ulp_exp_def)
  then have "pow2 e = of_int (2 ^ nat (e - ulp_exp (pow2 e))) * pow2 (ulp_exp (pow2 e))"
    using pow2_add [of "e - ulp_exp (pow2 e)" "ulp_exp (pow2 e)"] pow2_nonneg [of "e - ulp_exp (pow2 e)"] by simp
  then have "rnd_pos (pow2 e) = pow2 e" by (rule rnd_pos_multiple)
  moreover have "pow2 1024 \<le> pow2 e \<longleftrightarrow> \<not> e < 1024" using pow2_less_iff [of e 1024] by linarith
  moreover have "pow2 e \<noteq> 0" "\<bar>pow2 e\<bar> = pow2 e" using pow2_pos [of e] by linarith+
  ultimately show ?thesis by (simp add: rnd_def Let_def)
qed

definition two_to :: "nat \<Rightarrow> f64" where
  "two_to n = (if n < 1024 then Fin (2 ^ n) else PInf)"

lemma rnd_two_power: "rnd (2 ^ n) = two_to n"
  using rnd_pow2 [of "int n"] by (simp add: two_to_def pow2_def)

lemma two_to_mul: "f64_mul (two_to m) (two_to n) = two_to (m + n)"
  using rnd_two_power [of "m + n"] by (auto simp: two_to_def inf_sign_def power_add)

lemma powi_loop_two: "powi_loop b (two_to m) (two_to n) = two_to (n + b * m)"
proof (induction b arbitrary: m n rule: less_induct)
  case (less b)
  let ?n = "if odd b then n + m else n"
  show ?case
  proof (cases "b < 2")
    case True
    then have "b = 0 \<or> b = 1" by auto
    then show ?thesis by (subst powi_loop.simps) (auto simp: two_to_mul Let_def)
  next
    case False
    have "?n + b div 2 * (m + m) = n + b * m"
      by (cases "even b") (auto elim!: evenE oddE simp: algebra_simps)
    moreover have "powi_loop (b div 2) (two_to (m + m)) (two_to ?n) = two_to (?n + b div 2 * (m + m))"
      by (rule less.IH) (use False in auto)
    ultimately show ?thesis
      by (subst powi_loop.simps) (simp only: Let_def False if_False two_to_mul if_distrib [of two_to])
  qed
qed

lemma powi_two: "0 \<le> sint b \<Longrightarrow> f64_powi (Fin 2) b = two_to (nat (sint b))"
  using powi_loop_two [of "nat (sint b)" 1 0] by (simp add: f64_powi_def two_to_def Let_def)

text \<open>The quotient of two exact integers is 0 and 1 only where the true quotient is.\<close>

lemma rnd_fraction:
  assumes "0 < m" and "m < n" and "n \<le> 2 ^ 53"
  obtains r where "rnd (of_nat m / of_nat n) = Fin r" and "0 < r" and "r < 1"
proof -
  define x y d :: rat where "x = of_nat m / of_nat n" and "y = of_nat n" and "d = 1 / 2 ^ 53"
  have d: "0 < d" "z / 2 ^ 53 = z * d" for z by (simp_all add: d_def)
  have y: "0 < y" using assms by (simp add: y_def)
  have "y \<le> 2 ^ 53" using assms(3) by (simp add: y_def)
  then have "d \<le> 1 / y" unfolding d_def using y by (intro divide_left_mono) simp_all
  moreover have "(1 :: rat) \<le> of_nat m" "(of_nat m :: rat) \<le> y - 1"
    using assms of_nat_mono [of 1 m, where 'a = rat] of_nat_mono [of "m + 1" n, where 'a = rat] by (simp_all add: y_def)
  then have "1 / y \<le> x" "x \<le> (y - 1) / y"
    unfolding x_def y_def [symmetric] using y by (simp_all add: divide_right_mono)
  moreover have "(y - 1) / y = 1 - 1 / y" using y by (simp add: diff_divide_distrib)
  ultimately have x: "d \<le> x" "x \<le> 1 - d" by linarith+
  have "pow2 (- 1022) \<le> pow2 (- 53)" by (rule pow2_mono) simp
  also have "pow2 (- 53) = d" by (simp add: pow2_def d_def)
  finally have lo: "pow2 (- 1022) \<le> x" using x(1) by linarith
  have hi: "x \<le> 2 ^ 1000" using x(2) d(1) one_le_power [of "2 :: rat" 1000] by linarith
  obtain r where r: "rnd x = Fin r" "\<bar>r - x\<bar> \<le> x * d" using rnd_error [OF lo hi] unfolding d(2) by blast
  have "x * d \<le> (1 - d) * d" using x(2) d(1) by (simp add: mult_right_mono)
  also have "\<dots> < d" using d(1) by (simp add: algebra_simps)
  finally have "x * d < d" .
  then have "r < 1" "0 < r" using r(2) x by linarith+
  then show ?thesis using that r(1) unfolding x_def by blast
qed

end
