(* ===== verification/Ring_Buffer.thy ===== *)
theory Ring_Buffer
  imports Containers F64
begin

text \<open>
  The hand-off buffer between ingestion and storage, \<open>src/shared/src/queue/ring.rs\<close>, over the
  parameter \<open>Q\<close> for crossbeam's \<open>ArrayQueue\<close>. The clones of a buffer share one queue
  behind an \<open>Arc\<close>, so the model has one state that every operation takes and returns;
  operations of several threads are a sequence of steps on it.
\<close>

record 'q RingBuffer =
  rb_inner :: 'q
  rb_capacity :: nat

definition ring_new :: "('q, 'a) array_queue_ops \<Rightarrow> nat \<Rightarrow> ('q RingBuffer, 'e) rresult" where
  "ring_new Q capacity =
     (if \<not> capacity > 0 then Panic
      else Ok \<lparr>rb_inner = aq_new Q capacity, rb_capacity = capacity\<rparr>)"

definition ring_try_push ::
    "('q, 'a) array_queue_ops \<Rightarrow> 'q RingBuffer \<Rightarrow> 'a \<Rightarrow> (unit, 'a) rresult \<times> 'q RingBuffer" where
  "ring_try_push Q rb item =
     (let (res, q) = aq_push Q (rb_inner rb) item in (res, rb\<lparr>rb_inner := q\<rparr>))"

definition ring_try_pop ::
    "('q, 'a) array_queue_ops \<Rightarrow> 'q RingBuffer \<Rightarrow> 'a option \<times> 'q RingBuffer" where
  "ring_try_pop Q rb = (let (res, q) = aq_pop Q (rb_inner rb) in (res, rb\<lparr>rb_inner := q\<rparr>))"

definition ring_len :: "('q, 'a) array_queue_ops \<Rightarrow> 'q RingBuffer \<Rightarrow> nat" where
  "ring_len Q rb = aq_len Q (rb_inner rb)"

definition ring_is_empty :: "('q, 'a) array_queue_ops \<Rightarrow> 'q RingBuffer \<Rightarrow> bool" where
  "ring_is_empty Q rb = aq_is_empty Q (rb_inner rb)"

definition ring_is_full :: "('q, 'a) array_queue_ops \<Rightarrow> 'q RingBuffer \<Rightarrow> bool" where
  "ring_is_full Q rb \<longleftrightarrow> aq_len Q (rb_inner rb) \<ge> rb_capacity rb"

definition fill_ratio :: "('q, 'a) array_queue_ops \<Rightarrow> 'q RingBuffer \<Rightarrow> f64" where
  "fill_ratio Q rb = f64_div (rnd (of_nat (aq_len Q (rb_inner rb)))) (rnd (of_nat (rb_capacity rb)))"

lemma ring_try_push_simps [simp]:
  "fst (ring_try_push Q rb x) = fst (aq_push Q (rb_inner rb) x)"
  "snd (ring_try_push Q rb x) = rb\<lparr>rb_inner := snd (aq_push Q (rb_inner rb) x)\<rparr>"
  by (simp_all add: ring_try_push_def split_beta)

lemma ring_try_pop_simps [simp]:
  "fst (ring_try_pop Q rb) = fst (aq_pop Q (rb_inner rb))"
  "snd (ring_try_pop Q rb) = rb\<lparr>rb_inner := snd (aq_pop Q (rb_inner rb))\<rparr>"
  by (simp_all add: ring_try_pop_def split_beta)

subsection \<open>The contract of a bounded queue\<close>

text \<open>
  What the pipeline relies on: a queue seen as the list of its contents.
\<close>

locale bounded_fifo =
  fixes try_push :: "'r \<Rightarrow> 'a \<Rightarrow> (unit, 'a) rresult \<times> 'r"
    and try_pop :: "'r \<Rightarrow> 'a option \<times> 'r"
    and is_full :: "'r \<Rightarrow> bool"
    and contents :: "'r \<Rightarrow> 'a list"
    and bound :: "'r \<Rightarrow> nat"
    and invar :: "'r \<Rightarrow> bool"
  assumes push_room: "invar r \<Longrightarrow> \<not> is_full r \<Longrightarrow>
      fst (try_push r x) = Ok () \<and> contents (snd (try_push r x)) = contents r @ [x]"
    and push_full: "invar r \<Longrightarrow> is_full r \<Longrightarrow>
      fst (try_push r x) = Err x \<and> contents (snd (try_push r x)) = contents r"
    and pop: "invar r \<Longrightarrow> fst (try_pop r) = (case contents r of [] \<Rightarrow> None | x # _ \<Rightarrow> Some x)
      \<and> contents (snd (try_pop r)) = tl (contents r)"
    and full_iff: "invar r \<Longrightarrow> is_full r \<longleftrightarrow> length (contents r) = bound r"
    and contents_bound: "invar r \<Longrightarrow> length (contents r) \<le> bound r"
    and invar_push: "invar r \<Longrightarrow> invar (snd (try_push r x)) \<and> bound (snd (try_push r x)) = bound r"
    and invar_pop: "invar r \<Longrightarrow> invar (snd (try_pop r)) \<and> bound (snd (try_pop r)) = bound r"

context bounded_fifo
begin

lemma push_cases:
  assumes "invar r"
  obtains (room) r' where "try_push r x = (Ok (), r')" "contents r' = contents r @ [x]"
    | (full) r' where "try_push r x = (Err x, r')" "contents r' = contents r"
  using push_room [OF assms, of x] push_full [OF assms, of x]
  by (cases "is_full r"; cases "try_push r x") auto

lemma pop_cases:
  assumes "invar r"
  obtains (item) x r' where "try_pop r = (Some x, r')" "contents r = x # contents r'"
    | (empty) r' where "try_pop r = (None, r')" "contents r = []" "contents r' = []"
  using pop [OF assms] by (cases "contents r"; cases "try_pop r") auto

end

subsection \<open>The ring buffer meets the contract\<close>

definition ring_invar :: "('q \<Rightarrow> 'a list) \<Rightarrow> ('q \<Rightarrow> nat) \<Rightarrow> 'q RingBuffer \<Rightarrow> bool" where
  "ring_invar items cap rb \<longleftrightarrow>
     rb_capacity rb = cap (rb_inner rb) \<and> length (items (rb_inner rb)) \<le> rb_capacity rb"

context array_queue
begin

lemma ring_new_invar:
  "ring_new Q c = Ok rb \<Longrightarrow> ring_invar items cap rb \<and> items (rb_inner rb) = [] \<and> rb_capacity rb = c"
  using new by (auto simp: ring_new_def ring_invar_def split: if_splits)

end

sublocale array_queue \<subseteq> ring: bounded_fifo "ring_try_push Q" "ring_try_pop Q" "ring_is_full Q"
    "\<lambda>rb. items (rb_inner rb)" rb_capacity "ring_invar items cap"
proof
  fix r :: "'q RingBuffer" and x :: 'a
  assume inv: "ring_invar items cap r"
  let ?q = "rb_inner r"
  have full: "ring_is_full Q r \<longleftrightarrow> cap ?q \<le> length (items ?q)"
    using inv by (simp add: ring_is_full_def ring_invar_def)
  then show "\<not> ring_is_full Q r \<Longrightarrow> fst (ring_try_push Q r x) = Ok () \<and>
      items (rb_inner (snd (ring_try_push Q r x))) = items ?q @ [x]"
    using push_room [of ?q x] by simp
  show "ring_is_full Q r \<Longrightarrow> fst (ring_try_push Q r x) = Err x \<and>
      items (rb_inner (snd (ring_try_push Q r x))) = items ?q"
    using push_full [of ?q x] full by simp
  show "fst (ring_try_pop Q r) = (case items ?q of [] \<Rightarrow> None | x # _ \<Rightarrow> Some x) \<and>
      items (rb_inner (snd (ring_try_pop Q r))) = tl (items ?q)"
    using pop_empty [of ?q] pop_item [of ?q] by (cases "items ?q") simp_all
  show "ring_is_full Q r \<longleftrightarrow> length (items ?q) = rb_capacity r"
    using inv full by (auto simp: ring_invar_def)
  show "length (items ?q) \<le> rb_capacity r"
    using inv by (simp add: ring_invar_def)
  show "ring_invar items cap (snd (ring_try_push Q r x)) \<and>
      rb_capacity (snd (ring_try_push Q r x)) = rb_capacity r"
    using inv push_room [of ?q x] push_full [of ?q x] push_cap [of ?q x]
    by (cases "length (items ?q) < cap ?q") (simp_all add: ring_invar_def)
  show "ring_invar items cap (snd (ring_try_pop Q r)) \<and>
      rb_capacity (snd (ring_try_pop Q r)) = rb_capacity r"
    using inv pop_empty [of ?q] pop_item [of ?q] pop_cap [of ?q]
    by (cases "items ?q") (simp_all add: ring_invar_def)
qed

context array_queue
begin

text \<open>The fill ratio is 0 and 1 exactly on an empty and a full ring, for every capacity a \<open>f64\<close> holds exactly.\<close>

lemma fill_ratio_exact:
  assumes "ring_invar items cap rb" and "0 < rb_capacity rb" and "rb_capacity rb \<le> 2 ^ 53"
  obtains r where "fill_ratio Q rb = Fin r" and "0 \<le> r" and "r \<le> 1"
    and "r = 0 \<longleftrightarrow> ring_is_empty Q rb" and "r = 1 \<longleftrightarrow> ring_is_full Q rb"
proof -
  let ?m = "length (items (rb_inner rb))" and ?n = "rb_capacity rb"
  have le: "?m \<le> ?n" using assms(1) by (simp add: ring_invar_def)
  then have "rnd (of_nat ?m) = Fin (of_nat ?m)" "rnd (of_nat ?n) = Fin (of_nat ?n)"
    using assms(3) by (simp_all add: rnd_nat)
  then have q: "fill_ratio Q rb = rnd (of_nat ?m / of_nat ?n)" using assms(2) by (simp add: fill_ratio_def)
  have st: "ring_is_empty Q rb \<longleftrightarrow> ?m = 0" "ring_is_full Q rb \<longleftrightarrow> ?m = ?n"
    using le by (auto simp: ring_is_empty_def ring_is_full_def)
  consider "?m = 0" | "?m = ?n" | "0 < ?m" "?m < ?n" using le by linarith
  then show ?thesis
  proof cases
    case 1
    then show ?thesis using that [of 0] assms(2) q st by (simp add: rnd_def)
  next
    case 2
    then show ?thesis using that [of 1] assms(2) q st rnd_nat [of 1] by simp
  next
    case 3
    from rnd_fraction [OF 3 assms(3)] obtain r where "rnd (of_nat ?m / of_nat ?n) = Fin r" "0 < r" "r < 1" .
    then show ?thesis using that [of r] 3 q st by simp
  qed
qed

end

end
