(* ===== verification/Pipeline.thy ===== *)
theory Pipeline
  imports Ring_Buffer Event
begin

text \<open>
  The ingestion pipeline \<open>src/core/src/pipeline\<close>: write batches (\<open>batch.rs\<close>), the flush
  policy (\<open>flush.rs\<close>) and the coordinator that drains the ring buffer into batches
  (\<open>coordinator.rs\<close>). Every reading of the clock is an argument \<open>now\<close>, and \<open>elapsed\<close>
  saturates at zero as \<open>Instant::elapsed\<close> does. The argument \<open>sz\<close> is
  \<open>size_of::<ChangeEvent>()\<close>.
\<close>

subsection \<open>Write batches\<close>

record WriteBatch =
  wb_events :: "ChangeEvent list"
  wb_min_lsn :: lsn
  wb_max_lsn :: lsn
  wb_total_bytes :: usize

definition batch_new :: WriteBatch where
  "batch_new = \<lparr>wb_events = [], wb_min_lsn = lsn_max, wb_max_lsn = lsn_zero, wb_total_bytes = 0\<rparr>"

text \<open>\<open>Vec::with_capacity\<close> panics when the buffer would exceed \<open>isize::MAX\<close> bytes.\<close>

definition batch_with_capacity :: "usize \<Rightarrow> usize \<Rightarrow> (WriteBatch, 'e) rresult" where
  "batch_with_capacity sz cap = (if unat cap * unat sz < 2 ^ 63 then Ok batch_new else Panic)"

definition batch_push :: "usize \<Rightarrow> WriteBatch \<Rightarrow> ChangeEvent \<Rightarrow> WriteBatch" where
  "batch_push sz b event =
     (let lsn = event_lsn event;
          n = estimated_size sz event;
          b = (if lsn < wb_min_lsn b then b\<lparr>wb_min_lsn := lsn\<rparr> else b);
          b = (if lsn > wb_max_lsn b then b\<lparr>wb_max_lsn := lsn\<rparr> else b)
      in b\<lparr>wb_total_bytes := wb_total_bytes b + n, wb_events := wb_events b @ [event]\<rparr>)"

definition batch_is_empty :: "WriteBatch \<Rightarrow> bool" where
  "batch_is_empty b \<longleftrightarrow> wb_events b = []"

definition batch_clear :: "WriteBatch \<Rightarrow> WriteBatch" where
  "batch_clear b =
     b\<lparr>wb_events := [], wb_min_lsn := lsn_max, wb_max_lsn := lsn_zero, wb_total_bytes := 0\<rparr>"

subsection \<open>The flush policy\<close>

record FlushPolicy =
  fp_max_bytes :: usize
  fp_max_age_us :: u64
  fp_current_bytes :: usize
  fp_last_flush :: nanos
  fp_flush_count :: u64

definition flush_new :: "usize \<Rightarrow> u64 \<Rightarrow> nanos \<Rightarrow> FlushPolicy" where
  "flush_new max_bytes max_age_us now =
     \<lparr>fp_max_bytes = max_bytes, fp_max_age_us = max_age_us, fp_current_bytes = 0,
      fp_last_flush = now, fp_flush_count = 0\<rparr>"

definition accumulate :: "usize \<Rightarrow> FlushPolicy \<Rightarrow> FlushPolicy" where
  "accumulate n fp = fp\<lparr>fp_current_bytes := fp_current_bytes fp + n\<rparr>"

definition age_us :: "nanos \<Rightarrow> FlushPolicy \<Rightarrow> u64" where
  "age_us now fp = of_nat ((now - fp_last_flush fp) div 1000)"

definition should_flush :: "nanos \<Rightarrow> FlushPolicy \<Rightarrow> bool" where
  "should_flush now fp =
     (if fp_current_bytes fp \<ge> fp_max_bytes fp then True
      else if age_us now fp \<ge> fp_max_age_us fp \<and> fp_current_bytes fp > 0 then True
      else False)"

definition mark_flushed :: "nanos \<Rightarrow> FlushPolicy \<Rightarrow> FlushPolicy" where
  "mark_flushed now fp =
     fp\<lparr>fp_current_bytes := 0, fp_last_flush := now, fp_flush_count := fp_flush_count fp + 1\<rparr>"

subsection \<open>The coordinator\<close>

record 'q PipelineCoordinator =
  pc_ring :: "'q RingBuffer"
  pc_flush_policy :: FlushPolicy
  pc_current_batch :: WriteBatch
  pc_events_processed :: u64
  pc_batches_flushed :: u64

definition coordinator_new :: "'q RingBuffer \<Rightarrow> FlushPolicy \<Rightarrow> 'q PipelineCoordinator" where
  "coordinator_new ring flush_policy =
     \<lparr>pc_ring = ring, pc_flush_policy = flush_policy, pc_current_batch = batch_new,
      pc_events_processed = 0, pc_batches_flushed = 0\<rparr>"

text \<open>The body of the loop of \<open>drain_ring\<close> for one popped event, and the loop.\<close>

definition drain_body :: "usize \<Rightarrow> ChangeEvent \<Rightarrow> 'q PipelineCoordinator \<Rightarrow> 'q PipelineCoordinator" where
  "drain_body sz event pc =
     (let n = estimated_size sz event
      in pc\<lparr>pc_current_batch := batch_push sz (pc_current_batch pc) event,
            pc_flush_policy := accumulate n (pc_flush_policy pc)\<rparr>)"

partial_function (option) drain_loop ::
    "('q, ChangeEvent) array_queue_ops \<Rightarrow> usize \<Rightarrow> nat \<Rightarrow> 'q PipelineCoordinator
     \<Rightarrow> (nat \<times> 'q PipelineCoordinator) option" where
  "drain_loop Q sz count pc =
     (case ring_try_pop Q (pc_ring pc) of
        (None, ring) \<Rightarrow> Some (count, pc\<lparr>pc_ring := ring\<rparr>)
      | (Some event, ring) \<Rightarrow>
          drain_loop Q sz (count + 1) (drain_body sz event (pc\<lparr>pc_ring := ring\<rparr>)))"

definition drain_ring ::
    "('q, ChangeEvent) array_queue_ops \<Rightarrow> usize \<Rightarrow> 'q PipelineCoordinator
     \<Rightarrow> (nat \<times> 'q PipelineCoordinator) option" where
  "drain_ring Q sz pc =
     map_option (\<lambda>(count, pc). (count, pc\<lparr>pc_events_processed := pc_events_processed pc + of_nat count\<rparr>))
       (drain_loop Q sz 0 pc)"

text \<open>
  \<open>maybe_flush\<close> reads the clock once for the decision and once for \<open>mark_flushed\<close>.
\<close>

definition take_batch :: "nanos \<Rightarrow> 'q PipelineCoordinator \<Rightarrow> WriteBatch option \<times> 'q PipelineCoordinator" where
  "take_batch now pc =
     (Some (pc_current_batch pc),
      pc\<lparr>pc_current_batch := batch_new,
         pc_flush_policy := mark_flushed now (pc_flush_policy pc),
         pc_batches_flushed := pc_batches_flushed pc + 1\<rparr>)"

definition maybe_flush ::
    "nanos \<Rightarrow> nanos \<Rightarrow> 'q PipelineCoordinator \<Rightarrow> WriteBatch option \<times> 'q PipelineCoordinator" where
  "maybe_flush now now' pc =
     (if should_flush now (pc_flush_policy pc) \<and> \<not> batch_is_empty (pc_current_batch pc)
      then take_batch now' pc
      else (None, pc))"

definition force_flush ::
    "nanos \<Rightarrow> 'q PipelineCoordinator \<Rightarrow> WriteBatch option \<times> 'q PipelineCoordinator" where
  "force_flush now pc =
     (if \<not> batch_is_empty (pc_current_batch pc) then take_batch now pc else (None, pc))"

definition ring_fill_ratio :: "('q, ChangeEvent) array_queue_ops \<Rightarrow> 'q PipelineCoordinator \<Rightarrow> f64" where
  "ring_fill_ratio Q pc = fill_ratio Q (pc_ring pc)"

subsection \<open>Batch metadata\<close>

definition batch_inv :: "usize \<Rightarrow> WriteBatch \<Rightarrow> bool" where
  "batch_inv sz b \<longleftrightarrow>
     wb_min_lsn b = Min (insert lsn_max (event_lsn ` set (wb_events b))) \<and>
     wb_max_lsn b = Max (insert lsn_zero (event_lsn ` set (wb_events b))) \<and>
     wb_total_bytes b = (\<Sum>e\<leftarrow>wb_events b. estimated_size sz e)"

lemma batch_new_simps [simp]:
  "wb_events batch_new = []" "wb_total_bytes batch_new = 0" "batch_inv sz batch_new"
  by (simp_all add: batch_new_def batch_inv_def)

lemma batch_push_simps [simp]:
  "wb_events (batch_push sz b e) = wb_events b @ [e]"
  "wb_min_lsn (batch_push sz b e) = min (event_lsn e) (wb_min_lsn b)"
  "wb_max_lsn (batch_push sz b e) = max (event_lsn e) (wb_max_lsn b)"
  "wb_total_bytes (batch_push sz b e) = wb_total_bytes b + estimated_size sz e"
  by (auto simp: batch_push_def Let_def)

lemma batch_push_inv: "batch_inv sz b \<Longrightarrow> batch_inv sz (batch_push sz b e)"
  by (simp add: batch_inv_def insert_commute [of _ "event_lsn e"])

lemma batch_clear_new: "batch_clear b = batch_new"
  by (simp add: batch_clear_def batch_new_def)

lemma batch_inv_range:
  assumes "batch_inv sz b" and "e \<in> set (wb_events b)"
  shows "wb_min_lsn b \<le> event_lsn e" "event_lsn e \<le> wb_max_lsn b"
  using assms by (simp_all add: batch_inv_def)

lemma batch_inv_attained:
  assumes "batch_inv sz b" and "wb_events b \<noteq> []"
  shows "wb_min_lsn b \<in> event_lsn ` set (wb_events b)" "wb_max_lsn b \<in> event_lsn ` set (wb_events b)"
proof -
  let ?S = "event_lsn ` set (wb_events b)"
  have ne: "finite ?S" "?S \<noteq> {}" using assms(2) by auto
  have "Min (insert lsn_max ?S) = Min ?S"
    using ne by (simp add: min_absorb2)
  moreover have "Max (insert lsn_zero ?S) = Max ?S"
    using ne by (simp add: max_absorb2)
  ultimately show "wb_min_lsn b \<in> ?S" "wb_max_lsn b \<in> ?S"
    using assms(1) ne Min_in [OF ne] Max_in [OF ne] by (simp_all add: batch_inv_def)
qed

subsection \<open>Draining\<close>

lemma drain_body_simps [simp]:
  "pc_ring (drain_body sz e pc) = pc_ring pc"
  "pc_current_batch (drain_body sz e pc) = batch_push sz (pc_current_batch pc) e"
  "pc_flush_policy (drain_body sz e pc) = accumulate (estimated_size sz e) (pc_flush_policy pc)"
  "pc_events_processed (drain_body sz e pc) = pc_events_processed pc"
  "pc_batches_flushed (drain_body sz e pc) = pc_batches_flushed pc"
  by (simp_all add: drain_body_def)

lemma accumulate_simps [simp]:
  "fp_current_bytes (accumulate n fp) = fp_current_bytes fp + n"
  "fp_max_bytes (accumulate n fp) = fp_max_bytes fp"
  "fp_max_age_us (accumulate n fp) = fp_max_age_us fp"
  "fp_last_flush (accumulate n fp) = fp_last_flush fp"
  "fp_flush_count (accumulate n fp) = fp_flush_count fp"
  by (simp_all add: accumulate_def)

lemma mark_flushed_simps [simp]:
  "fp_current_bytes (mark_flushed now fp) = 0"
  "fp_last_flush (mark_flushed now fp) = now"
  "fp_flush_count (mark_flushed now fp) = fp_flush_count fp + 1"
  by (simp_all add: mark_flushed_def)

text \<open>The contract of the pipeline's own queue: an \<open>ArrayQueue\<close> of change events.\<close>

locale event_queue = array_queue Q items cap
  for Q :: "('q, ChangeEvent) array_queue_ops" and items :: "'q \<Rightarrow> ChangeEvent list"
    and cap :: "'q \<Rightarrow> nat"

interpretation list_eq: event_queue list_queue snd fst ..

lemma drain_loop_None:
  "ring_try_pop Q (pc_ring pc) = (None, ring) \<Longrightarrow>
     drain_loop Q sz count pc = Some (count, pc\<lparr>pc_ring := ring\<rparr>)"
  by (subst drain_loop.simps) simp

lemma drain_loop_Some:
  "ring_try_pop Q (pc_ring pc) = (Some event, ring) \<Longrightarrow>
     drain_loop Q sz count pc = drain_loop Q sz (count + 1) (drain_body sz event (pc\<lparr>pc_ring := ring\<rparr>))"
  by (subst drain_loop.simps) simp

definition drained :: "usize \<Rightarrow> ChangeEvent list \<Rightarrow> 'q RingBuffer \<Rightarrow> 'q PipelineCoordinator \<Rightarrow> 'q PipelineCoordinator" where
  "drained sz es ring pc =
     pc\<lparr>pc_ring := ring,
        pc_current_batch := foldl (batch_push sz) (pc_current_batch pc) es,
        pc_flush_policy := accumulate (\<Sum>e\<leftarrow>es. estimated_size sz e) (pc_flush_policy pc)\<rparr>"

lemma drained_Nil: "drained sz [] ring pc = pc\<lparr>pc_ring := ring\<rparr>"
  by (simp add: drained_def accumulate_def)

lemma drained_Cons:
  "drained sz es ring (drain_body sz e (pc\<lparr>pc_ring := ring'\<rparr>)) = drained sz (e # es) ring pc"
  by (simp add: drained_def drain_body_def accumulate_def add.assoc)

context event_queue
begin

text \<open>
  With the queue's contract the loop returns: it takes the items one by one, and pops an
  empty queue last.
\<close>

lemma drain_loop_total:
  assumes "ring_invar items cap (pc_ring pc)"
  shows "\<exists>ring. drain_loop Q sz count pc =
       Some (count + length (items (rb_inner (pc_ring pc))),
             drained sz (items (rb_inner (pc_ring pc))) ring pc)
     \<and> ring_invar items cap ring \<and> items (rb_inner ring) = []
     \<and> rb_capacity ring = rb_capacity (pc_ring pc)"
  using assms
proof (induction "items (rb_inner (pc_ring pc))" arbitrary: pc count)
  case Nil
  obtain ring where pop: "ring_try_pop Q (pc_ring pc) = (None, ring)"
    using ring.pop [OF Nil.prems] Nil.hyps by (cases "ring_try_pop Q (pc_ring pc)") auto
  with Nil ring.invar_pop [OF Nil.prems] ring.pop [OF Nil.prems] show ?case
    by (auto simp: drain_loop_None drained_Nil simp flip: Nil.hyps)
next
  case (Cons e es)
  obtain rng where pop: "ring_try_pop Q (pc_ring pc) = (Some e, rng)"
    using ring.pop [OF Cons.prems] Cons.hyps(2)
    by (cases "ring_try_pop Q (pc_ring pc)") (auto split: list.splits)
  let ?pc = "drain_body sz e (pc\<lparr>pc_ring := rng\<rparr>)"
  have rng: "ring_invar items cap rng" "rb_capacity rng = rb_capacity (pc_ring pc)"
    and es: "items (rb_inner rng) = es"
    using ring.invar_pop [OF Cons.prems] ring.pop [OF Cons.prems] pop Cons.hyps(2)
    by (auto split: list.splits)
  then have inv: "ring_invar items cap (pc_ring ?pc)" and hyp: "es = items (rb_inner (pc_ring ?pc))"
    by simp_all
  from Cons.hyps(1) [OF hyp inv, of "count + 1"] rng show ?case
    by (auto simp: drain_loop_Some [OF pop] drained_Cons es simp flip: Cons.hyps(2))
qed

lemma drain_ring_total:
  assumes "ring_invar items cap (pc_ring pc)"
  shows "\<exists>pc'. drain_ring Q sz pc = Some (length (items (rb_inner (pc_ring pc))), pc')
     \<and> items (rb_inner (pc_ring pc')) = [] \<and> ring_invar items cap (pc_ring pc')
     \<and> wb_events (pc_current_batch pc') = wb_events (pc_current_batch pc) @ items (rb_inner (pc_ring pc))
     \<and> fp_current_bytes (pc_flush_policy pc') = fp_current_bytes (pc_flush_policy pc)
          + (\<Sum>e\<leftarrow>items (rb_inner (pc_ring pc)). estimated_size sz e)
     \<and> pc_events_processed pc' = pc_events_processed pc + of_nat (length (items (rb_inner (pc_ring pc))))"
proof -
  have ev: "wb_events (foldl (batch_push sz) b es) = wb_events b @ es" for b es
    by (induction es arbitrary: b) simp_all
  from drain_loop_total [OF assms, of sz 0] show ?thesis
    by (auto simp: drain_ring_def drained_def ev)
qed

end

subsection \<open>Producers and the coordinator, interleaved\<close>

text \<open>
  The state of a running pipeline: the coordinator (which holds the shared ring), the events
  the ring accepted so far, the batches handed out so far, and, while \<open>drain_ring\<close> is in its
  loop, the loop's local count. Any number of producers push at any time; the coordinator's
  methods take \<open>&mut self\<close>, so they run one at a time, and a push may come between two
  iterations of the loop.
\<close>

record 'q pipe =
  p_coord :: "'q PipelineCoordinator"
  p_draining :: "nat option"
  p_accepted :: "ChangeEvent list"
  p_flushed :: "WriteBatch list"

definition add_batch :: "WriteBatch option \<Rightarrow> WriteBatch list \<Rightarrow> WriteBatch list" where
  "add_batch b bs = (case b of None \<Rightarrow> bs | Some b \<Rightarrow> bs @ [b])"

inductive pipe_step :: "('q, ChangeEvent) array_queue_ops \<Rightarrow> usize \<Rightarrow> 'q pipe \<Rightarrow> 'q pipe \<Rightarrow> bool"
  for Q sz where
  accept: "ring_try_push Q (pc_ring (p_coord s)) e = (Ok (), ring) \<Longrightarrow>
    pipe_step Q sz s (s\<lparr>p_coord := (p_coord s)\<lparr>pc_ring := ring\<rparr>, p_accepted := p_accepted s @ [e]\<rparr>)"
| reject: "ring_try_push Q (pc_ring (p_coord s)) e = (Err e', ring) \<Longrightarrow>
    pipe_step Q sz s (s\<lparr>p_coord := (p_coord s)\<lparr>pc_ring := ring\<rparr>\<rparr>)"
| drain_begin: "p_draining s = None \<Longrightarrow> pipe_step Q sz s (s\<lparr>p_draining := Some 0\<rparr>)"
| drain_item: "p_draining s = Some n \<Longrightarrow> ring_try_pop Q (pc_ring (p_coord s)) = (Some e, ring) \<Longrightarrow>
    pipe_step Q sz s (s\<lparr>p_coord := drain_body sz e ((p_coord s)\<lparr>pc_ring := ring\<rparr>),
                        p_draining := Some (n + 1)\<rparr>)"
| drain_end: "p_draining s = Some n \<Longrightarrow> ring_try_pop Q (pc_ring (p_coord s)) = (None, ring) \<Longrightarrow>
    pipe_step Q sz s (s\<lparr>p_coord := (p_coord s)\<lparr>pc_ring := ring,
        pc_events_processed := pc_events_processed (p_coord s) + of_nat n\<rparr>, p_draining := None\<rparr>)"
| flush: "p_draining s = None \<Longrightarrow> maybe_flush now now' (p_coord s) = (b, pc) \<Longrightarrow>
    pipe_step Q sz s (s\<lparr>p_coord := pc, p_flushed := add_batch b (p_flushed s)\<rparr>)"
| force: "p_draining s = None \<Longrightarrow> force_flush now (p_coord s) = (b, pc) \<Longrightarrow>
    pipe_step Q sz s (s\<lparr>p_coord := pc, p_flushed := add_batch b (p_flushed s)\<rparr>)"

inductive pipe_reach ::
    "('q, ChangeEvent) array_queue_ops \<Rightarrow> usize \<Rightarrow> 'q pipe \<Rightarrow> bool" for Q sz where
  start: "ring_new Q c = (Ok ring :: (_, string) rresult) \<Longrightarrow>
    pipe_reach Q sz \<lparr>p_coord = coordinator_new ring (flush_new mb ma now), p_draining = None,
      p_accepted = [], p_flushed = []\<rparr>"
| step: "pipe_reach Q sz s \<Longrightarrow> pipe_step Q sz s t \<Longrightarrow> pipe_reach Q sz t"

definition batched :: "'q pipe \<Rightarrow> ChangeEvent list" where
  "batched s = concat (map wb_events (p_flushed s)) @ wb_events (pc_current_batch (p_coord s))"

definition pipe_inv :: "('q \<Rightarrow> ChangeEvent list) \<Rightarrow> ('q \<Rightarrow> nat) \<Rightarrow> usize \<Rightarrow> 'q pipe \<Rightarrow> bool" where
  "pipe_inv items cap sz s \<longleftrightarrow>
     ring_invar items cap (pc_ring (p_coord s)) \<and>
     p_accepted s = batched s @ items (rb_inner (pc_ring (p_coord s))) \<and>
     list_all (\<lambda>b. batch_inv sz b \<and> wb_events b \<noteq> []) (p_flushed s) \<and>
     batch_inv sz (pc_current_batch (p_coord s)) \<and>
     fp_current_bytes (pc_flush_policy (p_coord s)) = wb_total_bytes (pc_current_batch (p_coord s)) \<and>
     pc_batches_flushed (p_coord s) = of_nat (length (p_flushed s)) \<and>
     fp_flush_count (pc_flush_policy (p_coord s)) = of_nat (length (p_flushed s)) \<and>
     pc_events_processed (p_coord s) + of_nat (case p_draining s of None \<Rightarrow> 0 | Some n \<Rightarrow> n)
       = of_nat (length (batched s))"

lemma flush_cases:
  assumes "maybe_flush now now' pc = (b, pc') \<or> force_flush now' pc = (b, pc')"
  obtains (none) "b = None" "pc' = pc"
    | (some) "wb_events (pc_current_batch pc) \<noteq> []" "b = Some (pc_current_batch pc)"
        "pc' = snd (take_batch now' pc)"
  using assms
  by (auto simp: maybe_flush_def force_flush_def take_batch_def batch_is_empty_def split: if_splits)

lemma pipe_inv_flush:
  assumes "maybe_flush now now' (p_coord s) = (b, pc) \<or> force_flush now' (p_coord s) = (b, pc)"
    and "pipe_inv items cap sz s"
  shows "pipe_inv items cap sz (s\<lparr>p_coord := pc, p_flushed := add_batch b (p_flushed s)\<rparr>)"
  using assms(1)
proof (cases rule: flush_cases)
  case none
  with assms(2) show ?thesis by (simp add: add_batch_def)
next
  case some
  with assms(2) show ?thesis
    by (simp add: add_batch_def pipe_inv_def take_batch_def batched_def)
qed

context event_queue
begin

lemma pipe_inv_push:
  assumes "pipe_inv items cap sz s" and "ring_try_push Q (pc_ring (p_coord s)) e = (res, rng)"
  shows "pipe_inv items cap sz (s\<lparr>p_coord := (p_coord s)\<lparr>pc_ring := rng\<rparr>,
           p_accepted := p_accepted s @ (if res = Ok () then [e] else [])\<rparr>)"
proof -
  let ?r = "pc_ring (p_coord s)"
  have r: "ring_invar items cap ?r" using assms(1) by (simp add: pipe_inv_def)
  have "ring_invar items cap rng" using ring.invar_push [OF r, of e] assms(2) by simp
  moreover have "items (rb_inner rng) = items (rb_inner ?r) @ (if res = Ok () then [e] else [])"
    using assms(2) by (cases rule: ring.push_cases [OF r, of e]) auto
  ultimately show ?thesis using assms(1) by (simp add: pipe_inv_def batched_def)
qed

lemma pipe_inv_step: "pipe_step Q sz s t \<Longrightarrow> pipe_inv items cap sz s \<Longrightarrow> pipe_inv items cap sz t"
proof (induction rule: pipe_step.induct)
  case (accept s e rng)
  then show ?case using pipe_inv_push by fastforce
next
  case (reject s e e' rng)
  then show ?case using pipe_inv_push [OF reject.prems reject.hyps] by simp
next
  case (drain_begin s)
  then show ?case by (simp add: pipe_inv_def batched_def)
next
  case (drain_item s n e rng)
  let ?r = "pc_ring (p_coord s)"
  have r: "ring_invar items cap ?r" using drain_item.prems by (simp add: pipe_inv_def)
  have "items (rb_inner ?r) = e # items (rb_inner rng)" "ring_invar items cap rng"
    using ring.pop [OF r] ring.invar_pop [OF r] drain_item.hyps(2) by (auto split: list.splits)
  with drain_item show ?case
    by (simp add: pipe_inv_def batched_def batch_push_inv algebra_simps)
next
  case (drain_end s n rng)
  let ?r = "pc_ring (p_coord s)"
  have r: "ring_invar items cap ?r" using drain_end.prems by (simp add: pipe_inv_def)
  have "items (rb_inner ?r) = []" "items (rb_inner rng) = []" "ring_invar items cap rng"
    using ring.pop [OF r] ring.invar_pop [OF r] drain_end.hyps(2) by (auto split: list.splits)
  with drain_end show ?case by (simp add: pipe_inv_def batched_def)
next
  case (flush s now now' b pc)
  then show ?case using pipe_inv_flush by blast
next
  case (force s now b pc)
  then show ?case using pipe_inv_flush by blast
qed

lemma pipe_reach_inv: "pipe_reach Q sz s \<Longrightarrow> pipe_inv items cap sz s"
proof (induction rule: pipe_reach.induct)
  case (start c rng mb ma now)
  then show ?case using ring_new_invar [OF start.hyps]
    by (simp add: pipe_inv_def coordinator_new_def flush_new_def batched_def)
next
  case (step s t)
  then show ?case by (blast intro: pipe_inv_step)
qed

end

subsection \<open>Progress\<close>

text \<open>Everything accepted is in a batch that was handed out.\<close>

definition settled :: "('q \<Rightarrow> ChangeEvent list) \<Rightarrow> 'q pipe \<Rightarrow> bool" where
  "settled items s \<longleftrightarrow> p_draining s = None \<and> wb_events (pc_current_batch (p_coord s)) = []
     \<and> items (rb_inner (pc_ring (p_coord s))) = [] \<and> concat (map wb_events (p_flushed s)) = p_accepted s"

lemma pipe_steps_reach: "(pipe_step Q sz)\<^sup>*\<^sup>* s t \<Longrightarrow> pipe_reach Q sz s \<Longrightarrow> pipe_reach Q sz t"
  by (induction rule: rtranclp_induct) (auto intro: pipe_reach.step)

context event_queue
begin

lemma drain_finishes:
  "pipe_reach Q sz s \<Longrightarrow> p_draining s = Some n \<Longrightarrow>
     \<exists>t. (pipe_step Q sz)\<^sup>*\<^sup>* s t \<and> p_draining t = None \<and> p_accepted t = p_accepted s
       \<and> items (rb_inner (pc_ring (p_coord t))) = []"
proof (induction "items (rb_inner (pc_ring (p_coord s)))" arbitrary: s n)
  case Nil
  have r: "ring_invar items cap (pc_ring (p_coord s))"
    using pipe_reach_inv [OF Nil.prems(1)] by (simp add: pipe_inv_def)
  from r show ?case
  proof (cases rule: ring.pop_cases)
    case (empty rng)
    have "pipe_step Q sz s (s\<lparr>p_coord := (p_coord s)\<lparr>pc_ring := rng,
        pc_events_processed := pc_events_processed (p_coord s) + of_nat n\<rparr>, p_draining := None\<rparr>)" (is "pipe_step _ _ _ ?t")
      by (rule pipe_step.drain_end [OF Nil.prems(2) empty(1)])
    then show ?thesis using empty by (intro exI [of _ ?t]) auto
  qed (use Nil.hyps in simp)
next
  case (Cons e es)
  have r: "ring_invar items cap (pc_ring (p_coord s))"
    using pipe_reach_inv [OF Cons.prems(1)] by (simp add: pipe_inv_def)
  from r show ?case
  proof (cases rule: ring.pop_cases)
    case (item x rng)
    let ?t = "s\<lparr>p_coord := drain_body sz x ((p_coord s)\<lparr>pc_ring := rng\<rparr>), p_draining := Some (n + 1)\<rparr>"
    have step: "pipe_step Q sz s ?t" by (rule pipe_step.drain_item [OF Cons.prems(2) item(1)])
    have "es = items (rb_inner (pc_ring (p_coord ?t)))" using Cons.hyps(2) item by simp
    from Cons.hyps(1) [OF this pipe_reach.step [OF Cons.prems(1) step]] step show ?thesis
      by (auto intro: converse_rtranclp_into_rtranclp)
  qed (use Cons.hyps(2) in simp)
qed

lemma batch_flushes:
  assumes "pipe_reach Q sz s" and "p_draining s = None" and "items (rb_inner (pc_ring (p_coord s))) = []"
  shows "\<exists>t. (pipe_step Q sz)\<^sup>*\<^sup>* s t \<and> p_accepted t = p_accepted s \<and> settled items t"
proof (cases "wb_events (pc_current_batch (p_coord s)) = []")
  case True
  then show ?thesis
    using pipe_reach_inv [OF assms(1)] assms(2,3)
    by (intro exI [of _ s]) (simp add: settled_def pipe_inv_def batched_def)
next
  case False
  let ?t = "s\<lparr>p_coord := snd (take_batch 0 (p_coord s)),
      p_flushed := add_batch (Some (pc_current_batch (p_coord s))) (p_flushed s)\<rparr>"
  have "force_flush 0 (p_coord s) = (Some (pc_current_batch (p_coord s)), snd (take_batch 0 (p_coord s)))"
    using False by (simp add: force_flush_def batch_is_empty_def take_batch_def)
  then have step: "pipe_step Q sz s ?t" by (rule pipe_step.force [OF assms(2)])
  have "p_accepted s = batched s" using pipe_reach_inv [OF assms(1)] assms(3) by (simp add: pipe_inv_def)
  then have "settled items ?t"
    using assms(2,3) by (simp add: settled_def take_batch_def add_batch_def batched_def)
  with step show ?thesis by (intro exI [of _ ?t]) auto
qed

lemma pipe_settles:
  assumes "pipe_reach Q sz s"
  shows "\<exists>t. (pipe_step Q sz)\<^sup>*\<^sup>* s t \<and> p_accepted t = p_accepted s \<and> settled items t"
proof -
  obtain s1 n where s1: "(pipe_step Q sz)\<^sup>*\<^sup>* s s1" "p_draining s1 = Some n" "p_accepted s1 = p_accepted s"
  proof (cases "p_draining s")
    case None
    from that [of "s\<lparr>p_draining := Some 0\<rparr>" 0] pipe_step.drain_begin [OF None, of Q sz] show ?thesis by auto
  qed (use that in auto)
  have r1: "pipe_reach Q sz s1" by (rule pipe_steps_reach [OF s1(1) assms])
  from drain_finishes [OF r1 s1(2)] obtain s2 where s2: "(pipe_step Q sz)\<^sup>*\<^sup>* s1 s2" "p_draining s2 = None"
      "p_accepted s2 = p_accepted s1" "items (rb_inner (pc_ring (p_coord s2))) = []" by blast
  from batch_flushes [OF pipe_steps_reach [OF s2(1) r1] s2(2,4)] obtain t where
    "(pipe_step Q sz)\<^sup>*\<^sup>* s2 t" "p_accepted t = p_accepted s2" "settled items t" by blast
  with s1 s2 show ?thesis by (metis rtranclp_trans)
qed

lemma ring_room:
  assumes "pipe_reach Q sz s" and "items (rb_inner (pc_ring (p_coord s))) = []" and "0 < rb_capacity (pc_ring (p_coord s))"
  shows "\<exists>ring. ring_try_push Q (pc_ring (p_coord s)) e = (Ok (), ring) \<and> rb_capacity ring = rb_capacity (pc_ring (p_coord s))"
proof -
  have "ring_invar items cap (pc_ring (p_coord s))" using pipe_reach_inv [OF assms(1)] by (simp add: pipe_inv_def)
  then have "fst (aq_push Q (rb_inner (pc_ring (p_coord s))) e) = Ok ()"
    using push_room [of "rb_inner (pc_ring (p_coord s))" e] assms(2,3) by (simp add: ring_invar_def)
  then show ?thesis by (simp add: ring_try_push_def split_beta)
qed

lemma pipe_steps_capacity:
  assumes "pipe_step Q sz s t"
  shows "rb_capacity (pc_ring (p_coord t)) = rb_capacity (pc_ring (p_coord s))"
  using assms
  by cases (auto simp: ring_try_push_def ring_try_pop_def split_beta maybe_flush_def force_flush_def take_batch_def
      split: if_splits)

lemma pipe_reach_capacity: "pipe_reach Q sz s \<Longrightarrow> 0 < rb_capacity (pc_ring (p_coord s))"
proof (induction rule: pipe_reach.induct)
  case (start c ring mb ma now)
  then show ?case by (auto simp: ring_new_def coordinator_new_def split: if_splits)
qed (simp add: pipe_steps_capacity)

text \<open>Any sequence of events can go through a ring of any capacity.\<close>

lemma pipe_any_events:
  assumes "0 < (c :: nat)"
  shows "\<exists>s. pipe_reach Q sz s \<and> p_accepted s = es \<and> settled items s"
proof (induction es rule: rev_induct)
  case Nil
  obtain rng where "ring_new Q c = (Ok rng :: (_, string) rresult)" using assms by (simp add: ring_new_def)
  note s = this pipe_reach.start [OF this, of sz 1 1 0]
  show ?case
    by (rule exI, rule conjI [OF s(2)])
      (use ring_new_invar [OF s(1)] in \<open>simp add: settled_def coordinator_new_def\<close>)
next
  case (snoc e es)
  then obtain s where s: "pipe_reach Q sz s" "p_accepted s = es" "settled items s" by blast
  obtain rng where "ring_try_push Q (pc_ring (p_coord s)) e = (Ok (), rng)"
    using ring_room [OF s(1) _ pipe_reach_capacity [OF s(1)]] s(3) by (auto simp: settled_def)
  from pipe_reach.step [OF s(1) pipe_step.accept [OF this]]
  obtain t where t: "pipe_reach Q sz t" "p_accepted t = es @ [e]" using s(2) by fastforce
  from pipe_settles [OF t(1)] t pipe_steps_reach show ?case by metis
qed

end

subsection \<open>A run\<close>

definition demo_event :: "u64 \<Rightarrow> ChangeEvent" where
  "demo_event n = \<lparr>ev_lsn = n, ev_xid = 7, ev_op = Insert,
     ev_table = \<lparr>tid_schema = ''public'', tid_table = ''t''\<rparr>, ev_schema_fingerprint = 1,
     ev_after = None, ev_before = None, ev_commit_timestamp_us = 0\<rparr>"

definition demo_start :: "(nat \<times> ChangeEvent list) PipelineCoordinator" where
  "demo_start = coordinator_new \<lparr>rb_inner = (2, []), rb_capacity = 2\<rparr> (flush_new 1 1000 0)"

definition demo_pushed :: "(nat \<times> ChangeEvent list) pipe" where
  "demo_pushed = \<lparr>p_coord = demo_start\<lparr>pc_ring := \<lparr>rb_inner = (2, [demo_event 5]), rb_capacity = 2\<rparr>\<rparr>,
     p_draining = None, p_accepted = [demo_event 5], p_flushed = []\<rparr>"

definition demo_drained :: "(nat \<times> ChangeEvent list) pipe" where
  "demo_drained = demo_pushed\<lparr>p_coord := drain_body 200 (demo_event 5) demo_start, p_draining := Some 1\<rparr>"

lemma demo_pushed_reach: "pipe_reach list_queue 200 demo_pushed"
proof -
  have "ring_new list_queue 2 = (Ok \<lparr>rb_inner = (2, []), rb_capacity = 2\<rparr> :: (_, string) rresult)"
    by (simp add: ring_new_def list_queue_def)
  from pipe_reach.start [OF this, of 200 1 1000 0]
  have "pipe_reach list_queue 200
      \<lparr>p_coord = demo_start, p_draining = None, p_accepted = [], p_flushed = []\<rparr>"
    by (simp add: demo_start_def)
  moreover have "pipe_step list_queue 200
      \<lparr>p_coord = demo_start, p_draining = None, p_accepted = [], p_flushed = []\<rparr> demo_pushed"
    using pipe_step.accept [where Q = list_queue and sz = 200 and e = "demo_event 5"
        and s = "\<lparr>p_coord = demo_start, p_draining = None, p_accepted = [], p_flushed = []\<rparr>"
        and ring = "\<lparr>rb_inner = (2, [demo_event 5]), rb_capacity = 2\<rparr>"]
    by (simp add: ring_try_push_def list_queue_def demo_start_def coordinator_new_def demo_pushed_def)
  ultimately show ?thesis by (rule pipe_reach.step)
qed

lemma demo_drained_reach: "pipe_reach list_queue 200 demo_drained"
proof -
  have "pipe_step list_queue 200 demo_pushed (demo_pushed\<lparr>p_draining := Some 0\<rparr>)"
    by (rule pipe_step.drain_begin) (simp add: demo_pushed_def)
  moreover have "pipe_step list_queue 200 (demo_pushed\<lparr>p_draining := Some 0\<rparr>) demo_drained"
    using pipe_step.drain_item [where Q = list_queue and sz = 200 and e = "demo_event 5" and n = 0
        and s = "demo_pushed\<lparr>p_draining := Some 0\<rparr>"
        and ring = "\<lparr>rb_inner = (2, []), rb_capacity = 2\<rparr>"]
    by (simp add: ring_try_pop_def list_queue_def demo_pushed_def demo_drained_def demo_start_def
        coordinator_new_def)
  ultimately show ?thesis by (blast intro: pipe_reach.step demo_pushed_reach)
qed

definition demo_flushed :: "(nat \<times> ChangeEvent list) pipe" where
  "demo_flushed =
     (let pc = drain_body 200 (demo_event 5) demo_start\<lparr>pc_events_processed := 1\<rparr>
      in demo_drained\<lparr>p_coord := snd (take_batch 6 pc), p_draining := None,
           p_flushed := [pc_current_batch pc]\<rparr>)"

lemma demo_flushed_reach: "pipe_reach list_queue 200 demo_flushed"
proof -
  let ?pc = "drain_body 200 (demo_event 5) demo_start"
  let ?t = "demo_drained\<lparr>p_coord := ?pc\<lparr>pc_events_processed := 1\<rparr>, p_draining := None\<rparr>"
  have ring: "pc_ring ?pc = \<lparr>rb_inner = (2, []), rb_capacity = 2\<rparr>"
    by (simp add: demo_start_def coordinator_new_def)
  have "pipe_step list_queue 200 demo_drained ?t"
    using pipe_step.drain_end [where Q = list_queue and sz = 200 and n = 1 and s = demo_drained
        and ring = "\<lparr>rb_inner = (2, []), rb_capacity = 2\<rparr>"]
    by (simp add: ring_try_pop_def list_queue_def demo_drained_def demo_start_def
        coordinator_new_def drain_body_def)
  moreover have "pipe_step list_queue 200 ?t demo_flushed"
    using pipe_step.force [where Q = list_queue and sz = 200 and now = 6 and s = ?t]
    by (simp add: force_flush_def batch_is_empty_def take_batch_def add_batch_def demo_flushed_def
        demo_drained_def demo_pushed_def drain_body_def Let_def)
  ultimately show ?thesis by (blast intro: pipe_reach.step demo_drained_reach)
qed

subsection \<open>Properties\<close>

text \<open>
  C2. Exactly once and in order through the pipeline. With any interleaving of pushes and of the
  coordinator's draining and flushing, the events the ring accepted are, in order, those of the
  batches handed out, then those of the batch being filled, then those still in the ring; and
  the counters agree: every batch handed out is counted once, and, outside of \<open>drain_ring\<close>,
  \<open>events_processed\<close> is the number of events moved into batches (both modulo $2^{64}$).
\<close>

theorem pipeline_exactly_once:
  assumes "event_queue Q items cap" and "pipe_reach Q sz s"
  shows "p_accepted s = concat (map wb_events (p_flushed s))
           @ wb_events (pc_current_batch (p_coord s)) @ items (rb_inner (pc_ring (p_coord s)))
    \<and> pc_batches_flushed (p_coord s) = of_nat (length (p_flushed s))
    \<and> (p_draining s = None \<longrightarrow> pc_events_processed (p_coord s) =
         of_nat (length (concat (map wb_events (p_flushed s)))
                 + length (wb_events (pc_current_batch (p_coord s)))))"
  using event_queue.pipe_reach_inv [OF assms] by (auto simp: pipe_inv_def batched_def)

theorem pipeline_exactly_once_witness:
  "pipe_reach list_queue 200 demo_pushed
   \<and> p_accepted demo_pushed = concat (map wb_events (p_flushed demo_pushed))
       @ wb_events (pc_current_batch (p_coord demo_pushed)) @ [demo_event 5]"
  using pipeline_exactly_once [OF list_eq.event_queue_axioms demo_pushed_reach] demo_pushed_reach
  by (simp add: demo_pushed_def)

text \<open>
  C16. Nothing accepted gets stuck. From every state the pipeline can reach, also in the middle of
  draining and with a full ring, the coordinator can finish its drain and flush, by steps of its
  own, so that every event accepted so far is in a batch handed out, and the ring and the open
  batch are empty.
\<close>

theorem accepted_events_flushable:
  assumes "event_queue Q items cap" and "pipe_reach Q sz s"
  shows "\<exists>t. (pipe_step Q sz)\<^sup>*\<^sup>* s t \<and> p_accepted t = p_accepted s
    \<and> concat (map wb_events (p_flushed t)) = p_accepted s
    \<and> wb_events (pc_current_batch (p_coord t)) = [] \<and> items (rb_inner (pc_ring (p_coord t))) = []"
  using event_queue.pipe_settles [OF assms] by (auto simp: settled_def)

theorem accepted_events_flushable_witness:
  "\<exists>t. (pipe_step list_queue 200)\<^sup>*\<^sup>* demo_drained t \<and> concat (map wb_events (p_flushed t)) = [demo_event 5]"
  using accepted_events_flushable [OF list_eq.event_queue_axioms demo_drained_reach]
  by (auto simp: demo_drained_def demo_pushed_def)

text \<open>
  The metadata of a batch the pipeline hands out is exact: the batch is not empty, its
  \<open>min_lsn\<close> and \<open>max_lsn\<close> are attained and bound every event of the batch, and
  \<open>total_bytes\<close> is the sum of the events' estimated sizes.
\<close>

theorem flushed_batch_metadata:
  assumes "event_queue Q items cap" and "pipe_reach Q sz s" and "b \<in> set (p_flushed s)"
  shows "wb_events b \<noteq> []
    \<and> wb_min_lsn b = Min (event_lsn ` set (wb_events b))
    \<and> wb_max_lsn b = Max (event_lsn ` set (wb_events b))
    \<and> wb_total_bytes b = (\<Sum>e\<leftarrow>wb_events b. estimated_size sz e)"
proof -
  have b: "batch_inv sz b" "wb_events b \<noteq> []"
    using event_queue.pipe_reach_inv [OF assms(1,2)] assms(3) by (auto simp: pipe_inv_def list_all_iff)
  then show ?thesis
    using batch_inv_range [OF b(1)] batch_inv_attained [OF b]
    by (auto simp: batch_inv_def intro!: Min_eqI [symmetric] Max_eqI [symmetric])
qed

theorem flushed_batch_metadata_witness:
  "\<exists>b. p_flushed demo_flushed = [b] \<and> wb_min_lsn b = Lsn 5 \<and> wb_max_lsn b = Lsn 5"
  using flushed_batch_metadata [OF list_eq.event_queue_axioms demo_flushed_reach]
  by (simp add: demo_flushed_def demo_start_def coordinator_new_def Let_def demo_event_def event_lsn_def)

text \<open>
  C15. The coordinator's drain returns: on any reachable pipeline outside of a drain it empties
  the ring, reports the number of events it moved, and appends them in order to the batch being
  filled; a forced flush then hands out every accepted event not handed out before.
\<close>

theorem drain_then_flush:
  assumes "event_queue Q items cap" and "pipe_reach Q sz s" and "p_draining s = None"
  shows "\<exists>pc'. drain_ring Q sz (p_coord s) = Some (length (items (rb_inner (pc_ring (p_coord s)))), pc')
    \<and> items (rb_inner (pc_ring pc')) = []
    \<and> p_accepted s = concat (map wb_events (p_flushed s)) @
        (case force_flush now pc' of (None, _) \<Rightarrow> [] | (Some b, _) \<Rightarrow> wb_events b)"
proof -
  have inv: "pipe_inv items cap sz s" by (rule event_queue.pipe_reach_inv [OF assms(1,2)])
  then have "ring_invar items cap (pc_ring (p_coord s))" by (simp add: pipe_inv_def)
  from event_queue.drain_ring_total [OF assms(1) this, of sz] inv show ?thesis
    by (auto simp: pipe_inv_def batched_def force_flush_def take_batch_def batch_is_empty_def)
qed

theorem drain_then_flush_witness:
  "\<exists>pc'. drain_ring list_queue 200 (p_coord demo_pushed) = Some (1, pc')
    \<and> snd (rb_inner (pc_ring pc')) = []
    \<and> [demo_event 5] = (case force_flush 9 pc' of (None, _) \<Rightarrow> [] | (Some b, _) \<Rightarrow> wb_events b)"
  using drain_then_flush [OF list_eq.event_queue_axioms demo_pushed_reach, of 9]
  by (simp add: demo_pushed_def)

text \<open>
  C27. The coordinator's fill ratio can be trusted. In every state the pipeline can reach, with a
  ring of at most 2^53 slots, it is a number from 0 to 1, never NaN or infinite; in spite of
  rounding it is 0 exactly when the ring is empty and 1 exactly when the ring is full.
\<close>

theorem ring_fill_ratio_exact:
  assumes "event_queue Q items cap" and "pipe_reach Q sz s" and "rb_capacity (pc_ring (p_coord s)) \<le> 2 ^ 53"
  shows "\<exists>r. ring_fill_ratio Q (p_coord s) = Fin r \<and> 0 \<le> r \<and> r \<le> 1
    \<and> (r = 0 \<longleftrightarrow> ring_is_empty Q (pc_ring (p_coord s))) \<and> (r = 1 \<longleftrightarrow> ring_is_full Q (pc_ring (p_coord s)))"
proof -
  have q: "array_queue Q items cap" using assms(1) by (rule event_queue.axioms)
  have "ring_invar items cap (pc_ring (p_coord s))"
    using event_queue.pipe_reach_inv [OF assms(1,2)] by (simp add: pipe_inv_def)
  from array_queue.fill_ratio_exact [OF q this event_queue.pipe_reach_capacity [OF assms(1,2)] assms(3)]
  show ?thesis unfolding ring_fill_ratio_def by metis
qed

theorem ring_fill_ratio_exact_witness:
  "\<exists>r. ring_fill_ratio list_queue (p_coord demo_pushed) = Fin r \<and> 0 < r \<and> r < 1"
proof -
  have "\<not> ring_is_empty list_queue (pc_ring (p_coord demo_pushed))" "\<not> ring_is_full list_queue (pc_ring (p_coord demo_pushed))"
    "rb_capacity (pc_ring (p_coord demo_pushed)) \<le> 2 ^ 53"
    by (simp_all add: demo_pushed_def ring_is_empty_def ring_is_full_def list_queue_def)
  then show ?thesis
    using ring_fill_ratio_exact [OF list_eq.event_queue_axioms demo_pushed_reach]
    by (metis order.not_eq_order_implies_strict)
qed

text \<open>
  No batch overstays the policy: when \<open>maybe_flush\<close> of a reachable pipeline hands out
  nothing, the batch being filled is empty, or it is below \<open>max_bytes\<close> and younger than
  \<open>max_age_us\<close>; when it hands out a batch, the next batch starts empty with a byte count of
  zero and the age of the batch starts again.
\<close>

theorem maybe_flush_policy:
  assumes "event_queue Q items cap" and "pipe_reach Q sz s"
    and "maybe_flush now now' (p_coord s) = (res, pc')"
  shows "case res of
      None \<Rightarrow> pc' = p_coord s \<and>
        (wb_events (pc_current_batch pc') = [] \<or>
         wb_total_bytes (pc_current_batch pc') < fp_max_bytes (pc_flush_policy pc') \<and>
         (wb_total_bytes (pc_current_batch pc') = 0 \<or>
          age_us now (pc_flush_policy pc') < fp_max_age_us (pc_flush_policy pc')))
    | Some b \<Rightarrow> b = pc_current_batch (p_coord s) \<and> pc_current_batch pc' = batch_new \<and>
        fp_current_bytes (pc_flush_policy pc') = 0 \<and> age_us now' (pc_flush_policy pc') = 0"
proof -
  have "fp_current_bytes (pc_flush_policy (p_coord s)) = wb_total_bytes (pc_current_batch (p_coord s))"
    using event_queue.pipe_reach_inv [OF assms(1,2)] by (simp add: pipe_inv_def)
  with assms(3) show ?thesis
    by (auto simp: maybe_flush_def take_batch_def should_flush_def batch_is_empty_def age_us_def
        word_gt_0 not_le split: if_splits)
qed

theorem maybe_flush_policy_witness:
  "fst (maybe_flush 5 6 (p_coord demo_drained)) = Some (pc_current_batch (p_coord demo_drained))
   \<and> pc_current_batch (snd (maybe_flush 5 6 (p_coord demo_drained))) = batch_new"
proof -
  have "maybe_flush 5 6 (p_coord demo_drained) = take_batch 6 (p_coord demo_drained)"
    by (simp add: demo_drained_def demo_pushed_def demo_start_def coordinator_new_def
        maybe_flush_def should_flush_def flush_new_def batch_is_empty_def demo_event_def estimated_size_def
        add_row_size_def)
  then show ?thesis
    using maybe_flush_policy [OF list_eq.event_queue_axioms demo_drained_reach, of 5 6]
    by (simp add: take_batch_def)
qed

end
