(* ===== verification/Proto.thy ===== *)
theory Proto
  imports Event
begin

text \<open>
  The binary event format of \<open>src/shared/src/serialize\<close>: \<open>encode_event\<close> and
  \<open>decode_event\<close> (\<open>proto.rs\<close>) and the at-rest \<open>StoredEvent\<close> (\<open>rkyv.rs\<close>). Decoding keeps
  the position the code keeps, and a slice or an index out of range is a panic.
\<close>

definition op_to_byte :: "OpType \<Rightarrow> u8" where
  "op_to_byte op = byte_of (case op of
      Insert \<Rightarrow> CHR ''I'' | Update \<Rightarrow> CHR ''U'' | Delete \<Rightarrow> CHR ''D'' | Truncate \<Rightarrow> CHR ''T'')"

definition byte_to_op :: "u8 \<Rightarrow> OpType option" where
  "byte_to_op b =
     (if b = byte_of (CHR ''I'') then Some Insert
      else if b = byte_of (CHR ''U'') then Some Update
      else if b = byte_of (CHR ''D'') then Some Delete
      else if b = byte_of (CHR ''T'') then Some Truncate
      else None)"

subsection \<open>Encoding\<close>

text \<open>A length cast to \<open>u16\<close> or \<open>u32\<close> keeps the low bits only.\<close>

definition encode_col :: "bytes \<Rightarrow> ColumnValue \<Rightarrow> bytes" where
  "encode_col buf col =
     buf @ to_be_bytes (of_nat (length (cv_name col)) :: u16) @ as_bytes (cv_name col)
         @ to_be_bytes (cv_type_oid col)
         @ (case cv_value col of
              None \<Rightarrow> [0]
            | Some v \<Rightarrow> [1] @ to_be_bytes (of_nat (length v) :: u32) @ as_bytes v)"

definition encode_row_data :: "bytes \<Rightarrow> RowData option \<Rightarrow> bytes" where
  "encode_row_data buf row =
     (case row of
        None \<Rightarrow> buf @ [0]
      | Some row \<Rightarrow>
          foldl encode_col
            (buf @ [1] @ to_be_bytes (of_nat (length (columns row)) :: u16)) (columns row))"

definition encode_event :: "ChangeEvent \<Rightarrow> bytes" where
  "encode_event event =
     (let buf = to_be_bytes (ev_lsn event) @ to_be_bytes (ev_xid event)
            @ [op_to_byte (ev_op event)]
            @ to_be_bytes (of_nat (length (tid_schema (ev_table event))) :: u16)
            @ as_bytes (tid_schema (ev_table event))
            @ to_be_bytes (of_nat (length (tid_table (ev_table event))) :: u16)
            @ as_bytes (tid_table (ev_table event))
            @ to_be_bytes (ev_schema_fingerprint event)
            @ to_be_bytes (ev_commit_timestamp_us event);
          buf = encode_row_data buf (ev_after event)
      in encode_row_data buf (ev_before event))"

subsection \<open>Decoding\<close>

definition read_be :: "string \<Rightarrow> nat \<Rightarrow> bytes \<Rightarrow> nat \<Rightarrow> ('a::len word \<times> nat, string) rresult" where
  "read_be what n data pos =
     and_then (subslice data pos (pos + n)) (\<lambda>bs.
     and_then (try_into n what bs) (\<lambda>bs.
     Ok (from_be_bytes bs, pos + n)))"

definition read_utf8 :: "string \<Rightarrow> nat \<Rightarrow> bytes \<Rightarrow> nat \<Rightarrow> (string \<times> nat, string) rresult" where
  "read_utf8 what n data pos =
     and_then (subslice data pos (pos + n)) (\<lambda>bs.
     and_then (from_utf8 what bs) (\<lambda>s.
     Ok (s, pos + n)))"

definition decode_col :: "bytes \<Rightarrow> nat \<Rightarrow> (ColumnValue \<times> nat, string) rresult" where
  "decode_col data pos =
     and_then (read_be ''name_len'' 2 data pos) (\<lambda>(name_len :: u16, pos).
     and_then (read_utf8 ''invalid utf8 in col name'' (unat name_len) data pos) (\<lambda>(name, pos).
     and_then (read_be ''type_oid'' 4 data pos) (\<lambda>(type_oid :: u32, pos).
     and_then (index data pos) (\<lambda>val_flag.
     let pos = pos + 1 in
     if val_flag = 0 then
       Ok (\<lparr>cv_name = name, cv_type_oid = type_oid, cv_value = None\<rparr>, pos)
     else
       and_then (read_be ''val_len'' 4 data pos) (\<lambda>(val_len :: u32, pos).
       and_then (read_utf8 ''invalid utf8 in col value'' (unat val_len) data pos) (\<lambda>(v, pos).
       Ok (\<lparr>cv_name = name, cv_type_oid = type_oid, cv_value = Some v\<rparr>, pos)))))))"

fun decode_cols :: "nat \<Rightarrow> bytes \<Rightarrow> nat \<Rightarrow> (ColumnValue list \<times> nat, string) rresult" where
  "decode_cols 0 data pos = Ok ([], pos)"
| "decode_cols (Suc n) data pos =
     and_then (decode_col data pos) (\<lambda>(c, pos).
     and_then (decode_cols n data pos) (\<lambda>(cs, pos).
     Ok (c # cs, pos)))"

definition decode_row_data :: "bytes \<Rightarrow> nat \<Rightarrow> (RowData option \<times> nat, string) rresult" where
  "decode_row_data data pos =
     (if pos \<ge> length data then Ok (None, pos)
      else
        and_then (index data pos) (\<lambda>flag.
        let pos = pos + 1 in
        if flag = 0 then Ok (None, pos)
        else
          and_then (read_be ''col_count'' 2 data pos) (\<lambda>(col_count :: u16, pos).
          and_then (decode_cols (unat col_count) data pos) (\<lambda>(cs, pos).
          Ok (Some \<lparr>columns = cs\<rparr>, pos)))))"

definition decode_event :: "bytes \<Rightarrow> (ChangeEvent, string) rresult" where
  "decode_event data =
     (if length data < 8 + 4 + 1 + 2 then Err ''buffer too short for event header''
      else
        and_then (read_be ''lsn'' 8 data 0) (\<lambda>(lsn :: u64, pos).
        and_then (read_be ''xid'' 4 data pos) (\<lambda>(xid :: u32, pos).
        and_then (index data pos) (\<lambda>b.
        and_then (ok_or (byte_to_op b) ''unknown op byte'') (\<lambda>op.
        let pos = pos + 1 in
        and_then (read_be ''schema_len'' 2 data pos) (\<lambda>(schema_len :: u16, pos).
        and_then (read_utf8 ''invalid utf8 in schema'' (unat schema_len) data pos) (\<lambda>(schema, pos).
        and_then (read_be ''table_len'' 2 data pos) (\<lambda>(table_len :: u16, pos).
        and_then (read_utf8 ''invalid utf8 in table'' (unat table_len) data pos) (\<lambda>(table, pos).
        and_then (read_be ''fingerprint'' 8 data pos) (\<lambda>(schema_fingerprint :: u64, pos).
        and_then (read_be ''timestamp'' 8 data pos) (\<lambda>(commit_timestamp_us :: i64, pos).
        and_then (decode_row_data data pos) (\<lambda>(after, pos).
        and_then (decode_row_data data pos) (\<lambda>(before, _).
        Ok \<lparr>ev_lsn = lsn, ev_xid = xid, ev_op = op,
            ev_table = \<lparr>tid_schema = schema, tid_table = table\<rparr>,
            ev_schema_fingerprint = schema_fingerprint,
            ev_after = after, ev_before = before,
            ev_commit_timestamp_us = commit_timestamp_us\<rparr>)))))))))))))"

subsection \<open>The at-rest event\<close>

record StoredEvent =
  se_lsn :: u64
  se_xid :: u32
  se_op :: u8
  se_schema :: string
  se_table :: string
  se_schema_fingerprint :: u64
  se_commit_timestamp_us :: i64
  se_payload :: bytes

definition op_to_u8 :: "OpType \<Rightarrow> u8" where
  "op_to_u8 op = (case op of Insert \<Rightarrow> 1 | Update \<Rightarrow> 2 | Delete \<Rightarrow> 3 | Truncate \<Rightarrow> 4)"

definition from_event :: "ChangeEvent \<Rightarrow> StoredEvent" where
  "from_event event =
     \<lparr>se_lsn = ev_lsn event, se_xid = ev_xid event, se_op = op_to_u8 (ev_op event),
      se_schema = tid_schema (ev_table event), se_table = tid_table (ev_table event),
      se_schema_fingerprint = ev_schema_fingerprint event,
      se_commit_timestamp_us = ev_commit_timestamp_us event,
      se_payload = encode_event event\<rparr>"

subsection \<open>Events the format can carry\<close>

text \<open>
  \<open>wire_ok\<close>: every string is valid UTF-8 (the invariant of \<open>String\<close>), names and the number of
  columns fit in 16 bits and values in 32.
\<close>

definition wire_col :: "ColumnValue \<Rightarrow> bool" where
  "wire_col c \<longleftrightarrow> wf_str (cv_name c) \<and> length (cv_name c) < 2 ^ 16 \<and>
     (case cv_value c of None \<Rightarrow> True | Some v \<Rightarrow> wf_str v \<and> length v < 2 ^ 32)"

definition wire_row :: "RowData option \<Rightarrow> bool" where
  "wire_row r = (case r of None \<Rightarrow> True
     | Some row \<Rightarrow> length (columns row) < 2 ^ 16 \<and> list_all wire_col (columns row))"

definition wire_ok :: "ChangeEvent \<Rightarrow> bool" where
  "wire_ok e \<longleftrightarrow>
     wf_str (tid_schema (ev_table e)) \<and> length (tid_schema (ev_table e)) < 2 ^ 16 \<and>
     wf_str (tid_table (ev_table e)) \<and> length (tid_table (ev_table e)) < 2 ^ 16 \<and>
     wire_row (ev_after e) \<and> wire_row (ev_before e)"

subsection \<open>Reading back what was written\<close>

lemma byte_to_op_op_to_byte [simp]: "byte_to_op (op_to_byte op) = Some op"
  by (cases op) (simp_all add: byte_to_op_def op_to_byte_def)

lemma read_be_Ok:
  assumes "suffix_at data pos (to_be_bytes (w :: 'a::len word) @ r)"
    and "8 * n = LENGTH('a)"
  shows "read_be what n data pos = Ok (w, pos + n)"
proof -
  have len: "length (to_be_bytes w) = n" using assms(2) by (simp flip: assms(2))
  have "8 dvd LENGTH('a)" by (simp flip: assms(2))
  moreover have "(subslice data pos (pos + n) :: (bytes, string) rresult) = Ok (to_be_bytes w)"
    by (rule suffix_at_subslice [OF assms(1) len])
  ultimately show ?thesis using len
    by (simp add: read_be_def try_into_def from_to_be_bytes del: length_to_be_bytes)
qed

lemma read_utf8_Ok:
  assumes "suffix_at data pos (as_bytes s @ r)" and "wf_str s" and "length s = n"
  shows "read_utf8 what n data pos = Ok (s, pos + n)"
proof -
  have "(subslice data pos (pos + n) :: (bytes, string) rresult) = Ok (as_bytes s)"
    using assms(3) by (intro suffix_at_subslice [OF assms(1)]) simp
  with assms(2) show ?thesis by (simp add: read_utf8_def)
qed

lemma encode_col_buf: "encode_col buf c = buf @ encode_col [] c"
  by (simp add: encode_col_def)

lemma foldl_encode_col: "foldl encode_col buf cs = buf @ concat (map (encode_col []) cs)"
proof (induction cs arbitrary: buf)
  case (Cons c cs)
  then show ?case by (simp add: encode_col_buf [of buf])
qed simp

lemma encode_row_data_buf: "encode_row_data buf r = buf @ encode_row_data [] r"
  by (simp add: encode_row_data_def foldl_encode_col split: option.split)

lemma decode_col_encode:
  assumes "wire_col c" and "suffix_at data pos (encode_col [] c @ r)"
  shows "decode_col data pos = Ok (c, pos + length (encode_col [] c))"
proof -
  let ?n = "of_nat (length (cv_name c)) :: u16"
  let ?val = "case cv_value c of None \<Rightarrow> [0]
      | Some v \<Rightarrow> [1] @ to_be_bytes (of_nat (length v) :: u32) @ as_bytes v"
  have n: "unat ?n = length (cv_name c)" and wf: "wf_str (cv_name c)"
    using assms(1) by (simp_all add: wire_col_def unat_of_nat_len)
  have s0: "suffix_at data pos (to_be_bytes ?n @ as_bytes (cv_name c)
      @ to_be_bytes (cv_type_oid c) @ ?val @ r)"
    using assms(2) by (simp add: encode_col_def)
  have s1: "suffix_at data (pos + 2)
      (as_bytes (cv_name c) @ to_be_bytes (cv_type_oid c) @ ?val @ r)"
    by (rule suffix_at_add [OF s0]) simp
  have s2: "suffix_at data (pos + 2 + length (cv_name c)) (to_be_bytes (cv_type_oid c) @ ?val @ r)"
    by (rule suffix_at_add [OF s1]) simp
  have s3: "suffix_at data (pos + 2 + length (cv_name c) + 4) (?val @ r)"
    by (rule suffix_at_add [OF s2]) simp
  have r1: "read_be w 2 data pos = Ok (?n, pos + 2)" for w by (rule read_be_Ok [OF s0]) simp
  have r2: "read_utf8 w (length (cv_name c)) data (pos + 2)
      = Ok (cv_name c, pos + 2 + length (cv_name c))" for w
    by (rule read_utf8_Ok [OF s1 wf]) simp
  have r3: "read_be w 4 data (pos + 2 + length (cv_name c))
      = Ok (cv_type_oid c, pos + 2 + length (cv_name c) + 4)" for w
    by (rule read_be_Ok [OF s2]) simp
  show ?thesis
  proof (cases "cv_value c")
    case None
    then have "(index data (pos + 2 + length (cv_name c) + 4) :: (u8, string) rresult) = Ok 0"
      using s3 by (simp add: suffix_at_index)
    with None r1 r2 r3 n show ?thesis
      by (simp add: decode_col_def encode_col_def)
  next
    case (Some v)
    let ?p = "pos + 2 + length (cv_name c) + 4"
    let ?m = "of_nat (length v) :: u32"
    have v: "wf_str v" "unat ?m = length v"
      using assms(1) Some by (simp_all add: wire_col_def unat_of_nat_len)
    have s3': "suffix_at data ?p (1 # to_be_bytes ?m @ as_bytes v @ r)"
      using s3 Some by simp
    note s4 = suffix_at_Cons [OF s3']
    have s5: "suffix_at data (?p + 1 + 4) (as_bytes v @ r)"
      by (rule suffix_at_add [OF s4]) simp
    have "(index data ?p :: (u8, string) rresult) = Ok 1" using s3' by (rule suffix_at_index)
    moreover have "read_be w 4 data (?p + 1) = Ok (?m, ?p + 1 + 4)" for w
      by (rule read_be_Ok [OF s4]) simp
    moreover have "read_utf8 w (length v) data (?p + 1 + 4) = Ok (v, ?p + 1 + 4 + length v)" for w
      by (rule read_utf8_Ok [OF s5 v(1)]) simp
    ultimately show ?thesis using Some r1 r2 r3 n v(2)
      by (simp add: decode_col_def encode_col_def)
  qed
qed

lemma decode_cols_encode:
  assumes "list_all wire_col cs" and "suffix_at data pos (concat (map (encode_col []) cs) @ r)"
  shows "decode_cols (length cs) data pos
           = Ok (cs, pos + length (concat (map (encode_col []) cs)))"
  using assms
proof (induction cs arbitrary: pos)
  case (Cons c cs)
  have s0: "suffix_at data pos (encode_col [] c @ concat (map (encode_col []) cs) @ r)"
    using Cons.prems(2) by simp
  have "decode_col data pos = Ok (c, pos + length (encode_col [] c))"
    using Cons.prems(1) s0 by (simp add: decode_col_encode)
  moreover have "suffix_at data (pos + length (encode_col [] c)) (concat (map (encode_col []) cs) @ r)"
    by (rule suffix_at_add [OF s0 refl])
  ultimately show ?case using Cons.IH Cons.prems(1) by simp
qed simp

lemma decode_row_data_encode:
  assumes "wire_row row" and "suffix_at data pos (encode_row_data [] row @ r)"
  shows "decode_row_data data pos = Ok (row, pos + length (encode_row_data [] row))"
proof (cases row)
  case None
  then have s0: "suffix_at data pos (0 # r)" using assms(2) by (simp add: encode_row_data_def)
  have "(index data pos :: (u8, string) rresult) = Ok 0" using s0 by (rule suffix_at_index)
  moreover have "pos < length data" using suffix_at_length [OF s0] by simp
  ultimately show ?thesis using None by (simp add: decode_row_data_def encode_row_data_def)
next
  case (Some rw)
  let ?n = "of_nat (length (columns rw)) :: u16"
  have n: "unat ?n = length (columns rw)" and cs: "list_all wire_col (columns rw)"
    using assms(1) Some by (simp_all add: wire_row_def unat_of_nat_len)
  have s0: "suffix_at data pos (1 # to_be_bytes ?n @ concat (map (encode_col []) (columns rw)) @ r)"
    using assms(2) Some by (simp add: encode_row_data_def foldl_encode_col)
  note s1 = suffix_at_Cons [OF s0]
  have s2: "suffix_at data (pos + 1 + 2) (concat (map (encode_col []) (columns rw)) @ r)"
    by (rule suffix_at_add [OF s1]) simp
  have "(index data pos :: (u8, string) rresult) = Ok 1" using s0 by (rule suffix_at_index)
  moreover have "pos < length data" using suffix_at_length [OF s0] by simp
  moreover have "read_be w 2 data (pos + 1) = Ok (?n, pos + 1 + 2)" for w
    by (rule read_be_Ok [OF s1]) simp
  moreover note decode_cols_encode [OF cs s2]
  ultimately show ?thesis using Some n
    by (simp add: decode_row_data_def encode_row_data_def foldl_encode_col)
qed

lemma encode_event_layout:
  "encode_event e =
     to_be_bytes (ev_lsn e) @ to_be_bytes (ev_xid e) @ [op_to_byte (ev_op e)]
     @ to_be_bytes (of_nat (length (tid_schema (ev_table e))) :: u16) @ as_bytes (tid_schema (ev_table e))
     @ to_be_bytes (of_nat (length (tid_table (ev_table e))) :: u16) @ as_bytes (tid_table (ev_table e))
     @ to_be_bytes (ev_schema_fingerprint e) @ to_be_bytes (ev_commit_timestamp_us e)
     @ encode_row_data [] (ev_after e) @ encode_row_data [] (ev_before e)"
  by (simp add: encode_event_def Let_def encode_row_data_buf [of "encode_row_data _ _"]
        encode_row_data_buf [of "to_be_bytes _ @ _"])

lemma encode_event_cursor:
  assumes s0: "suffix_at data 0 (encode_event e @ r)"
  defines "sc \<equiv> tid_schema (ev_table e)" and "tb \<equiv> tid_table (ev_table e)"
    and "p5 \<equiv> 15 + length (tid_schema (ev_table e))"
    and "p7 \<equiv> 15 + length (tid_schema (ev_table e)) + 2 + length (tid_table (ev_table e))"
  shows "\<exists>t1 t2 t3 t4 t5 t6 t7 t8 rows.
      suffix_at data 0 (to_be_bytes (ev_lsn e) @ t1) \<and> suffix_at data 8 (to_be_bytes (ev_xid e) @ t2) \<and>
      suffix_at data 12 (op_to_byte (ev_op e) # t3) \<and>
      suffix_at data 13 (to_be_bytes (of_nat (length sc) :: u16) @ t4) \<and>
      suffix_at data 15 (as_bytes sc @ t5) \<and>
      suffix_at data p5 (to_be_bytes (of_nat (length tb) :: u16) @ t6) \<and>
      suffix_at data (p5 + 2) (as_bytes tb @ t7) \<and>
      suffix_at data p7 (to_be_bytes (ev_schema_fingerprint e) @ t8) \<and>
      suffix_at data (p7 + 8) (to_be_bytes (ev_commit_timestamp_us e) @ rows) \<and>
      suffix_at data (p7 + 8 + 8) rows \<and>
      rows = encode_row_data [] (ev_after e) @ encode_row_data [] (ev_before e) @ r"
proof -
  let ?rows = "encode_row_data [] (ev_after e) @ encode_row_data [] (ev_before e) @ r"
  let ?tail = "to_be_bytes (ev_schema_fingerprint e) @ to_be_bytes (ev_commit_timestamp_us e) @ ?rows"
  let ?n = "of_nat (length sc) :: u16" and ?m = "of_nat (length tb) :: u16"
  have s0: "suffix_at data 0 (to_be_bytes (ev_lsn e) @ to_be_bytes (ev_xid e)
      @ op_to_byte (ev_op e) # to_be_bytes ?n @ as_bytes sc @ to_be_bytes ?m @ as_bytes tb @ ?tail)"
    using s0 by (simp add: encode_event_layout sc_def tb_def)
  note s1 = suffix_at_add [OF s0, of 8, simplified]
  note s2 = suffix_at_add [OF s1, of 4, simplified]
  note s3 = suffix_at_add [of data 12 "[_]" _ 1, simplified, OF s2]
  note s4 = suffix_at_add [OF s3, of 2, simplified]
  have s5: "suffix_at data p5 (to_be_bytes ?m @ as_bytes tb @ ?tail)"
    unfolding p5_def by (rule suffix_at_add [OF s4]) (simp add: sc_def)
  have s6: "suffix_at data (p5 + 2) (as_bytes tb @ ?tail)"
    by (rule suffix_at_add [OF s5]) simp
  have s7: "suffix_at data p7 ?tail"
    unfolding p7_def by (rule suffix_at_add [OF s6 [unfolded p5_def]]) (simp add: tb_def)
  have s8: "suffix_at data (p7 + 8) (to_be_bytes (ev_commit_timestamp_us e) @ ?rows)"
    by (rule suffix_at_add [OF s7]) simp
  have s9: "suffix_at data (p7 + 8 + 8) ?rows" by (rule suffix_at_add [OF s8]) simp
  show ?thesis using s0 s1 s2 s3 s4 s5 s6 s7 s8 s9 by blast
qed

lemma decode_encode_event:
  assumes ok: "wire_ok e" and s0: "suffix_at data 0 (encode_event e @ r)"
  shows "decode_event data = Ok e"
proof -
  let ?sc = "tid_schema (ev_table e)" and ?tb = "tid_table (ev_table e)"
  let ?n = "of_nat (length ?sc) :: u16" and ?m = "of_nat (length ?tb) :: u16"
  let ?p5 = "15 + length ?sc"
  let ?p7 = "?p5 + 2 + length ?tb"
  have n: "unat ?n = length ?sc" "unat ?m = length ?tb" and wf: "wf_str ?sc" "wf_str ?tb"
    and rows: "wire_row (ev_after e)" "wire_row (ev_before e)"
    using ok by (simp_all add: wire_ok_def unat_of_nat_len)
  obtain t1 t2 t3 t4 t5 t6 t7 t8 rest where s:
    "suffix_at data 0 (to_be_bytes (ev_lsn e) @ t1)" "suffix_at data 8 (to_be_bytes (ev_xid e) @ t2)"
    "suffix_at data 12 (op_to_byte (ev_op e) # t3)" "suffix_at data 13 (to_be_bytes ?n @ t4)"
    "suffix_at data 15 (as_bytes ?sc @ t5)" "suffix_at data ?p5 (to_be_bytes ?m @ t6)"
    "suffix_at data (?p5 + 2) (as_bytes ?tb @ t7)"
    "suffix_at data ?p7 (to_be_bytes (ev_schema_fingerprint e) @ t8)"
    "suffix_at data (?p7 + 8) (to_be_bytes (ev_commit_timestamp_us e) @ rest)"
    "suffix_at data (?p7 + 8 + 8) (encode_row_data [] (ev_after e) @ encode_row_data [] (ev_before e) @ r)"
    using encode_event_cursor [OF s0] by blast
  have len: "\<not> length data < 15" using suffix_at_length [OF s(4)] by simp
  have reads:
    "read_be w 8 data 0 = Ok (ev_lsn e, 8)" "read_be w 4 data 8 = Ok (ev_xid e, 12)"
    "read_be w 2 data 13 = Ok (?n, 15)" "read_utf8 w (length ?sc) data 15 = Ok (?sc, ?p5)"
    "read_be w 2 data ?p5 = Ok (?m, ?p5 + 2)" "read_utf8 w (length ?tb) data (?p5 + 2) = Ok (?tb, ?p7)"
    "read_be w 8 data ?p7 = Ok (ev_schema_fingerprint e, ?p7 + 8)"
    "read_be w 8 data (?p7 + 8) = Ok (ev_commit_timestamp_us e, ?p7 + 8 + 8)" for w
    using read_be_Ok [OF s(1), of 8 w] read_be_Ok [OF s(2), of 4 w] read_be_Ok [OF s(4), of 2 w]
      read_utf8_Ok [OF s(5) wf(1) refl, of w] read_be_Ok [OF s(6), of 2 w]
      read_utf8_Ok [OF s(7) wf(2) refl, of w] read_be_Ok [OF s(8), of 8 w] read_be_Ok [OF s(9), of 8 w]
    by simp_all
  have "(index data 12 :: (u8, string) rresult) = Ok (op_to_byte (ev_op e))"
    using s(3) by (rule suffix_at_index)
  then show ?thesis
    using len reads n decode_row_data_encode [OF rows(1) s(10)]
      decode_row_data_encode [OF rows(2) suffix_at_add [OF s(10) refl]]
    by (simp add: decode_event_def)
qed

subsection \<open>What decoding can return\<close>

lemma read_utf8_wf: "read_utf8 what n data pos = Ok (s, p) \<Longrightarrow> wf_str s \<and> length s = n"
  by (auto simp: read_utf8_def and_then_Ok_iff dest!: from_utf8_Ok subslice_length)

lemma unat_u16_bound: "unat (w :: u16) < 2 ^ 16" and unat_u32_bound: "unat (w' :: u32) < 2 ^ 32"
  using unat_u16_less unat_u32_less by simp_all

lemma decode_col_wire: "decode_col data pos = Ok (c, p) \<Longrightarrow> wire_col c"
  by (auto simp: decode_col_def and_then_Ok_iff wire_col_def Let_def unat_u16_less unat_u32_less
      dest!: read_utf8_wf split: if_splits)

lemma decode_cols_wire:
  "decode_cols n data pos = Ok (cs, p) \<Longrightarrow> length cs = n \<and> list_all wire_col cs"
proof (induction n arbitrary: pos cs p)
  case (Suc n)
  then show ?case by (fastforce simp: and_then_Ok_iff dest: decode_col_wire)
qed simp

lemma decode_row_data_wire: "decode_row_data data pos = Ok (r, p) \<Longrightarrow> wire_row r"
  by (auto simp: decode_row_data_def and_then_Ok_iff wire_row_def Let_def unat_u16_less
      dest!: decode_cols_wire split: if_splits)

lemma decode_event_wire: "decode_event data = Ok e \<Longrightarrow> wire_ok e"
  by (auto simp: decode_event_def and_then_Ok_iff wire_ok_def Let_def unat_u16_less
      dest!: read_utf8_wf decode_row_data_wire split: if_splits)

subsection \<open>Properties\<close>

text \<open>The event of the unit test \<open>roundtrip_encode_decode\<close>.\<close>

definition sample_event :: ChangeEvent where
  "sample_event =
     \<lparr>ev_lsn = 123456, ev_xid = 42, ev_op = Insert,
      ev_table = \<lparr>tid_schema = ''public'', tid_table = ''orders''\<rparr>,
      ev_schema_fingerprint = 0xdeadbeef,
      ev_after = Some \<lparr>columns =
        [\<lparr>cv_name = ''id'', cv_type_oid = 23, cv_value = Some ''1''\<rparr>,
         \<lparr>cv_name = ''status'', cv_type_oid = 25, cv_value = Some ''pending''\<rparr>]\<rparr>,
      ev_before = None, ev_commit_timestamp_us = 1700000000000000\<rparr>"

lemma wire_ok_sample: "wire_ok sample_event"
  by (simp add: sample_event_def wire_ok_def wire_row_def wire_col_def wf_str_ascii is_ascii_def)

text \<open>
  C5. An event comes back from \<open>decode_event\<close> of its \<open>encode_event\<close> bytes exactly when the
  format can carry it (\<open>wire_ok\<close>: valid UTF-8, names and column counts below 2^16, values
  below 2^32), and bytes that follow the encoding do not matter. Outside that range the
  16-bit and 32-bit length casts lose the high bits and the event is not recovered.
\<close>

theorem decode_event_encode_event_iff:
  "decode_event (encode_event e @ rest) = Ok e \<longleftrightarrow> wire_ok e"
  using decode_event_wire decode_encode_event [of e "encode_event e @ rest" rest] by blast

text \<open>
  \<open>decode_event\<close> reports a buffer of fewer than fifteen bytes as an error, but past that
  check it panics when the declared schema length runs past the end of the buffer, instead
  of returning the \<open>Err\<close> its signature offers.
\<close>

theorem decode_event_truncated:
  "(length data < 15 \<longrightarrow> decode_event data = Err ''buffer too short for event header'') \<and>
   (15 \<le> length data \<and> byte_to_op (data ! 12) \<noteq> None
      \<and> length data < 15 + unat (from_be_bytes (take 2 (drop 13 data)) :: u16)
    \<longrightarrow> decode_event data = Panic)"
proof (intro conjI impI)
  assume "length data < 15"
  then show "decode_event data = Err ''buffer too short for event header''"
    by (simp add: decode_event_def)
next
  assume a: "15 \<le> length data \<and> byte_to_op (data ! 12) \<noteq> None
      \<and> length data < 15 + unat (from_be_bytes (take 2 (drop 13 data)) :: u16)"
  then obtain op where op: "byte_to_op (data ! 12) = Some op" by auto
  have rb: "read_be w n data p = Ok (from_be_bytes (take n (drop p data)), p + n)"
    if "p + n \<le> length data" for w n p
    using that by (simp add: read_be_def subslice_def try_into_def)
  have "read_utf8 w (unat (from_be_bytes (take 2 (drop 13 data)) :: u16)) data 15 = Panic" for w
    using a by (simp add: read_utf8_def subslice_def)
  with a op show "decode_event data = Panic"
    by (simp add: decode_event_def index_def rb)
qed

theorem decode_event_truncated_witness:
  "decode_event [1, 2] = Err ''buffer too short for event header'' \<and>
   decode_event (replicate 12 0 @ [op_to_byte Insert, 0, 200]) = Panic"
proof -
  have "byte_to_op ((replicate 12 0 @ [op_to_byte Insert, 0, 200]) ! 12) \<noteq> None"
    by (simp add: nth_append)
  moreover have "unat (from_be_bytes (take 2 (drop 13 (replicate 12 0 @ [op_to_byte Insert, 0, 200]))) :: u16) = 200"
    by (simp add: from_be_bytes_def nat_of_be_def)
  ultimately show ?thesis
    using decode_event_truncated [of "[1, 2]"]
      decode_event_truncated [of "replicate 12 0 @ [op_to_byte Insert, 0, 200]"] by simp
qed

text \<open>
  The at-rest event keeps the fields of the event it was made from and its payload
  decodes to that event; the numeric tag identifies the operation.
\<close>

theorem from_event_payload:
  assumes "wire_ok e"
  shows "decode_event (se_payload (from_event e)) = Ok e \<and>
     se_lsn (from_event e) = ev_lsn e \<and> se_xid (from_event e) = ev_xid e \<and>
     \<lparr>tid_schema = se_schema (from_event e), tid_table = se_table (from_event e)\<rparr> = ev_table e \<and>
     (op_to_u8 op = se_op (from_event e) \<longleftrightarrow> op = ev_op e)"
  using decode_encode_event [OF assms, of "encode_event e" "[]"]
  by (cases op; cases "ev_op e") (simp_all add: from_event_def op_to_u8_def)

theorem from_event_payload_witness:
  "wire_ok sample_event \<and> decode_event (se_payload (from_event sample_event)) = Ok sample_event"
  using from_event_payload [OF wire_ok_sample] wire_ok_sample by blast

end
