(* ===== verification/Offsets.thy ===== *)
theory Offsets
  imports Containers Nendi_Error
begin

text \<open>
  Consumer offsets and the garbage-collection watermark: \<open>src/core/src/offset/registry.rs\<close>,
  \<open>src/core/src/offset/manager.rs\<close>, \<open>src/core/src/storage/gc/watermark.rs\<close> and
  \<open>src/core/src/storage/gc/scheduler.rs\<close>, over the parameter \<open>D\<close> for the \<open>DashMap\<close> from
  consumer to LSN. The abstract view of both maps is the function \<open>dm_get D\<close>.
\<close>

type_synonym 'm offset_dm = "('m, string, lsn) dashmap_ops"

subsection \<open>The offset registry\<close>

record 'm OffsetRegistry =
  offsets :: 'm

definition registry_new :: "'m offset_dm \<Rightarrow> 'm OffsetRegistry" where
  "registry_new D = \<lparr>offsets = dm_new D\<rparr>"

definition registry_get :: "'m offset_dm \<Rightarrow> 'm OffsetRegistry \<Rightarrow> string \<Rightarrow> lsn option" where
  "registry_get D r consumer_id = dm_get D (offsets r) consumer_id"

text \<open>
  \<open>commit\<close> reads the current offset and then inserts, two separate accesses to the map:
  \<open>commit_check\<close> is the first, \<open>commit_insert\<close> the second.
\<close>

definition commit_check ::
    "'m offset_dm \<Rightarrow> 'm OffsetRegistry \<Rightarrow> string \<Rightarrow> lsn \<Rightarrow> (unit, NendiError) rresult" where
  "commit_check D r consumer_id lsn =
     (case registry_get D r consumer_id of
        Some current \<Rightarrow>
          if is_ahead_of current lsn
          then Err (OffsetRegression consumer_id (get lsn) (get current))
          else Ok ()
      | None \<Rightarrow> Ok ())"

definition commit_insert :: "'m offset_dm \<Rightarrow> 'm OffsetRegistry \<Rightarrow> string \<Rightarrow> lsn \<Rightarrow> 'm OffsetRegistry" where
  "commit_insert D r consumer_id lsn = r\<lparr>offsets := dm_insert D (offsets r) consumer_id lsn\<rparr>"

definition registry_commit ::
    "'m offset_dm \<Rightarrow> 'm OffsetRegistry \<Rightarrow> string \<Rightarrow> lsn \<Rightarrow> (unit, NendiError) rresult \<times> 'm OffsetRegistry" where
  "registry_commit D r consumer_id lsn =
     (case commit_check D r consumer_id lsn of
        Ok _ \<Rightarrow> (Ok (), commit_insert D r consumer_id lsn)
      | e \<Rightarrow> (e, r))"

definition registry_remove :: "'m offset_dm \<Rightarrow> 'm OffsetRegistry \<Rightarrow> string \<Rightarrow> 'm OffsetRegistry" where
  "registry_remove D r consumer_id = r\<lparr>offsets := dm_remove D (offsets r) consumer_id\<rparr>"

definition min_offset :: "'m offset_dm \<Rightarrow> 'm OffsetRegistry \<Rightarrow> lsn" where
  "min_offset D r =
     (let m = fold (\<lambda>(_, v) m. if v < m then v else m) (dm_iter D (offsets r)) lsn_max
      in if m = lsn_max then lsn_zero else m)"

definition consumer_ids :: "'m offset_dm \<Rightarrow> 'm OffsetRegistry \<Rightarrow> string list" where
  "consumer_ids D r = map fst (dm_iter D (offsets r))"

definition registry_len :: "'m offset_dm \<Rightarrow> 'm OffsetRegistry \<Rightarrow> nat" where
  "registry_len D r = dm_len D (offsets r)"

subsection \<open>The offset manager\<close>

record 'm OffsetManager =
  registry :: "'m OffsetRegistry"

definition manager_new :: "'m offset_dm \<Rightarrow> 'm OffsetManager" where
  "manager_new D = \<lparr>registry = registry_new D\<rparr>"

definition manager_commit ::
    "'m offset_dm \<Rightarrow> 'm OffsetManager \<Rightarrow> string \<Rightarrow> lsn \<Rightarrow> (unit, NendiError) rresult \<times> 'm OffsetManager" where
  "manager_commit D m consumer_id lsn =
     (case registry_commit D (registry m) consumer_id lsn of
        (Ok _, r) \<Rightarrow> (Ok (), m\<lparr>registry := r\<rparr>)
      | (e, r) \<Rightarrow> (e, m\<lparr>registry := r\<rparr>))"

definition resume_lsn :: "'m offset_dm \<Rightarrow> 'm OffsetManager \<Rightarrow> string \<Rightarrow> lsn" where
  "resume_lsn D m consumer_id =
     (case map_option (\<lambda>lsn. lsn_saturating_add lsn 1) (registry_get D (registry m) consumer_id) of
        Some lsn \<Rightarrow> lsn
      | None \<Rightarrow> lsn_zero)"

definition manager_watermark :: "'m offset_dm \<Rightarrow> 'm OffsetManager \<Rightarrow> lsn" where
  "manager_watermark D m = min_offset D (registry m)"

text \<open>\<open>register_consumer\<close> only logs: it leaves the registry as it is.\<close>

definition register_consumer :: "'m offset_dm \<Rightarrow> 'm OffsetManager \<Rightarrow> string \<Rightarrow> 'm OffsetManager" where
  "register_consumer D m consumer_id =
     (if registry_get D (registry m) consumer_id = None then m else m)"

definition unregister_consumer :: "'m offset_dm \<Rightarrow> 'm OffsetManager \<Rightarrow> string \<Rightarrow> 'm OffsetManager" where
  "unregister_consumer D m consumer_id = m\<lparr>registry := registry_remove D (registry m) consumer_id\<rparr>"

subsection \<open>The watermark tracker and the GC scheduler\<close>

record 'm WatermarkTracker =
  consumers :: 'm

definition tracker_new :: "'m offset_dm \<Rightarrow> 'm WatermarkTracker" where
  "tracker_new D = \<lparr>consumers = dm_new D\<rparr>"

definition tracker_update :: "'m offset_dm \<Rightarrow> 'm WatermarkTracker \<Rightarrow> string \<Rightarrow> lsn \<Rightarrow> 'm WatermarkTracker" where
  "tracker_update D t consumer_id lsn = t\<lparr>consumers := dm_insert D (consumers t) consumer_id lsn\<rparr>"

definition tracker_remove :: "'m offset_dm \<Rightarrow> 'm WatermarkTracker \<Rightarrow> string \<Rightarrow> 'm WatermarkTracker" where
  "tracker_remove D t consumer_id = t\<lparr>consumers := dm_remove D (consumers t) consumer_id\<rparr>"

definition tracker_watermark :: "'m offset_dm \<Rightarrow> 'm WatermarkTracker \<Rightarrow> lsn" where
  "tracker_watermark D t =
     (let m = fold (\<lambda>(_, v) m. if v < m then v else m) (dm_iter D (consumers t)) lsn_max
      in if m = lsn_max then lsn_zero else m)"

definition consumer_count :: "'m offset_dm \<Rightarrow> 'm WatermarkTracker \<Rightarrow> nat" where
  "consumer_count D t = dm_len D (consumers t)"

record 'm GcScheduler =
  gc_interval :: nanos
  gc_watermark :: "'m WatermarkTracker"
  last_gc_watermark :: lsn
  gc_runs :: u64

definition scheduler_new :: "'m offset_dm \<Rightarrow> nanos \<Rightarrow> 'm GcScheduler" where
  "scheduler_new D interval =
     \<lparr>gc_interval = interval, gc_watermark = tracker_new D, last_gc_watermark = lsn_zero, gc_runs = 0\<rparr>"

definition maybe_gc :: "'m offset_dm \<Rightarrow> 'm GcScheduler \<Rightarrow> lsn option \<times> 'm GcScheduler" where
  "maybe_gc D g =
     (let current_watermark = tracker_watermark D (gc_watermark g)
      in if is_ahead_of current_watermark (last_gc_watermark g)
         then (Some current_watermark,
               g\<lparr>last_gc_watermark := current_watermark, gc_runs := gc_runs g + 1\<rparr>)
         else (None, g))"

subsection \<open>The contract of a watermark\<close>

text \<open>
  What both maps promise: per-consumer positions that only their own \<open>put\<close> and \<open>drop\<close>
  change, and a watermark that is the least position, or zero when there is no position below
  the maximal LSN.
\<close>

definition low_mark :: "(string \<rightharpoonup> lsn) \<Rightarrow> lsn" where
  "low_mark f = (if ran f \<subseteq> {lsn_max} then lsn_zero else Min (ran f))"

locale watermark_source =
  fixes confirmed :: "'s \<Rightarrow> string \<rightharpoonup> lsn"
    and put :: "'s \<Rightarrow> string \<Rightarrow> lsn \<Rightarrow> 's"
    and drop_consumer :: "'s \<Rightarrow> string \<Rightarrow> 's"
    and wm :: "'s \<Rightarrow> lsn"
  assumes confirmed_put: "confirmed (put s c l) = (confirmed s)(c \<mapsto> l)"
    and confirmed_drop: "confirmed (drop_consumer s c) = (confirmed s)(c := None)"
    and finite_confirmed: "finite (ran (confirmed s))"
    and wm_low: "wm s = low_mark (confirmed s)"
begin

lemma wm_le: "confirmed s c = Some l \<Longrightarrow> wm s \<le> l"
  using finite_confirmed [of s] ranI [of "confirmed s" c l] by (simp add: wm_low low_mark_def)

lemma wm_attained: "wm s \<noteq> lsn_zero \<Longrightarrow> wm s \<in> ran (confirmed s)"
  using Min_in [OF finite_confirmed [of s]] by (auto simp: wm_low low_mark_def split: if_splits)

lemma wm_none: "(\<And>c. confirmed s c = None) \<Longrightarrow> wm s = lsn_zero"
  by (simp add: wm_low low_mark_def ran_def)

text \<open>Advancing a consumer never lowers the watermark, unless no position is left below the maximum.\<close>

lemma wm_put_mono:
  assumes "confirmed s c = Some l0" and "l0 \<le> l" and "\<not> ran (confirmed (put s c l)) \<subseteq> {lsn_max}"
  shows "wm s \<le> wm (put s c l)"
proof -
  let ?f = "confirmed (put s c l)"
  have eq: "wm (put s c l) = Min (ran ?f)" using assms(3) by (simp add: wm_low low_mark_def)
  have "Min (ran ?f) \<in> ran ?f" using assms(3) finite_confirmed by (intro Min_in) auto
  then obtain c' where "?f c' = Some (Min (ran ?f))" by (auto simp: ran_def)
  then have "wm s \<le> Min (ran ?f)"
    using wm_le [of s c'] order_trans [OF wm_le [OF assms(1)] assms(2)]
    by (auto simp: confirmed_put split: if_splits)
  then show ?thesis by (simp add: eq)
qed

end

lemma fold_min: "fold (\<lambda>(_ :: 'a, v) m. if v < m then v else m) xs (m0 :: lsn) = Min (insert m0 (snd ` set xs))"
proof -
  have "(\<lambda>(_ :: 'a, v) m. if v < m then v else m) = (\<lambda>p. min (snd p :: lsn))"
    by (auto simp: fun_eq_iff min_def)
  then show ?thesis
    using Min.set_eq_fold [of m0 "map snd xs"] by (simp add: fold_map comp_def)
qed

lemma Min_insert_max:
  assumes "finite S"
  shows "(if Min (insert lsn_max S) = lsn_max then lsn_zero else Min (insert lsn_max S))
       = (if S \<subseteq> {lsn_max} then lsn_zero else Min S)"
proof (cases "S \<subseteq> {lsn_max}")
  case True
  then have "insert lsn_max S = {lsn_max}" by auto
  with True show ?thesis by (simp only: Min_singleton if_True refl)
next
  case False
  then obtain x where x: "x \<in> S" "x \<noteq> lsn_max" by auto
  then have "Min S \<le> x" using assms by simp
  also have "x < lsn_max" using x lsn_le_max [of x] by (simp add: order.strict_iff_order)
  finally have lt: "Min S < lsn_max" .
  have "Min (insert lsn_max S) = Min S"
    using False assms by (subst Min_insert) (auto simp: min_absorb2)
  with lt False show ?thesis by auto
qed

locale offset_map = dashmap D for D :: "'m offset_dm"
begin

lemma scan_low_mark:
  "(let m = fold (\<lambda>(_, v) m. if v < m then v else m) (dm_iter D d) lsn_max
    in if m = lsn_max then lsn_zero else m) = low_mark (dm_get D d)"
proof -
  have "snd ` set (dm_iter D d) = ran (dm_get D d)" using values_iter [of d] by simp
  then show ?thesis
    using Min_insert_max [of "ran (dm_get D d)"] finite_dom [of d]
    by (simp add: fold_min low_mark_def Let_def finite_ran)
qed

end

interpretation alist_om: offset_map alist_dashmap ..

sublocale offset_map \<subseteq> reg: watermark_source "registry_get D" "commit_insert D" "registry_remove D"
    "min_offset D"
proof -
  have get: "registry_get D r = dm_get D (offsets r)" for r :: "'m OffsetRegistry"
    by (simp add: fun_eq_iff registry_get_def)
  show "watermark_source (registry_get D) (commit_insert D) (registry_remove D) (min_offset D)"
    by unfold_locales
      (auto simp: get commit_insert_def registry_remove_def min_offset_def scan_low_mark
        finite_ran finite_dom fun_eq_iff)
qed

sublocale offset_map \<subseteq> trk: watermark_source "\<lambda>t. dm_get D (consumers t)" "tracker_update D"
    "tracker_remove D" "tracker_watermark D"
  by unfold_locales
    (auto simp: tracker_update_def tracker_remove_def tracker_watermark_def scan_low_mark
      finite_ran finite_dom fun_eq_iff)

context offset_map
begin

lemma tracker_le: "dm_get D (consumers t) c = Some l \<Longrightarrow> tracker_watermark D t \<le> l"
  by (rule trk.wm_le)

end

subsection \<open>Histories of the offset manager\<close>

datatype offset_op = Register string | Commit string lsn | Unregister string

fun offset_step :: "'m offset_dm \<Rightarrow> offset_op \<Rightarrow> 'm OffsetManager \<Rightarrow> 'm OffsetManager" where
  "offset_step D (Register c) m = register_consumer D m c"
| "offset_step D (Commit c l) m = snd (manager_commit D m c l)"
| "offset_step D (Unregister c) m = unregister_consumer D m c"

text \<open>The LSNs submitted for a consumer since it was last unregistered, accepted or not.\<close>

definition submitted :: "string \<Rightarrow> offset_op list \<Rightarrow> lsn set" where
  "submitted c ops = {l. Commit c l \<in> set (takeWhile (\<lambda>op. op \<noteq> Unregister c) (rev ops))}"

lemma finite_submitted [simp]: "finite (submitted c ops)"
proof -
  have "submitted c ops \<subseteq> (\<lambda>op. case op of Commit _ l \<Rightarrow> l | _ \<Rightarrow> lsn_zero) ` set ops"
    by (force simp: submitted_def dest: set_takeWhileD)
  then show ?thesis by (rule finite_subset) simp
qed

lemma submitted_snoc:
  "submitted c [] = {}"
  "submitted c (ops @ [Register c']) = submitted c ops"
  "submitted c (ops @ [Commit c' l]) = (if c' = c then insert l (submitted c ops) else submitted c ops)"
  "submitted c (ops @ [Unregister c']) = (if c' = c then {} else submitted c ops)"
  by (auto simp: submitted_def)

context offset_map
begin

lemma manager_commit_get:
  "registry_get D (registry (snd (manager_commit D m c l))) c' =
     (if c' = c then (case registry_get D (registry m) c of None \<Rightarrow> Some l | Some l0 \<Rightarrow> Some (max l0 l))
      else registry_get D (registry m) c')"
  by (auto simp: manager_commit_def registry_commit_def commit_check_def reg.confirmed_put
      is_ahead_of_less max_def split: option.splits)

lemma offset_history:
  "registry_get D (registry (fold (offset_step D) ops (manager_new D))) c =
     (if submitted c ops = {} then None else Some (Max (submitted c ops)))"
proof (induction ops rule: rev_induct)
  case Nil
  show ?case by (simp add: manager_new_def registry_new_def registry_get_def submitted_snoc)
next
  case (snoc op ops)
  then show ?case
  proof (cases op)
    case (Register c')
    with snoc show ?thesis by (simp add: register_consumer_def submitted_snoc)
  next
    case (Commit c' l)
    with snoc show ?thesis by (auto simp: manager_commit_get submitted_snoc max.commute)
  next
    case (Unregister c')
    with snoc show ?thesis
      by (auto simp: unregister_consumer_def reg.confirmed_drop submitted_snoc)
  qed
qed

end

context offset_map
begin

lemma watermark_history:
  fixes ops
  defines "w \<equiv> manager_watermark D (fold (offset_step D) ops (manager_new D))"
  shows "submitted c ops \<noteq> {} \<Longrightarrow> w \<le> Max (submitted c ops)"
    and "w \<noteq> lsn_zero \<Longrightarrow> \<exists>c. submitted c ops \<noteq> {} \<and> w = Max (submitted c ops)"
    and "(\<And>c. submitted c ops = {}) \<Longrightarrow> w = lsn_zero"
proof -
  let ?r = "registry (fold (offset_step D) ops (manager_new D))"
  have w: "w = min_offset D ?r" by (simp add: w_def manager_watermark_def)
  show "submitted c ops \<noteq> {} \<Longrightarrow> w \<le> Max (submitted c ops)"
    using reg.wm_le [of ?r c] by (simp add: w offset_history)
  show "w \<noteq> lsn_zero \<Longrightarrow> \<exists>c. submitted c ops \<noteq> {} \<and> w = Max (submitted c ops)"
    using reg.wm_attained [of ?r] by (auto simp: w ran_def offset_history split: if_splits)
  show "(\<And>c. submitted c ops = {}) \<Longrightarrow> w = lsn_zero"
    using reg.wm_none [of ?r] by (simp add: w offset_history)
qed

end

subsection \<open>Histories of the GC scheduler\<close>

datatype gc_op = Update string lsn | Remove string | RunGc

fun gc_step :: "'m offset_dm \<Rightarrow> gc_op \<Rightarrow> lsn list \<times> 'm GcScheduler \<Rightarrow> lsn list \<times> 'm GcScheduler" where
  "gc_step D (Update c l) (out, g) = (out, g\<lparr>gc_watermark := tracker_update D (gc_watermark g) c l\<rparr>)"
| "gc_step D (Remove c) (out, g) = (out, g\<lparr>gc_watermark := tracker_remove D (gc_watermark g) c\<rparr>)"
| "gc_step D RunGc (out, g) =
     (case maybe_gc D g of (Some w, g') \<Rightarrow> (out @ [w], g') | (None, g') \<Rightarrow> (out, g'))"

definition gc_inv :: "lsn list \<times> 'm GcScheduler \<Rightarrow> bool" where
  "gc_inv = (\<lambda>(out, g). sorted_wrt (<) (lsn_zero # out) \<and> last_gc_watermark g = last (lsn_zero # out)
     \<and> gc_runs g = of_nat (length out))"

lemma sorted_wrt_snoc:
  "sorted_wrt (<) (x # xs) \<Longrightarrow> last (x # xs) < (w :: 'a::linorder) \<Longrightarrow> sorted_wrt (<) (x # xs @ [w])"
proof (induction xs arbitrary: x)
  case (Cons y ys)
  then show ?case by (cases ys) auto
qed simp

lemma gc_step_inv: "gc_inv s \<Longrightarrow> gc_inv (gc_step D op s)"
proof (cases s; cases op)
  fix out g
  assume inv: "gc_inv s" and s: "s = (out, g)" and op: "op = RunGc"
  then show ?thesis
    using sorted_wrt_snoc [of lsn_zero out "tracker_watermark D (gc_watermark g)"]
    by (auto simp: gc_inv_def maybe_gc_def Let_def is_ahead_of_less)
qed (auto simp: gc_inv_def)

lemma gc_run_inv: "gc_inv (fold (gc_step D) ops ([], scheduler_new D i))"
proof -
  have "gc_inv s \<Longrightarrow> gc_inv (fold (gc_step D) ops s)" for s
    by (induction ops arbitrary: s) (simp_all add: gc_step_inv)
  then show ?thesis by (simp add: gc_inv_def scheduler_new_def)
qed

subsection \<open>Concurrent commits\<close>

text \<open>
  The registry is shared and \<open>commit\<close> only borrows it, so accesses of other threads can fall between
  its check and its insertion. A thread is idle or past the check; the log lists the operations
  with their results in the order in which they took effect. With \<open>serial\<close>, no thread checks a
  commit for a consumer while another is between the accesses of a commit for the same consumer.
\<close>

datatype commit_pc = CommitIdle | CommitChecked string lsn

record 'm commit_pool =
  cp_registry :: "'m OffsetRegistry"
  cp_pc :: "nat \<Rightarrow> commit_pc"
  cp_log :: "(offset_op \<times> (unit, NendiError) rresult) list"

definition pool_new :: "'m offset_dm \<Rightarrow> 'm commit_pool" where
  "pool_new D = \<lparr>cp_registry = registry_new D, cp_pc = \<lambda>_. CommitIdle, cp_log = []\<rparr>"

inductive commit_access :: "'m offset_dm \<Rightarrow> bool \<Rightarrow> 'm commit_pool \<Rightarrow> 'm commit_pool \<Rightarrow> bool"
  for D serial where
  check_passes:
    "cp_pc s t = CommitIdle \<Longrightarrow> commit_check D (cp_registry s) c l = Ok () \<Longrightarrow>
     (serial \<Longrightarrow> \<forall>t' l'. cp_pc s t' \<noteq> CommitChecked c l') \<Longrightarrow>
     commit_access D serial s (s\<lparr>cp_pc := (cp_pc s)(t := CommitChecked c l)\<rparr>)"
| check_fails:
    "cp_pc s t = CommitIdle \<Longrightarrow> commit_check D (cp_registry s) c l = Err e \<Longrightarrow>
     commit_access D serial s (s\<lparr>cp_log := cp_log s @ [(Commit c l, Err e)]\<rparr>)"
| inserts:
    "cp_pc s t = CommitChecked c l \<Longrightarrow>
     commit_access D serial s
       (s\<lparr>cp_registry := commit_insert D (cp_registry s) c l, cp_pc := (cp_pc s)(t := CommitIdle),
          cp_log := cp_log s @ [(Commit c l, Ok ())]\<rparr>)"
| removes:
    "commit_access D serial s
       (s\<lparr>cp_registry := registry_remove D (cp_registry s) c, cp_log := cp_log s @ [(Unregister c, Ok ())]\<rparr>)"

inductive commit_reach :: "'m offset_dm \<Rightarrow> bool \<Rightarrow> 'm commit_pool \<Rightarrow> bool" for D serial where
  pool_start: "commit_reach D serial (pool_new D)"
| pool_access: "commit_reach D serial s \<Longrightarrow> commit_access D serial s s' \<Longrightarrow> commit_reach D serial s'"

text \<open>The same operations one after the other, through the manager.\<close>

fun offset_result :: "'m offset_dm \<Rightarrow> offset_op \<Rightarrow> 'm OffsetManager \<Rightarrow> (unit, NendiError) rresult" where
  "offset_result D (Commit c l) m = fst (manager_commit D m c l)"
| "offset_result D _ m = Ok ()"

fun sequential :: "'m offset_dm \<Rightarrow> offset_op list \<Rightarrow> 'm OffsetManager
    \<Rightarrow> (offset_op \<times> (unit, NendiError) rresult) list \<times> 'm OffsetManager" where
  "sequential D [] m = ([], m)"
| "sequential D (op # ops) m =
     (let (lg, m') = sequential D ops (offset_step D op m) in ((op, offset_result D op m) # lg, m'))"

lemma sequential_snoc:
  "sequential D (ops @ [op]) m =
     (let (lg, m') = sequential D ops m in (lg @ [(op, offset_result D op m')], offset_step D op m'))"
  by (induction ops arbitrary: m) (simp_all add: split_beta)

lemma sequential_fold: "snd (sequential D ops m) = fold (offset_step D) ops m"
  by (induction ops arbitrary: m) (simp_all add: split_beta)

definition pool_inv :: "'m offset_dm \<Rightarrow> 'm commit_pool \<Rightarrow> bool" where
  "pool_inv D s \<longleftrightarrow>
     sequential D (map fst (cp_log s)) (manager_new D) = (cp_log s, \<lparr>registry = cp_registry s\<rparr>)
     \<and> (\<forall>t c l. cp_pc s t = CommitChecked c l \<longrightarrow> commit_check D (cp_registry s) c l = Ok ())
     \<and> (\<forall>t t' c l l'. cp_pc s t = CommitChecked c l \<longrightarrow> cp_pc s t' = CommitChecked c l' \<longrightarrow> t' = t)"

lemma manager_commit_pool:
  "manager_commit D \<lparr>registry = r\<rparr> c l =
     (case commit_check D r c l of
        Ok _ \<Rightarrow> (Ok (), \<lparr>registry = commit_insert D r c l\<rparr>)
      | e \<Rightarrow> (e, \<lparr>registry = r\<rparr>))"
  by (simp add: manager_commit_def registry_commit_def split: rresult.splits)

context offset_map
begin

lemma commit_check_other:
  "c' \<noteq> c \<Longrightarrow> commit_check D (commit_insert D r c l) c' l' = commit_check D r c' l'"
  by (simp add: commit_check_def reg.confirmed_put)

lemma commit_check_removed:
  "commit_check D r c' l' = Ok () \<Longrightarrow> commit_check D (registry_remove D r c) c' l' = Ok ()"
  by (simp add: commit_check_def reg.confirmed_drop)

lemma pool_inv_access: "commit_access D True s s' \<Longrightarrow> pool_inv D s \<Longrightarrow> pool_inv D s'"
proof (induction rule: commit_access.induct)
  case (check_passes s t c l)
  then show ?case by (auto simp: pool_inv_def)
next
  case (check_fails s t c l e)
  then show ?case by (simp add: pool_inv_def sequential_snoc manager_commit_pool)
next
  case (inserts s t c l)
  then have ok: "commit_check D (cp_registry s) c l = Ok ()" by (simp add: pool_inv_def)
  have "t' \<noteq> t \<Longrightarrow> cp_pc s t' = CommitChecked c' l' \<Longrightarrow> c' \<noteq> c" for t' c' l'
    using inserts by (auto simp: pool_inv_def)
  with inserts ok show ?case
    by (auto simp: pool_inv_def sequential_snoc manager_commit_pool commit_check_other split: if_splits)
next
  case (removes s c)
  then show ?case
    by (auto simp: pool_inv_def sequential_snoc unregister_consumer_def commit_check_removed)
qed

lemma pool_reach_inv: "commit_reach D True s \<Longrightarrow> pool_inv D s"
proof (induction rule: commit_reach.induct)
  case pool_start
  show ?case by (simp add: pool_inv_def pool_new_def manager_new_def)
qed (rule pool_inv_access)

end

subsection \<open>Properties\<close>

text \<open>
  C11. The committed offset of a consumer is the highest LSN submitted for it since it was last
  unregistered, whatever was submitted in between and in whatever order: a submission below it
  is answered with an \<open>OffsetRegression\<close> naming the consumer, the attempt and the current
  offset, and every other submission is accepted; the consumer resumes one past that offset
  (saturating), or at zero when nothing was submitted.
\<close>

theorem offset_is_highest_submitted:
  assumes "offset_map D"
  shows "let m = fold (offset_step D) ops (manager_new D) in
      registry_get D (registry m) c = (if submitted c ops = {} then None else Some (Max (submitted c ops)))
    \<and> resume_lsn D m c =
        (if submitted c ops = {} then lsn_zero else lsn_saturating_add (Max (submitted c ops)) 1)
    \<and> fst (manager_commit D m c l) =
        (if \<exists>l'. l' \<in> submitted c ops \<and> l < l'
         then Err (OffsetRegression c (get l) (get (Max (submitted c ops)))) else Ok ())"
proof -
  note hist = offset_map.offset_history [OF assms, of ops c]
  have "l < Max (submitted c ops) \<longleftrightarrow> (\<exists>l'. l' \<in> submitted c ops \<and> l < l')"
    if "submitted c ops \<noteq> {}" using that by (auto simp: Max_gr_iff)
  then show ?thesis
    by (auto simp: Let_def hist resume_lsn_def manager_commit_def registry_commit_def
        commit_check_def is_ahead_of_less)
qed

definition demo_history :: "offset_op list" where
  "demo_history = [Register ''a'', Commit ''a'' (Lsn 5), Commit ''b'' (Lsn 3), Commit ''a'' (Lsn 2)]"

lemma demo_history_simps:
  "submitted ''a'' demo_history = {Lsn 2, Lsn 5}" "submitted ''b'' demo_history = {Lsn 3}"
  by (auto simp: demo_history_def submitted_def)

theorem offset_is_highest_submitted_witness:
  "resume_lsn alist_dashmap (fold (offset_step alist_dashmap) demo_history (manager_new alist_dashmap)) ''a''
     = lsn_saturating_add (Max {Lsn 2, Lsn 5}) 1"
  using offset_is_highest_submitted [OF alist_om.offset_map_axioms, of demo_history "''a''" "Lsn 4"]
  by (simp add: Let_def demo_history_simps)

text \<open>
  The watermark of the offset manager is safe and tight after any history: it never passes
  the offset of a consumer that has one, and when it is not zero it is the offset of some consumer;
  without any committed offset it is zero.
\<close>

theorem manager_watermark_safe:
  assumes "offset_map D"
  shows "let w = manager_watermark D (fold (offset_step D) ops (manager_new D)) in
      (\<forall>c. submitted c ops \<noteq> {} \<longrightarrow> w \<le> Max (submitted c ops))
    \<and> (w \<noteq> lsn_zero \<longrightarrow> (\<exists>c. submitted c ops \<noteq> {} \<and> w = Max (submitted c ops)))
    \<and> ((\<forall>c. submitted c ops = {}) \<longrightarrow> w = lsn_zero)"
  using offset_map.watermark_history [OF assms, where ops = ops] by (auto simp: Let_def)

theorem manager_watermark_safe_witness:
  "manager_watermark alist_dashmap
     (fold (offset_step alist_dashmap) demo_history (manager_new alist_dashmap)) \<le> Lsn 3"
proof -
  have "submitted ''b'' demo_history \<noteq> {}" "Max (submitted ''b'' demo_history) = Lsn 3"
    by (simp_all add: demo_history_simps)
  then show ?thesis
    using manager_watermark_safe [OF alist_om.offset_map_axioms, of demo_history]
    by (auto simp: Let_def)
qed

text \<open>
  C9. Commits that do not overlap behave as if they were made one after the other. When no two
  commits for the same consumer are under way at once, any interleaving of the accesses of any
  number of threads, with consumers unregistered in between, leaves the registry and gives every
  caller the answer that the same operations give in sequence, in the order they took effect; so the
  offset of a consumer is the highest submitted for it since it was last unregistered.
\<close>

theorem commits_linearise:
  assumes "offset_map D" and "commit_reach D True s"
  defines "ops \<equiv> map fst (cp_log s)"
  shows "sequential D ops (manager_new D) = (cp_log s, \<lparr>registry = cp_registry s\<rparr>)
    \<and> registry_get D (cp_registry s) c = (if submitted c ops = {} then None else Some (Max (submitted c ops)))"
proof -
  have seq: "sequential D ops (manager_new D) = (cp_log s, \<lparr>registry = cp_registry s\<rparr>)"
    using offset_map.pool_reach_inv [OF assms(1,2)] by (simp add: pool_inv_def ops_def)
  then have "registry (fold (offset_step D) ops (manager_new D)) = cp_registry s"
    using sequential_fold [of D ops "manager_new D"] by (metis OffsetManager.select_convs(1) snd_conv)
  with seq offset_map.offset_history [OF assms(1), of ops c] show ?thesis by simp
qed

definition racing :: "'m offset_dm \<Rightarrow> string \<Rightarrow> lsn \<Rightarrow> lsn \<Rightarrow> 'm commit_pool" where
  "racing D c l1 l2 = (pool_new D)\<lparr>cp_pc := (\<lambda>_. CommitIdle)(0 := CommitChecked c l1, 1 := CommitChecked c l2)\<rparr>"

definition raced :: "'m offset_dm \<Rightarrow> string \<Rightarrow> lsn \<Rightarrow> lsn \<Rightarrow> 'm commit_pool" where
  "raced D c l1 l2 =
     \<lparr>cp_registry = commit_insert D (commit_insert D (registry_new D) c l2) c l1, cp_pc = \<lambda>_. CommitIdle,
      cp_log = [(Commit c l2, Ok ()), (Commit c l1, Ok ())]\<rparr>"

lemma all_idle [simp]: "(\<lambda>_. CommitIdle)(t := CommitIdle) = (\<lambda>_. CommitIdle)"
  by (simp add: fun_eq_iff)

lemma second_idle: "((\<lambda>_. CommitIdle)(0 := p))(Suc 0 := CommitIdle) = (\<lambda>_. CommitIdle)(0 := p)"
  by (simp add: fun_eq_iff)

context offset_map
begin

lemma check_new: "commit_check D (registry_new D) c l = Ok ()"
  by (simp add: commit_check_def registry_get_def registry_new_def)

lemma first_checked:
  "commit_reach D serial ((pool_new D)\<lparr>cp_pc := (\<lambda>_. CommitIdle)(t := CommitChecked c l)\<rparr>)"
  using pool_access [OF pool_start check_passes [of "pool_new D" t D c l serial]]
  by (simp add: pool_new_def check_new)

lemma racing_reach: "commit_reach D False (racing D c l1 l2)"
  using pool_access [OF first_checked [of False 0 c l1] check_passes [of _ 1 D c l2 False]]
  by (simp add: racing_def pool_new_def check_new)

lemma raced_reach: "commit_reach D False (raced D c l1 l2)"
proof -
  have "commit_reach D False ((racing D c l1 l2)\<lparr>cp_registry := commit_insert D (registry_new D) c l2,
      cp_pc := (\<lambda>_. CommitIdle)(0 := CommitChecked c l1), cp_log := [(Commit c l2, Ok ())]\<rparr>)"
    using pool_access [OF racing_reach inserts [of "racing D c l1 l2" 1 c l2 D False]]
    by (simp add: racing_def pool_new_def second_idle)
  from pool_access [OF this inserts [of _ 0 c l1 D False]] show ?thesis
    by (simp add: racing_def raced_def pool_new_def)
qed

lemma raced_offsets:
  "registry_get D (cp_registry (raced D c l1 l2)) = [c \<mapsto> l1]"
  "l1 < l2 \<Longrightarrow> min_offset D (cp_registry (raced D c l1 l2)) = l1"
proof -
  have "registry_get D (registry_new D) = Map.empty"
    by (simp add: fun_eq_iff registry_get_def registry_new_def)
  then show get: "registry_get D (cp_registry (raced D c l1 l2)) = [c \<mapsto> l1]"
    by (simp add: raced_def reg.confirmed_put)
  assume "l1 < l2"
  then have "l1 \<noteq> lsn_max" using lsn_le_max [of l2] by (auto simp: not_le [symmetric])
  then show "min_offset D (cp_registry (raced D c l1 l2)) = l1"
    unfolding reg.wm_low get by (simp add: low_mark_def)
qed

end

theorem commits_linearise_witness:
  "\<exists>s. commit_reach alist_dashmap True s \<and> cp_log s = [(Commit ''a'' (Lsn 5), Ok ())]
     \<and> registry_get alist_dashmap (cp_registry s) ''a'' = Some (Lsn 5)"
proof -
  let ?s = "(pool_new alist_dashmap)\<lparr>cp_registry := commit_insert alist_dashmap (registry_new alist_dashmap) ''a'' (Lsn 5),
      cp_log := [(Commit ''a'' (Lsn 5), Ok ())]\<rparr>"
  have "commit_reach alist_dashmap True ?s"
    using pool_access [OF alist_om.first_checked [of True 0 "''a''" "Lsn 5"] inserts [of _ 0 "''a''" "Lsn 5"]]
    by (simp add: pool_new_def)
  moreover from commits_linearise [OF alist_om.offset_map_axioms this, of "''a''"]
  have "registry_get alist_dashmap (cp_registry ?s) ''a'' = Some (Lsn 5)"
    by (simp add: submitted_def)
  ultimately show ?thesis by (intro exI [of _ ?s]) simp
qed

text \<open>
  C35. Overlapping commits can move an offset back. Because \<open>commit\<close> checks and inserts in two
  accesses, two commits for one consumer can both be accepted and leave the lower LSN as its
  offset, whatever the two LSNs are; made one after the other, in either order, the same commits
  leave the higher one.
\<close>

theorem overlapping_commits_regress:
  assumes "offset_map D" and "l1 < l2"
  shows "\<exists>s. commit_reach D False s \<and> cp_log s = [(Commit c l2, Ok ()), (Commit c l1, Ok ())]
    \<and> registry_get D (cp_registry s) c = Some l1 \<and> min_offset D (cp_registry s) = l1
    \<and> (\<forall>ops. set ops = set (map fst (cp_log s)) \<longrightarrow>
         registry_get D (registry (fold (offset_step D) ops (manager_new D))) c = Some l2)"
proof (intro exI conjI allI impI)
  show "commit_reach D False (raced D c l1 l2)" by (rule offset_map.raced_reach [OF assms(1)])
  fix ops assume "set ops = set (map fst (cp_log (raced D c l1 l2)))"
  then have "submitted c ops = {l1, l2}"
    by (auto simp: raced_def submitted_def takeWhile_eq_all_conv [THEN iffD2])
  then show "registry_get D (registry (fold (offset_step D) ops (manager_new D))) c = Some l2"
    using assms(2) by (auto simp: offset_map.offset_history [OF assms(1)] max_def)
qed (use assms in \<open>simp_all add: offset_map.raced_offsets, simp add: raced_def\<close>)

theorem overlapping_commits_regress_witness:
  "\<exists>s. commit_reach alist_dashmap False s
     \<and> cp_log s = [(Commit ''a'' (Lsn 9), Ok ()), (Commit ''a'' (Lsn 5), Ok ())]
     \<and> registry_get alist_dashmap (cp_registry s) ''a'' = Some (Lsn 5)"
  using overlapping_commits_regress [OF alist_om.offset_map_axioms, of "Lsn 5" "Lsn 9" "''a''"]
  by (auto simp: less_lsn_def)

text \<open>
  The GC scheduler only moves forward: whatever consumers confirm, re-confirm lower or
  disconnect between the checks, the watermarks it hands to the collector strictly increase,
  starting above zero, and \<open>gc_runs\<close> counts them (modulo $2^{64}$).
\<close>

theorem gc_watermarks_increase:
  "fold (gc_step D) ops ([], scheduler_new D i) = (out, g) \<longrightarrow>
     sorted_wrt (<) (lsn_zero # out) \<and> gc_runs g = of_nat (length out)"
  using gc_run_inv [of D ops i] by (auto simp: gc_inv_def)

theorem gc_watermarks_increase_witness:
  "fst (fold (gc_step alist_dashmap) [Update ''a'' (Lsn 4), RunGc, Update ''a'' (Lsn 2), RunGc,
       Update ''a'' (Lsn 9), RunGc] ([], scheduler_new alist_dashmap 1)) = [Lsn 4, Lsn 9]
   \<and> sorted_wrt (<) [lsn_zero, Lsn 4, Lsn 9]"
proof -
  let ?ops = "[Update ''a'' (Lsn 4), RunGc, Update ''a'' (Lsn 2), RunGc, Update ''a'' (Lsn 9), RunGc]"
  have run: "fst (fold (gc_step alist_dashmap) ?ops ([], scheduler_new alist_dashmap 1)) = [Lsn 4, Lsn 9]"
    by code_simp
  then show ?thesis
    using gc_watermarks_increase [of alist_dashmap ?ops 1 "[Lsn 4, Lsn 9]"]
    by (cases "fold (gc_step alist_dashmap) ?ops ([], scheduler_new alist_dashmap 1)") auto
qed

end
