(* ===== verification/Config.thy ===== *)
theory Config
  imports Event F64
begin

text \<open>
  The configuration of the daemon, \<open>src/shared/src/config/loader.rs\<close>: one record per struct,
  one definition per default-value function, and what \<open>#[derive(Deserialize)]\<close> makes of each
  struct. A \<open>HashMap\<close> field is an association list. The \<open>config\<close> crate, which reads the files
  and the environment and converts scalars, is the parameter \<open>C\<close>. \<open>load_config\<close> is
  \<open>src/shared/src/config/mod.rs\<close>.
\<close>

record SourceConfig =
  connection_string :: string
  pool_size :: u32
  application_name :: string

record SlotConfig =
  slot_name :: string
  output_plugin :: string
  auto_create :: bool
  wal_lag_hard_cap_bytes :: u64
  lag_check_interval_secs :: u64

record PublicationTable =
  pt_table :: string
  operations :: "string list"
  predicate :: "string option"
  pt_columns :: "string list option"

record PublicationConfig =
  pub_name :: string
  pub_tables :: "PublicationTable list"

record StorageConfig =
  sc_data_dir :: string
  sc_write_buffer_size :: usize
  sc_max_write_buffers :: usize
  sc_block_cache_size :: usize
  sc_direct_io :: bool
  sc_compression :: string
  sc_ttl_secs :: u64

record PipelineConfig =
  flush_max_bytes :: usize
  flush_max_age_us :: u64
  ring_buffer_capacity :: usize
  pl_filters :: "(string \<times> string) list"

record GrpcConfig =
  listen_addr :: string
  credit_window :: u32
  max_consumers :: usize

record WebhookTarget =
  wt_url :: string
  wt_tables :: "string list"
  wt_batch_size :: usize
  wt_linger_ms :: u64
  circuit_breaker_threshold :: u32
  retry_max_attempts :: u32
  signing_secret :: "string option"

record WebhookConfig =
  targets :: "(string \<times> WebhookTarget) list"

record MemoryConfig =
  mc_budget_bytes :: usize
  mc_warn_threshold :: f64

record ObservabilityConfig =
  log_level :: string
  metrics_addr :: string

record NendiConfig =
  nc_source :: SourceConfig
  nc_slot :: SlotConfig
  nc_publication :: PublicationConfig
  nc_storage :: StorageConfig
  nc_pipeline :: PipelineConfig
  nc_grpc :: GrpcConfig
  nc_webhook :: "WebhookConfig option"
  nc_memory :: MemoryConfig
  nc_observability :: ObservabilityConfig

subsection \<open>Defaults\<close>

definition default_pool_size :: u32 where "default_pool_size = 4"
definition default_app_name :: string where "default_app_name = ''nendi''"
definition default_output_plugin :: string where "default_output_plugin = ''pgoutput''"
definition default_true :: bool where "default_true = True"
definition default_wal_lag_cap :: u64 where "default_wal_lag_cap = 1073741824"
definition default_lag_check_interval :: u64 where "default_lag_check_interval = 10"
definition default_ops :: "string list" where "default_ops = [''insert'', ''update'', ''delete'', ''truncate'']"
definition default_write_buffer :: usize where "default_write_buffer = 268435456"
definition default_max_write_buffers :: usize where "default_max_write_buffers = 4"
definition default_block_cache :: usize where "default_block_cache = 536870912"
definition default_compression :: string where "default_compression = ''lz4''"
definition default_flush_bytes :: usize where "default_flush_bytes = 4194304"
definition default_flush_age_us :: u64 where "default_flush_age_us = 500"
definition default_ring_capacity :: usize where "default_ring_capacity = 65536"
definition default_credit_window :: u32 where "default_credit_window = 1024"
definition default_max_consumers :: usize where "default_max_consumers = 256"
definition default_webhook_batch :: usize where "default_webhook_batch = 100"
definition default_webhook_linger :: u64 where "default_webhook_linger = 50"
definition default_circuit_threshold :: u32 where "default_circuit_threshold = 5"
definition default_retry_max :: u32 where "default_retry_max = 3"
definition default_memory_budget :: usize where "default_memory_budget = 1073741824"
definition default_memory_warn :: f64 where "default_memory_warn = rnd (85 / 100)"
definition default_log_level :: string where "default_log_level = ''info''"
definition default_metrics_addr :: string where "default_metrics_addr = ''0.0.0.0:9090''"

lemmas config_defaults = default_pool_size_def default_app_name_def default_output_plugin_def
  default_true_def default_wal_lag_cap_def default_lag_check_interval_def default_ops_def
  default_write_buffer_def default_max_write_buffers_def default_block_cache_def
  default_compression_def default_flush_bytes_def default_flush_age_us_def
  default_ring_capacity_def default_credit_window_def default_max_consumers_def
  default_webhook_batch_def default_webhook_linger_def default_circuit_threshold_def
  default_retry_max_def default_memory_budget_def default_memory_warn_def default_log_level_def
  default_metrics_addr_def

subsection \<open>Deserialisation\<close>

record 'v config_ops =
  cfg_table :: "'v \<Rightarrow> ((string \<times> 'v) list, string) rresult"
  cfg_seq :: "'v \<Rightarrow> ('v list, string) rresult"
  cfg_is_nil :: "'v \<Rightarrow> bool"
  cfg_str :: "'v \<Rightarrow> (string, string) rresult"
  cfg_bool :: "'v \<Rightarrow> (bool, string) rresult"
  cfg_u32 :: "'v \<Rightarrow> (u32, string) rresult"
  cfg_u64 :: "'v \<Rightarrow> (u64, string) rresult"
  cfg_f64 :: "'v \<Rightarrow> (f64, string) rresult"

text \<open>
  A field without a default is required, one with \<open>#[serde(default = ...)]\<close> has the
  default when absent, an \<open>Option\<close> is \<open>None\<close> when absent or nil. Unknown fields are ignored.
\<close>

type_synonym 'v fields = "(string \<times> 'v) list"

definition field :: "'v fields \<Rightarrow> string \<Rightarrow> ('v \<Rightarrow> ('a, string) rresult) \<Rightarrow> ('a, string) rresult" where
  "field fs name conv =
     (case map_of fs name of None \<Rightarrow> Err (''missing field '' @ name) | Some v \<Rightarrow> conv v)"

definition field_or ::
    "'v fields \<Rightarrow> string \<Rightarrow> ('v \<Rightarrow> ('a, string) rresult) \<Rightarrow> 'a \<Rightarrow> ('a, string) rresult" where
  "field_or fs name conv d = (case map_of fs name of None \<Rightarrow> Ok d | Some v \<Rightarrow> conv v)"

definition opt_field ::
    "'v config_ops \<Rightarrow> 'v fields \<Rightarrow> string \<Rightarrow> ('v \<Rightarrow> ('a, string) rresult) \<Rightarrow> ('a option, string) rresult" where
  "opt_field C fs name conv =
     (case map_of fs name of
        None \<Rightarrow> Ok None
      | Some v \<Rightarrow> if cfg_is_nil C v then Ok None else and_then (conv v) (\<lambda>a. Ok (Some a)))"

fun collect :: "('v \<Rightarrow> ('a, 'e) rresult) \<Rightarrow> 'v list \<Rightarrow> ('a list, 'e) rresult" where
  "collect conv [] = Ok []"
| "collect conv (v # vs) = and_then (conv v) (\<lambda>a. and_then (collect conv vs) (\<lambda>as. Ok (a # as)))"

definition de_vec :: "'v config_ops \<Rightarrow> ('v \<Rightarrow> ('a, string) rresult) \<Rightarrow> 'v \<Rightarrow> ('a list, string) rresult" where
  "de_vec C conv v = and_then (cfg_seq C v) (collect conv)"

definition de_map ::
    "'v config_ops \<Rightarrow> ('v \<Rightarrow> ('a, string) rresult) \<Rightarrow> 'v \<Rightarrow> ((string \<times> 'a) list, string) rresult" where
  "de_map C conv v = and_then (cfg_table C v)
     (collect (\<lambda>(k, x). and_then (conv x) (\<lambda>a. Ok (k, a))))"

definition de_SourceConfig :: "'v config_ops \<Rightarrow> 'v \<Rightarrow> (SourceConfig, string) rresult" where
  "de_SourceConfig C v = and_then (cfg_table C v) (\<lambda>fs.
     and_then (field fs ''connection_string'' (cfg_str C)) (\<lambda>a.
     and_then (field_or fs ''pool_size'' (cfg_u32 C) default_pool_size) (\<lambda>b.
     and_then (field_or fs ''application_name'' (cfg_str C) default_app_name) (\<lambda>c.
     Ok \<lparr>connection_string = a, pool_size = b, application_name = c\<rparr>))))"

definition de_SlotConfig :: "'v config_ops \<Rightarrow> 'v \<Rightarrow> (SlotConfig, string) rresult" where
  "de_SlotConfig C v = and_then (cfg_table C v) (\<lambda>fs.
     and_then (field fs ''name'' (cfg_str C)) (\<lambda>a.
     and_then (field_or fs ''output_plugin'' (cfg_str C) default_output_plugin) (\<lambda>b.
     and_then (field_or fs ''auto_create'' (cfg_bool C) default_true) (\<lambda>c.
     and_then (field_or fs ''wal_lag_hard_cap_bytes'' (cfg_u64 C) default_wal_lag_cap) (\<lambda>d.
     and_then (field_or fs ''lag_check_interval_secs'' (cfg_u64 C) default_lag_check_interval) (\<lambda>e.
     Ok \<lparr>slot_name = a, output_plugin = b, auto_create = c, wal_lag_hard_cap_bytes = d, lag_check_interval_secs = e\<rparr>))))))"

definition de_PublicationTable :: "'v config_ops \<Rightarrow> 'v \<Rightarrow> (PublicationTable, string) rresult" where
  "de_PublicationTable C v = and_then (cfg_table C v) (\<lambda>fs.
     and_then (field fs ''table'' (cfg_str C)) (\<lambda>a.
     and_then (field_or fs ''operations'' (de_vec C (cfg_str C)) default_ops) (\<lambda>b.
     and_then (opt_field C fs ''where'' (cfg_str C)) (\<lambda>c.
     and_then (opt_field C fs ''columns'' (de_vec C (cfg_str C))) (\<lambda>d.
     Ok \<lparr>pt_table = a, operations = b, predicate = c, pt_columns = d\<rparr>)))))"

definition de_PublicationConfig :: "'v config_ops \<Rightarrow> 'v \<Rightarrow> (PublicationConfig, string) rresult" where
  "de_PublicationConfig C v = and_then (cfg_table C v) (\<lambda>fs.
     and_then (field fs ''name'' (cfg_str C)) (\<lambda>a.
     and_then (field fs ''tables'' (de_vec C (de_PublicationTable C))) (\<lambda>b.
     Ok \<lparr>pub_name = a, pub_tables = b\<rparr>)))"

definition de_StorageConfig :: "'v config_ops \<Rightarrow> 'v \<Rightarrow> (StorageConfig, string) rresult" where
  "de_StorageConfig C v = and_then (cfg_table C v) (\<lambda>fs.
     and_then (field fs ''data_dir'' (cfg_str C)) (\<lambda>a.
     and_then (field_or fs ''write_buffer_size'' (cfg_u64 C) default_write_buffer) (\<lambda>b.
     and_then (field_or fs ''max_write_buffers'' (cfg_u64 C) default_max_write_buffers) (\<lambda>c.
     and_then (field_or fs ''block_cache_size'' (cfg_u64 C) default_block_cache) (\<lambda>d.
     and_then (field_or fs ''direct_io'' (cfg_bool C) default_true) (\<lambda>e.
     and_then (field_or fs ''compression'' (cfg_str C) default_compression) (\<lambda>f.
     and_then (field_or fs ''ttl_secs'' (cfg_u64 C) 0) (\<lambda>g.
     Ok \<lparr>sc_data_dir = a, sc_write_buffer_size = b, sc_max_write_buffers = c, sc_block_cache_size = d, sc_direct_io = e, sc_compression = f, sc_ttl_secs = g\<rparr>))))))))"

definition de_PipelineConfig :: "'v config_ops \<Rightarrow> 'v \<Rightarrow> (PipelineConfig, string) rresult" where
  "de_PipelineConfig C v = and_then (cfg_table C v) (\<lambda>fs.
     and_then (field_or fs ''flush_max_bytes'' (cfg_u64 C) default_flush_bytes) (\<lambda>a.
     and_then (field_or fs ''flush_max_age_us'' (cfg_u64 C) default_flush_age_us) (\<lambda>b.
     and_then (field_or fs ''ring_buffer_capacity'' (cfg_u64 C) default_ring_capacity) (\<lambda>c.
     and_then (field_or fs ''filters'' (de_map C (cfg_str C)) []) (\<lambda>d.
     Ok \<lparr>flush_max_bytes = a, flush_max_age_us = b, ring_buffer_capacity = c, pl_filters = d\<rparr>)))))"

definition de_GrpcConfig :: "'v config_ops \<Rightarrow> 'v \<Rightarrow> (GrpcConfig, string) rresult" where
  "de_GrpcConfig C v = and_then (cfg_table C v) (\<lambda>fs.
     and_then (field fs ''listen_addr'' (cfg_str C)) (\<lambda>a.
     and_then (field_or fs ''credit_window'' (cfg_u32 C) default_credit_window) (\<lambda>b.
     and_then (field_or fs ''max_consumers'' (cfg_u64 C) default_max_consumers) (\<lambda>c.
     Ok \<lparr>listen_addr = a, credit_window = b, max_consumers = c\<rparr>))))"

definition de_WebhookTarget :: "'v config_ops \<Rightarrow> 'v \<Rightarrow> (WebhookTarget, string) rresult" where
  "de_WebhookTarget C v = and_then (cfg_table C v) (\<lambda>fs.
     and_then (field fs ''url'' (cfg_str C)) (\<lambda>a.
     and_then (field fs ''tables'' (de_vec C (cfg_str C))) (\<lambda>b.
     and_then (field_or fs ''batch_size'' (cfg_u64 C) default_webhook_batch) (\<lambda>c.
     and_then (field_or fs ''linger_ms'' (cfg_u64 C) default_webhook_linger) (\<lambda>d.
     and_then (field_or fs ''circuit_breaker_threshold'' (cfg_u32 C) default_circuit_threshold) (\<lambda>e.
     and_then (field_or fs ''retry_max_attempts'' (cfg_u32 C) default_retry_max) (\<lambda>f.
     and_then (opt_field C fs ''signing_secret'' (cfg_str C)) (\<lambda>g.
     Ok \<lparr>wt_url = a, wt_tables = b, wt_batch_size = c, wt_linger_ms = d, circuit_breaker_threshold = e, retry_max_attempts = f, signing_secret = g\<rparr>))))))))"

definition de_WebhookConfig :: "'v config_ops \<Rightarrow> 'v \<Rightarrow> (WebhookConfig, string) rresult" where
  "de_WebhookConfig C v = and_then (cfg_table C v) (\<lambda>fs.
     and_then (field fs ''targets'' (de_map C (de_WebhookTarget C))) (\<lambda>a.
     Ok \<lparr>targets = a\<rparr>))"

definition de_MemoryConfig :: "'v config_ops \<Rightarrow> 'v \<Rightarrow> (MemoryConfig, string) rresult" where
  "de_MemoryConfig C v = and_then (cfg_table C v) (\<lambda>fs.
     and_then (field_or fs ''budget_bytes'' (cfg_u64 C) default_memory_budget) (\<lambda>a.
     and_then (field_or fs ''warn_threshold'' (cfg_f64 C) default_memory_warn) (\<lambda>b.
     Ok \<lparr>mc_budget_bytes = a, mc_warn_threshold = b\<rparr>)))"

definition de_ObservabilityConfig :: "'v config_ops \<Rightarrow> 'v \<Rightarrow> (ObservabilityConfig, string) rresult" where
  "de_ObservabilityConfig C v = and_then (cfg_table C v) (\<lambda>fs.
     and_then (field_or fs ''log_level'' (cfg_str C) default_log_level) (\<lambda>a.
     and_then (field_or fs ''metrics_addr'' (cfg_str C) default_metrics_addr) (\<lambda>b.
     Ok \<lparr>log_level = a, metrics_addr = b\<rparr>)))"

definition de_NendiConfig :: "'v config_ops \<Rightarrow> 'v \<Rightarrow> (NendiConfig, string) rresult" where
  "de_NendiConfig C v = and_then (cfg_table C v) (\<lambda>fs.
     and_then (field fs ''source'' (de_SourceConfig C)) (\<lambda>a.
     and_then (field fs ''slot'' (de_SlotConfig C)) (\<lambda>b.
     and_then (field fs ''publication'' (de_PublicationConfig C)) (\<lambda>c.
     and_then (field fs ''storage'' (de_StorageConfig C)) (\<lambda>d.
     and_then (field fs ''pipeline'' (de_PipelineConfig C)) (\<lambda>e.
     and_then (field fs ''grpc'' (de_GrpcConfig C)) (\<lambda>f.
     and_then (opt_field C fs ''webhook'' (de_WebhookConfig C)) (\<lambda>g.
     and_then (field fs ''memory'' (de_MemoryConfig C)) (\<lambda>h.
     and_then (field fs ''observability'' (de_ObservabilityConfig C)) (\<lambda>i.
     Ok \<lparr>nc_source = a, nc_slot = b, nc_publication = c, nc_storage = d, nc_pipeline = e, nc_grpc = f, nc_webhook = g, nc_memory = h, nc_observability = i\<rparr>))))))))))"

text \<open>The settings of a tenant, \<open>src/shared/src/tenant/types.rs\<close>.\<close>

record TenantConfig =
  tc_id :: TenantId
  tc_active :: bool
  tc_rate_limit :: u64
  tc_ttl_secs :: u64

definition tenant_default_true :: bool where
  "tenant_default_true = True"

definition de_TenantConfig :: "'v config_ops \<Rightarrow> 'v \<Rightarrow> (TenantConfig, string) rresult" where
  "de_TenantConfig C v = and_then (cfg_table C v) (\<lambda>fs.
     and_then (field fs ''id'' (\<lambda>v. and_then (cfg_str C v) (\<lambda>s. Ok (TenantId s)))) (\<lambda>a.
     and_then (field_or fs ''active'' (cfg_bool C) tenant_default_true) (\<lambda>b.
     and_then (field_or fs ''rate_limit'' (cfg_u64 C) 0) (\<lambda>c.
     and_then (field_or fs ''ttl_secs'' (cfg_u64 C) 0) (\<lambda>d.
     Ok \<lparr>tc_id = a, tc_active = b, tc_rate_limit = c, tc_ttl_secs = d\<rparr>)))))"

subsection \<open>Loading\<close>

datatype config_source = ConfigFile string bool | ConfigEnv string string bool

definition path_join :: "string \<Rightarrow> string \<Rightarrow> string" where
  "path_join dir name =
     (if starts_with ''/'' name then name
      else if dir = [] \<or> last dir = CHR ''/'' then dir @ name
      else dir @ ''/'' @ name)"

text \<open>\<open>build\<close> is \<open>ConfigBuilder::build\<close>: it merges the sources, later ones over earlier ones.\<close>

definition load_config ::
    "'v config_ops \<Rightarrow> (config_source list \<Rightarrow> ('v, string) rresult) \<Rightarrow> string \<Rightarrow> string
     \<Rightarrow> (NendiConfig, string) rresult" where
  "load_config C build config_dir env =
     and_then (build [ConfigFile (path_join config_dir ''default.toml'') True,
                      ConfigFile (path_join config_dir (env @ ''.toml'')) False,
                      ConfigEnv ''NENDI'' ''__'' True])
       (de_NendiConfig C)"

subsection \<open>A value tree\<close>

text \<open>
  A reference for the parameter: TOML values without the string-to-number conversions of the
  environment source. \<open>default_toml\<close> is \<open>src/config/default.toml\<close>.
\<close>

datatype toml = TStr string | TInt int | TBool bool | TFloat rat | TNil
  | TSeq "toml list" | TTable "(string \<times> toml) list"

definition de_int :: "int \<Rightarrow> toml \<Rightarrow> ('a::len word, string) rresult" where
  "de_int bound v =
     (case v of TInt i \<Rightarrow> if 0 \<le> i \<and> i < bound then Ok (of_int i) else Err ''invalid value'' | _ \<Rightarrow> Err ''invalid type'')"

definition toml_config :: "toml config_ops" where
  "toml_config =
     \<lparr>cfg_table = (\<lambda>v. case v of TTable fs \<Rightarrow> Ok fs | _ \<Rightarrow> Err ''invalid type''),
      cfg_seq = (\<lambda>v. case v of TSeq vs \<Rightarrow> Ok vs | _ \<Rightarrow> Err ''invalid type''),
      cfg_is_nil = (\<lambda>v. v = TNil),
      cfg_str = (\<lambda>v. case v of TStr t \<Rightarrow> Ok t | _ \<Rightarrow> Err ''invalid type''),
      cfg_bool = (\<lambda>v. case v of TBool b \<Rightarrow> Ok b | _ \<Rightarrow> Err ''invalid type''),
      cfg_u32 = de_int (2 ^ 32), cfg_u64 = de_int (2 ^ 64),
      cfg_f64 = (\<lambda>v. case v of TFloat r \<Rightarrow> Ok (rnd r) | _ \<Rightarrow> Err ''invalid type'')\<rparr>"

definition default_toml_base :: "(string \<times> toml) list" where
  "default_toml_base =
     [(''source'', TTable [(''connection_string'',
        TStr ''host=localhost port=5432 dbname=nendi user=fescii password=Fescii333'')]),
      (''slot'', TTable [(''name'', TStr ''nendi_slot''), (''auto_create'', TBool True),
        (''wal_lag_hard_cap_bytes'', TInt 1073741824), (''lag_check_interval_secs'', TInt 30)]),
      (''publication'', TTable [(''name'', TStr ''nendi_pub''), (''auto_create'', TBool True),
        (''tables'', TSeq [])]),
      (''storage'', TTable [(''data_dir'', TStr ''/var/lib/nendi/data''),
        (''write_buffer_size'', TInt 268435456), (''max_write_buffers'', TInt 4),
        (''block_cache_size'', TInt 134217728), (''direct_io'', TBool True),
        (''compression'', TStr ''lz4''), (''ttl_secs'', TInt 0)]),
      (''pipeline'', TTable [(''ring_buffer_capacity'', TInt 65536), (''flush_max_bytes'', TInt 4194304),
        (''flush_max_age_us'', TInt 100000), (''max_in_flight'', TInt 1000), (''filters'', TTable [])]),
      (''grpc'', TTable [(''listen_addr'', TStr ''[::1]:50051''), (''max_streams'', TInt 64),
        (''credit_window'', TInt 1000)]),
      (''memory'', TTable [(''budget_bytes'', TInt 536870912), (''warn_threshold'', TFloat (85 / 100))]),
      (''observability'', TTable [(''metrics_listen_addr'', TStr ''0.0.0.0:9090''),
        (''log_level'', TStr ''info''), (''log_format'', TStr ''json'')])]"

definition default_toml_webhook :: "(string \<times> toml) list" where
  "default_toml_webhook =
     [(''url'', TStr []), (''batch_size'', TInt 100), (''linger_ms'', TInt 200),
      (''timeout_ms'', TInt 30000), (''max_retries'', TInt 5), (''retry_backoff_ms'', TInt 500),
      (''hmac_secret'', TStr [])]"

definition default_toml :: toml where
  "default_toml = TTable ((''webhook'', TTable default_toml_webhook) # default_toml_base)"

lemmas de_defs = de_SourceConfig_def de_SlotConfig_def de_PublicationTable_def
  de_PublicationConfig_def de_StorageConfig_def de_PipelineConfig_def de_GrpcConfig_def
  de_WebhookTarget_def de_WebhookConfig_def de_MemoryConfig_def de_ObservabilityConfig_def
  de_NendiConfig_def de_vec_def de_map_def field_def field_or_def opt_field_def

text \<open>Without its webhook section the shipped default configuration loads.\<close>

lemma default_toml_base_loads:
  "\<exists>cfg. de_NendiConfig toml_config (TTable default_toml_base) = Ok cfg
     \<and> nc_webhook cfg = None \<and> metrics_addr (nc_observability cfg) = default_metrics_addr
     \<and> max_consumers (nc_grpc cfg) = default_max_consumers"
  by (simp add: de_defs toml_config_def default_toml_base_def de_int_def)

subsection \<open>Properties\<close>

text \<open>
  A \<open>webhook\<close> section without a \<open>targets\<close> table makes the whole configuration fail to
  load: the section is optional, but its one field is required, whatever other fields the
  section has and whatever the files and the environment set elsewhere. The \<open>webhook\<close> section
  of \<open>src/config/default.toml\<close> is such a section.
\<close>

theorem webhook_section_needs_targets:
  assumes "build [ConfigFile (path_join config_dir ''default.toml'') True,
                  ConfigFile (path_join config_dir (env @ ''.toml'')) False,
                  ConfigEnv ''NENDI'' ''__'' True] = Ok v"
    and "cfg_table C v = Ok fs" and "map_of fs ''webhook'' = Some w" and "\<not> cfg_is_nil C w"
    and "cfg_table C w = Ok ws" and "map_of ws ''targets'' = None"
  shows "\<not> (\<exists>cfg. load_config C build config_dir env = Ok cfg)"
  using assms
  by (auto simp: load_config_def de_NendiConfig_def opt_field_def de_WebhookConfig_def and_then_Ok_iff
      field_def [of _ "''targets''"])

theorem webhook_section_needs_targets_witness:
  "\<not> (\<exists>cfg. load_config toml_config (\<lambda>_. Ok default_toml) ''config'' ''development'' = Ok cfg)"
  by (rule webhook_section_needs_targets [OF refl, where C = toml_config
        and fs = "(''webhook'', TTable default_toml_webhook) # default_toml_base"
        and w = "TTable default_toml_webhook" and ws = default_toml_webhook])
    (simp_all add: default_toml_def toml_config_def default_toml_webhook_def)

end
