(* ===== verification/Storage.thy ===== *)
theory Storage
  imports Pipeline Proto Offsets Config
begin

text \<open>
  The event store \<open>src/core/src/storage/rocks\<close>: the options of \<open>config.rs\<close>, the tenant store of
  \<open>tenant.rs\<close>, the read filter of \<open>filter.rs\<close> and the compaction filter of \<open>compaction.rs\<close>.
  RocksDB itself is the parameter \<open>Rk\<close>, a record of the calls the sources make; the locale
  \<open>rocksdb\<close> states what its documentation promises of them.
\<close>

subsection \<open>Options\<close>

datatype CompressionType = NoCompression | Snappy | Lz4 | Zstd

record RocksConfig =
  data_dir :: string
  write_buffer_size :: usize
  max_write_buffers :: usize
  block_cache_size :: usize
  direct_io :: bool
  compression :: CompressionType
  ttl_secs :: u64

definition from_storage_config :: "StorageConfig \<Rightarrow> RocksConfig" where
  "from_storage_config cfg =
     (let compression =
        (if sc_compression cfg = ''none'' then NoCompression
         else if sc_compression cfg = ''snappy'' then Snappy
         else if sc_compression cfg = ''zstd'' then Zstd
         else Lz4)
      in \<lparr>data_dir = sc_data_dir cfg, write_buffer_size = sc_write_buffer_size cfg,
          max_write_buffers = sc_max_write_buffers cfg, block_cache_size = sc_block_cache_size cfg,
          direct_io = sc_direct_io cfg, compression = compression, ttl_secs = sc_ttl_secs cfg\<rparr>)"

text \<open>The options are the setters called on the default options, in order.\<close>

datatype opt_call =
    create_if_missing bool
  | create_missing_column_families bool
  | set_write_buffer_size usize
  | set_max_write_buffer_number i32
  | set_compression_type CompressionType
  | set_compaction_style_level
  | set_level_compaction_dynamic_level_bytes bool
  | enable_statistics

definition to_rocksdb_options :: "RocksConfig \<Rightarrow> opt_call list" where
  "to_rocksdb_options c =
     [create_if_missing True, create_missing_column_families True,
      set_write_buffer_size (write_buffer_size c),
      set_max_write_buffer_number (ucast (max_write_buffers c)),
      set_compression_type (compression c),
      set_compaction_style_level, set_level_compaction_dynamic_level_bytes True,
      enable_statistics]"

subsection \<open>The RocksDB interface\<close>

text \<open>
  \<open>rk_write db sync disable_wal puts\<close> is \<open>write_opt\<close> of a batch of \<open>put_cf\<close> calls, and
  \<open>rk_iter db cf key\<close> the items an iterator yields forward from \<open>key\<close>, an error last.
\<close>

record ('disk, 'db, 'cf) rocks_ops =
  rk_open_cf :: "opt_call list \<Rightarrow> string \<Rightarrow> string list \<Rightarrow> 'disk \<Rightarrow> ('db, string) rresult \<times> 'disk"
  rk_open :: "opt_call list \<Rightarrow> string \<Rightarrow> 'disk \<Rightarrow> ('db, string) rresult \<times> 'disk"
  rk_create_cf :: "'db \<Rightarrow> string \<Rightarrow> (unit, string) rresult \<times> 'db"
  rk_cf_handle :: "'db \<Rightarrow> string \<Rightarrow> 'cf option"
  rk_write :: "'db \<Rightarrow> bool \<Rightarrow> bool \<Rightarrow> ('cf \<times> bytes \<times> bytes) list \<Rightarrow> (unit, string) rresult \<times> 'db"
  rk_iter :: "'db \<Rightarrow> 'cf \<Rightarrow> bytes \<Rightarrow> (bytes \<times> bytes, string) rresult list"

subsection \<open>The tenant store\<close>

record 'db TenantStore =
  ts_db :: 'db
  ts_tenant_id :: TenantId

definition make_key :: "ChangeEvent \<Rightarrow> bytes" where
  "make_key event = to_be_bytes (ev_lsn event) @ to_be_bytes (ev_xid event)"

definition tenant_open ::
    "('disk, 'db, 'cf) rocks_ops \<Rightarrow> RocksConfig \<Rightarrow> TenantId \<Rightarrow> 'disk \<Rightarrow> ('db TenantStore, string) rresult" where
  "tenant_open Rk config tenant_id disk =
     (let opts = to_rocksdb_options config;
          cf = cf_name tenant_id;
          (res, disk) = rk_open_cf Rk opts (data_dir config) [cf] disk;
          opened =
            (case res of
               Ok db \<Rightarrow> Ok db
             | Err _ \<Rightarrow> and_then (fst (rk_open Rk opts (data_dir config) disk))
                 (\<lambda>db. let (made, db) = rk_create_cf Rk db cf in and_then made (\<lambda>_. Ok db))
             | Panic \<Rightarrow> Panic)
      in and_then opened (\<lambda>db. Ok \<lparr>ts_db = db, ts_tenant_id = tenant_id\<rparr>))"

definition cf_missing :: "string \<Rightarrow> string" where
  "cf_missing cf = ''column family '' @ [CHR 39] @ cf @ [CHR 39] @ '' not found''"

definition write_batch ::
    "('disk, 'db, 'cf) rocks_ops \<Rightarrow> 'db TenantStore \<Rightarrow> WriteBatch \<Rightarrow> (unit, string) rresult \<times> 'db TenantStore" where
  "write_batch Rk ts batch =
     (case rk_cf_handle Rk (ts_db ts) (cf_name (ts_tenant_id ts)) of
        None \<Rightarrow> (Err (cf_missing (cf_name (ts_tenant_id ts))), ts)
      | Some cf \<Rightarrow>
          let wb = map (\<lambda>event. (cf, make_key event, encode_event event)) (wb_events batch);
              (res, db) = rk_write Rk (ts_db ts) False False wb
          in (res, ts\<lparr>ts_db := db\<rparr>))"

text \<open>
  The loop of \<open>read_from\<close>: an undecodable value is logged and skipped, without a look at
  the limit; the limit is checked after an event was added.
\<close>

fun read_loop ::
    "nat \<Rightarrow> (bytes \<times> bytes, string) rresult list \<Rightarrow> ChangeEvent list \<Rightarrow> (ChangeEvent list, string) rresult" where
  "read_loop limit [] events = Ok events"
| "read_loop limit (Err e # _) events = Err e"
| "read_loop limit (Panic # _) events = Panic"
| "read_loop limit (Ok (_, v) # items) events =
     (case decode_event v of
        Ok event \<Rightarrow>
          let events = events @ [event]
          in if length events \<ge> limit then Ok events else read_loop limit items events
      | Err _ \<Rightarrow> read_loop limit items events
      | Panic \<Rightarrow> Panic)"

text \<open>
  \<open>Vec::with_capacity(limit)\<close> panics when the capacity exceeds \<open>isize::MAX\<close> bytes; \<open>sz\<close> is
  \<open>size_of::<ChangeEvent>()\<close>.
\<close>

definition read_from ::
    "('disk, 'db, 'cf) rocks_ops \<Rightarrow> nat \<Rightarrow> 'db TenantStore \<Rightarrow> lsn \<Rightarrow> nat \<Rightarrow> (ChangeEvent list, string) rresult" where
  "read_from Rk sz ts start_lsn limit =
     (case rk_cf_handle Rk (ts_db ts) (cf_name (ts_tenant_id ts)) of
        None \<Rightarrow> Err (cf_missing (cf_name (ts_tenant_id ts)))
      | Some cf \<Rightarrow>
          let items = rk_iter Rk (ts_db ts) cf (lsn_to_be_bytes start_lsn)
          in if limit * sz > 2 ^ 63 - 1 then Panic else read_loop limit items [])"

subsection \<open>The read filter and the compaction filter\<close>

record ReadFilter =
  rf_tables :: "string list option"
  rf_min_lsn :: lsn
  rf_max_lsn :: lsn

definition read_filter_new :: ReadFilter where
  "read_filter_new = \<lparr>rf_tables = None, rf_min_lsn = lsn_zero, rf_max_lsn = lsn_max\<rparr>"

definition with_tables :: "ReadFilter \<Rightarrow> string list \<Rightarrow> ReadFilter" where
  "with_tables f tables = f\<lparr>rf_tables := Some tables\<rparr>"

definition with_lsn_range :: "ReadFilter \<Rightarrow> lsn \<Rightarrow> lsn \<Rightarrow> ReadFilter" where
  "with_lsn_range f lo hi = f\<lparr>rf_min_lsn := lo, rf_max_lsn := hi\<rparr>"

definition read_accept :: "ReadFilter \<Rightarrow> ChangeEvent \<Rightarrow> bool" where
  "read_accept f event =
     (let lsn = event_lsn event
      in if lsn < rf_min_lsn f \<or> lsn > rf_max_lsn f then False
         else case rf_tables f of
                Some tables \<Rightarrow>
                  (if \<not> list_ex (\<lambda>t. t = qualified_name (ev_table event)) tables then False else True)
              | None \<Rightarrow> True)"

definition key_might_match :: "ReadFilter \<Rightarrow> bytes \<Rightarrow> bool" where
  "key_might_match f key =
     (if length key < 8 then False
      else let lsn = lsn_from_be_bytes (take 8 key) in lsn \<ge> rf_min_lsn f \<and> lsn \<le> rf_max_lsn f)"

datatype Decision = Keep | RemoveKey

record EventGcFilter =
  watermark_lsn_bytes :: bytes

definition gc_filter_new :: "u64 \<Rightarrow> EventGcFilter" where
  "gc_filter_new watermark_lsn = \<lparr>watermark_lsn_bytes = to_be_bytes watermark_lsn\<rparr>"

definition gc_filter :: "EventGcFilter \<Rightarrow> u32 \<Rightarrow> bytes \<Rightarrow> bytes \<Rightarrow> Decision" where
  "gc_filter f level key val =
     (if length key \<ge> 8 \<and> take 8 key < watermark_lsn_bytes f then RemoveKey else Keep)"

subsection \<open>Keys\<close>

lemma make_key_length [simp]: "length (make_key e) = 12"
  by (simp add: make_key_def)

lemma take_make_key: "take 8 (make_key e) = lsn_to_be_bytes (event_lsn e)"
  by (simp add: make_key_def lsn_to_be_bytes_def event_lsn_def)

lemma make_key_less:
  "make_key a < make_key b \<longleftrightarrow> ev_lsn a < ev_lsn b \<or> ev_lsn a = ev_lsn b \<and> ev_xid a < ev_xid b"
  by (simp add: make_key_def list_less_append to_be_bytes_less to_be_bytes_inj)

lemma make_key_eq: "make_key a = make_key b \<longleftrightarrow> ev_lsn a = ev_lsn b \<and> ev_xid a = ev_xid b"
  by (simp add: make_key_def to_be_bytes_inj)

lemma start_le_key: "lsn_to_be_bytes l \<le> make_key e \<longleftrightarrow> l \<le> event_lsn e"
proof -
  have "make_key e < lsn_to_be_bytes l \<longleftrightarrow> event_lsn e < l"
    using list_less_append [of "to_be_bytes (ev_lsn e)" "lsn_to_be_bytes l" "to_be_bytes (ev_xid e)" "[]"]
    by (simp add: make_key_def event_lsn_def lsn_to_be_bytes_def to_be_bytes_less less_lsn_def)
  then show ?thesis by (meson linorder_not_less)
qed

subsection \<open>The contract of the store\<close>

definition apply_puts ::
    "('cf \<Rightarrow> string) \<Rightarrow> string \<Rightarrow> ('cf \<times> bytes \<times> bytes) list \<Rightarrow> (bytes \<rightharpoonup> bytes) \<Rightarrow> (bytes \<rightharpoonup> bytes)" where
  "apply_puts cfname n puts = fold (\<lambda>(h, k, v) m. if cfname h = n then m(k \<mapsto> v) else m) puts"

text \<open>The entries of a column family from a key on, in key order.\<close>

definition entries :: "(bytes \<rightharpoonup> bytes) \<Rightarrow> bytes \<Rightarrow> (bytes \<times> bytes) list \<Rightarrow> bool" where
  "entries m start xs \<longleftrightarrow>
     sorted_wrt (<) (map fst xs) \<and> set xs = {(k, v). m k = Some v \<and> start \<le> k}"

locale rocksdb =
  fixes Rk :: "('disk, 'db, 'cf) rocks_ops"
    and content :: "'db \<Rightarrow> string \<Rightarrow> (bytes \<rightharpoonup> bytes) option"
    and cfname :: "'cf \<Rightarrow> string"
  assumes cf_handle: "rk_cf_handle Rk db n = Some h \<Longrightarrow> cfname h = n"
    and cf_handle_None: "rk_cf_handle Rk db n = None \<longleftrightarrow> content db n = None"
    and write_ok: "rk_write Rk db sync nowal puts = (Ok u, db') \<Longrightarrow>
      content db' n = map_option (apply_puts cfname n puts) (content db n)"
    and write_err: "rk_write Rk db sync nowal puts = (Err e, db') \<Longrightarrow> content db' = content db"
    and write_returns: "fst (rk_write Rk db sync nowal puts) \<noteq> Panic"
    and iter: "content db (cfname h) = Some m \<Longrightarrow>
      \<exists>xs. entries m start xs \<and>
        (rk_iter Rk db h start = map Ok xs \<or> (\<exists>n e. rk_iter Rk db h start = map Ok (take n xs) @ [Err e]))"
    and open_cf: "rk_open_cf Rk opts path cfs disk = (Ok db, disk') \<Longrightarrow> n \<in> set cfs \<Longrightarrow>
      content db n \<noteq> None"
    and create_cf: "rk_create_cf Rk db n = (Ok u, db') \<Longrightarrow> content db' n = Some Map.empty"

lemma entries_unique: "entries m start xs \<Longrightarrow> entries m start ys \<Longrightarrow> xs = ys"
proof -
  assume "entries m start xs" and "entries m start ys"
  then have srt: "sorted_wrt (\<lambda>x y. fst x < fst y) xs" "sorted_wrt (\<lambda>x y. fst x < fst y) ys"
    and eq: "set xs = set ys"
    by (simp_all add: entries_def sorted_wrt_map)
  show "xs = ys"
    using srt eq
  proof (induction xs arbitrary: ys)
    case (Cons x xs)
    then obtain y ys' where ys: "ys = y # ys'" by (cases ys) auto
    have "x = y"
    proof (rule ccontr)
      assume "x \<noteq> y"
      then have "x \<in> set ys'" "y \<in> set xs" using Cons.prems(3) by (auto simp: ys)
      then show False using Cons.prems(1,2) by (auto simp: ys dest: less_asym)
    qed
    moreover have "x \<notin> set xs" "y \<notin> set ys'" using Cons.prems(1,2) by (auto simp: ys)
    then have "set xs = set ys'"
      using Cons.prems(3) \<open>x = y\<close> by (auto simp: ys)
    ultimately show ?case using Cons.IH [of ys'] Cons.prems by (simp add: ys)
  qed simp
qed

subsection \<open>What the store holds\<close>

text \<open>The events that no later one with the same key replaced.\<close>

fun latest :: "ChangeEvent list \<Rightarrow> ChangeEvent list" where
  "latest [] = []"
| "latest (e # es) = (if make_key e \<in> make_key ` set es then latest es else e # latest es)"

abbreviation entry_of :: "ChangeEvent \<Rightarrow> bytes \<times> bytes" where
  "entry_of e \<equiv> (make_key e, encode_event e)"

lemma latest_keys: "make_key ` set (latest es) = make_key ` set es"
  by (induction es) auto

lemma latest_subset: "set (latest es) \<subseteq> set es"
  by (induction es) auto

lemma latest_distinct: "distinct (map make_key (latest es))"
  by (induction es) (simp_all add: latest_keys)

lemma latest_id: "distinct (map make_key es) \<Longrightarrow> latest es = es"
  by (induction es) auto

lemma put_events:
  "fold (\<lambda>e m. m(make_key e \<mapsto> encode_event e)) es m = m ++ map_of (map entry_of (latest es))"
proof (induction es arbitrary: m)
  case (Cons e es)
  have "(m(make_key e \<mapsto> encode_event e)) ++ map_of (map entry_of (latest es))
      = m ++ map_of (map entry_of (latest (e # es)))"
  proof (cases "make_key e \<in> make_key ` set es")
    case True
    then have "make_key e \<in> dom (map_of (map entry_of (latest es)))"
      by (simp add: dom_map_of_conv_image_fst image_image latest_keys)
    then show ?thesis using True by (auto simp: map_add_def fun_eq_iff split: option.split)
  next
    case False
    then have "map_of (map entry_of (latest es)) (make_key e) = None"
      by (simp add: map_of_eq_None_iff image_image latest_keys)
    then show ?thesis using False by (auto simp: map_add_def fun_eq_iff split: option.split)
  qed
  then show ?case by (simp only: fold_simps Cons.IH)
qed simp

definition event_entries :: "lsn \<Rightarrow> ChangeEvent list \<Rightarrow> ChangeEvent list" where
  "event_entries start es = filter (\<lambda>e. start \<le> event_lsn e) (sort_key make_key (latest es))"

lemma entries_stored:
  "entries (map_of (map entry_of (latest es))) (lsn_to_be_bytes start)
     (map entry_of (event_entries start es))"
proof -
  have "sorted_wrt (<) (map make_key (sort_key make_key (latest es)))"
    using latest_distinct [of es]
    by (simp add: strict_sorted_iff distinct_map)
  then have "sorted_wrt (<) (map make_key (event_entries start es))"
    by (simp add: event_entries_def sorted_wrt_map sorted_wrt_filter)
  moreover have "set (map entry_of (event_entries start es)) =
      {(k, v). map_of (map entry_of (latest es)) k = Some v \<and> lsn_to_be_bytes start \<le> k}"
    using latest_distinct [of es]
    by (auto simp: event_entries_def map_of_eq_Some_iff start_le_key comp_def)
  ultimately show ?thesis by (simp add: entries_def comp_def)
qed

subsection \<open>Histories of a store\<close>

text \<open>A sequence of \<open>write_batch\<close> calls, with the events of the acknowledged batches.\<close>

definition write_step ::
    "('disk, 'db, 'cf) rocks_ops \<Rightarrow> WriteBatch \<Rightarrow> ChangeEvent list \<times> 'db TenantStore
     \<Rightarrow> ChangeEvent list \<times> 'db TenantStore" where
  "write_step Rk b = (\<lambda>(acked, ts).
     case write_batch Rk ts b of (Ok _, ts') \<Rightarrow> (acked @ wb_events b, ts') | (_, ts') \<Rightarrow> (acked, ts'))"

definition iter_clean :: "('disk, 'db, 'cf) rocks_ops \<Rightarrow> 'db TenantStore \<Rightarrow> lsn \<Rightarrow> bool" where
  "iter_clean Rk ts start =
     (case rk_cf_handle Rk (ts_db ts) (cf_name (ts_tenant_id ts)) of
        None \<Rightarrow> False
      | Some cf \<Rightarrow> list_all (\<lambda>r. case r of Ok _ \<Rightarrow> True | _ \<Rightarrow> False)
                    (rk_iter Rk (ts_db ts) cf (lsn_to_be_bytes start)))"

definition compacted :: "EventGcFilter \<Rightarrow> (bytes \<rightharpoonup> bytes) \<Rightarrow> (bytes \<rightharpoonup> bytes) \<Rightarrow> bool" where
  "compacted f m m' \<longleftrightarrow> m' \<subseteq>\<^sub>m m \<and>
     (\<forall>k v. m k = Some v \<and> m' k = None \<longrightarrow> (\<exists>level. gc_filter f level k v = RemoveKey))"

lemma apply_puts_events:
  "apply_puts cfname n (map (\<lambda>e. (h, make_key e, encode_event e)) es) m =
     (if cfname h = n then fold (\<lambda>e m. m(make_key e \<mapsto> encode_event e)) es m else m)"
  by (induction es arbitrary: m) (auto simp: apply_puts_def)

lemma read_loop_events:
  assumes "list_all wire_ok es"
  shows "read_loop limit (map Ok (map entry_of es)) evs =
     Ok (if es = [] then evs else take (max limit (Suc (length evs))) (evs @ es))"
  using assms
proof (induction es arbitrary: evs)
  case (Cons e es)
  have dec: "decode_event (encode_event e) = Ok e"
    using Cons.prems decode_encode_event [of e "encode_event e" "[]"] by simp
  show ?case
  proof (cases "limit \<le> Suc (length evs)")
    case False
    then have "max limit (Suc (Suc (length evs))) = max limit (Suc (length evs))" by simp
    with False Cons dec show ?thesis by (auto simp: Let_def)
  qed (simp add: dec Let_def max_absorb2)
qed simp

lemma compacted_entries:
  assumes "compacted (gc_filter_new (get w)) m m'" and "w \<le> start"
    and "entries m (lsn_to_be_bytes start) xs"
  shows "entries m' (lsn_to_be_bytes start) xs"
proof -
  let ?s = "lsn_to_be_bytes start"
  have keep: "gc_filter (gc_filter_new (get w)) level k v = Keep" if "?s \<le> k" for level k v
  proof (rule ccontr)
    assume "gc_filter (gc_filter_new (get w)) level k v \<noteq> Keep"
    then have k: "length k \<ge> 8" "take 8 k < lsn_to_be_bytes w"
      by (auto simp: gc_filter_def gc_filter_new_def lsn_to_be_bytes_def split: if_splits)
    have "take 8 k < ?s" using k(2) assms(2) by (meson lsn_to_be_bytes_le order.strict_trans2)
    then have "take 8 k @ drop 8 k < ?s @ []"
      using k(1) by (subst list_less_append) simp_all
    then show False using that by simp
  qed
  have "m' k = Some v \<longleftrightarrow> m k = Some v" if "?s \<le> k" for k v
  proof (cases "m' k")
    case None
    have "m k \<noteq> Some v"
    proof
      assume "m k = Some v"
      with None assms(1) obtain level where "gc_filter (gc_filter_new (get w)) level k v = RemoveKey"
        unfolding compacted_def by blast
      then show False by (simp add: keep [OF that])
    qed
    with None show ?thesis by simp
  qed (use assms(1) in \<open>auto simp: compacted_def map_le_def dom_def\<close>)
  then show ?thesis using assms(3) by (auto simp: entries_def)
qed

context rocksdb
begin

abbreviation holds :: "'db TenantStore \<Rightarrow> (bytes \<rightharpoonup> bytes) \<Rightarrow> bool" where
  "holds ts m \<equiv> content (ts_db ts) (cf_name (ts_tenant_id ts)) = Some m"

lemma clean_read:
  assumes "holds ts m" and "iter_clean Rk ts start" and "limit * sz < 2 ^ 63"
  shows "\<exists>xs. entries m (lsn_to_be_bytes start) xs \<and>
     read_from Rk sz ts start limit = read_loop limit (map Ok xs) []"
proof -
  obtain h where h: "rk_cf_handle Rk (ts_db ts) (cf_name (ts_tenant_id ts)) = Some h"
    using cf_handle_None [of "ts_db ts" "cf_name (ts_tenant_id ts)"] assms(1)
    by (cases "rk_cf_handle Rk (ts_db ts) (cf_name (ts_tenant_id ts))") auto
  have m: "content (ts_db ts) (cfname h) = Some m"
    using assms(1) cf_handle [OF h] by simp
  from iter [OF m, of "lsn_to_be_bytes start"] assms(2)
  obtain xs where "entries m (lsn_to_be_bytes start) xs"
    "rk_iter Rk (ts_db ts) h (lsn_to_be_bytes start) = map Ok xs"
    by (auto simp: iter_clean_def h)
  then show ?thesis using assms(3) by (auto simp: read_from_def h)
qed

lemma write_step_result:
  assumes "write_step Rk b (acked, ts) = (acked', ts')"
  shows "ts_tenant_id ts' = ts_tenant_id ts \<and>
     ((acked' = acked \<and> content (ts_db ts') = content (ts_db ts)) \<or>
       (acked' = acked @ wb_events b \<and>
        (\<forall>n. content (ts_db ts') n = map_option
           (if n = cf_name (ts_tenant_id ts)
            then fold (\<lambda>e m. m(make_key e \<mapsto> encode_event e)) (wb_events b) else id)
           (content (ts_db ts) n))))"
proof (cases "rk_cf_handle Rk (ts_db ts) (cf_name (ts_tenant_id ts))")
  case (Some h)
  let ?wb = "map (\<lambda>e. (h, make_key e, encode_event e)) (wb_events b)"
  obtain res db where w: "rk_write Rk (ts_db ts) False False ?wb = (res, db)" by fastforce
  have puts: "apply_puts cfname n ?wb = (if n = cf_name (ts_tenant_id ts)
      then fold (\<lambda>e m. m(make_key e \<mapsto> encode_event e)) (wb_events b) else id)" for n
    using cf_handle [OF Some] by (auto simp: fun_eq_iff apply_puts_events)
  show ?thesis
    using assms Some w write_ok [of "ts_db ts" False False ?wb _ db] write_err [of "ts_db ts" False False ?wb _ db]
      write_returns [of "ts_db ts" False False ?wb]
    by (cases res) (auto simp: write_step_def write_batch_def puts [symmetric])
qed (use assms in \<open>auto simp: write_step_def write_batch_def\<close>)

lemma write_steps_holds:
  assumes "holds ts (fold (\<lambda>e m. m(make_key e \<mapsto> encode_event e)) acked Map.empty)"
    and "fold (write_step Rk) bs (acked, ts) = (acked', ts')"
  shows "holds ts' (fold (\<lambda>e m. m(make_key e \<mapsto> encode_event e)) acked' Map.empty)"
  using assms
proof (induction bs arbitrary: acked ts)
  case (Cons b bs)
  obtain a1 t1 where s1: "write_step Rk b (acked, ts) = (a1, t1)" by fastforce
  have "holds t1 (fold (\<lambda>e m. m(make_key e \<mapsto> encode_event e)) a1 Map.empty)"
    using Cons.prems(1) write_step_result [OF s1] by (auto simp del: fun_upd_apply)
  from Cons.IH [OF this] Cons.prems(2) s1 show ?case by simp
qed simp

lemma write_steps_other:
  assumes "fold (write_step Rk) bs (acked, ts) = (acked', ts')" and "n \<noteq> cf_name (ts_tenant_id ts)"
  shows "content (ts_db ts') n = content (ts_db ts) n"
  using assms
proof (induction bs arbitrary: acked ts)
  case (Cons b bs)
  obtain a1 t1 where s1: "write_step Rk b (acked, ts) = (a1, t1)" by fastforce
  with Cons.IH [of a1 t1] Cons.prems write_step_result [OF s1] show ?case
    by (auto simp: option.map_id)
qed simp

end

context rocksdb
begin

lemma read_acked:
  assumes "holds ts Map.empty" and "fold (write_step Rk) batches ([], ts) = (acked, ts')"
    and "list_all wire_ok acked" and "iter_clean Rk ts' start" and "limit * sz < 2 ^ 63"
  shows "read_from Rk sz ts' start limit = Ok (take (max 1 limit) (event_entries start acked))"
proof -
  let ?m = "map_of (map entry_of (latest acked))"
  have "holds ts' (fold (\<lambda>e m. m(make_key e \<mapsto> encode_event e)) acked Map.empty)"
    using write_steps_holds [OF _ assms(2)] assms(1)
    by (auto simp del: fun_upd_apply)
  then have "holds ts' ?m" by (simp only: put_events empty_map_add)
  from clean_read [OF this assms(4,5)] obtain xs where
    xs: "entries ?m (lsn_to_be_bytes start) xs"
    and rd: "read_from Rk sz ts' start limit = read_loop limit (map Ok xs) []"
    by blast
  have "xs = map entry_of (event_entries start acked)"
    by (rule entries_unique [OF xs entries_stored])
  moreover have "list_all wire_ok (event_entries start acked)"
    using assms(3) latest_subset [of acked] by (auto simp: list_all_iff event_entries_def)
  ultimately show ?thesis
    by (simp only: rd read_loop_events) (simp add: max.commute)
qed

lemma read_unchanged:
  assumes "holds ts m" and "holds ts' m'"
    and "\<And>xs. entries m (lsn_to_be_bytes start) xs \<Longrightarrow> entries m' (lsn_to_be_bytes start) xs"
    and "iter_clean Rk ts start" and "iter_clean Rk ts' start" and "limit * sz < 2 ^ 63"
  shows "read_from Rk sz ts' start limit = read_from Rk sz ts start limit"
proof -
  from clean_read [OF assms(1,4,6)] obtain xs where xs: "entries m (lsn_to_be_bytes start) xs"
    "read_from Rk sz ts start limit = read_loop limit (map Ok xs) []" by blast
  from clean_read [OF assms(2,5,6)] obtain ys where ys: "entries m' (lsn_to_be_bytes start) ys"
    "read_from Rk sz ts' start limit = read_loop limit (map Ok ys) []" by blast
  have "ys = xs" by (rule entries_unique [OF ys(1) assms(3) [OF xs(1)]])
  with xs ys show ?thesis by simp
qed

lemma open_has_cf:
  assumes "tenant_open Rk config tenant disk = Ok ts"
  shows "ts_tenant_id ts = tenant \<and> content (ts_db ts) (cf_name tenant) \<noteq> None"
proof -
  let ?opts = "to_rocksdb_options config"
  obtain res disk' where o: "rk_open_cf Rk ?opts (data_dir config) [cf_name tenant] disk = (res, disk')"
    by fastforce
  show ?thesis
  proof (cases res)
    case (Ok db)
    then show ?thesis using assms open_cf [of ?opts _ _ disk db disk' "cf_name tenant"] o
      by (auto simp: tenant_open_def)
  next
    case (Err e)
    with assms o obtain db db' where c: "rk_create_cf Rk db (cf_name tenant) = (Ok (), db')"
      and ts: "ts = \<lparr>ts_db = db', ts_tenant_id = tenant\<rparr>"
      by (auto simp: tenant_open_def and_then_Ok_iff Let_def split_beta prod_eq_iff)
    show ?thesis using create_cf [OF c] by (simp add: ts)
  qed (use assms o in \<open>simp add: tenant_open_def\<close>)
qed

end

subsection \<open>A store in memory\<close>

type_synonym mem_db = "(string, (bytes, bytes) alist) alist"

definition mem_put :: "string \<times> bytes \<times> bytes \<Rightarrow> mem_db \<Rightarrow> mem_db" where
  "mem_put = (\<lambda>(h, k, v) db. case DAList.lookup db h of
     None \<Rightarrow> db | Some m \<Rightarrow> DAList.update h (DAList.update k v m) db)"

definition mem_add_cf :: "string \<Rightarrow> mem_db \<Rightarrow> mem_db" where
  "mem_add_cf n db = (case DAList.lookup db n of None \<Rightarrow> DAList.update n DAList.empty db | Some _ \<Rightarrow> db)"

definition mem_rocks :: "(mem_db, mem_db, string) rocks_ops" where
  "mem_rocks =
     \<lparr>rk_open_cf = (\<lambda>opts path cfs disk. (Ok (fold mem_add_cf cfs disk), disk)),
      rk_open = (\<lambda>opts path disk. (Ok disk, disk)),
      rk_create_cf = (\<lambda>db n. case DAList.lookup db n of
         None \<Rightarrow> (Ok (), mem_add_cf n db) | Some _ \<Rightarrow> (Err ''column family exists'', db)),
      rk_cf_handle = (\<lambda>db n. map_option (\<lambda>_. n) (DAList.lookup db n)),
      rk_write = (\<lambda>db sync nowal puts. (Ok (), fold mem_put puts db)),
      rk_iter = (\<lambda>db h start. case DAList.lookup db h of
         None \<Rightarrow> [] | Some m \<Rightarrow> map Ok (sort_key fst (filter (\<lambda>(k, v). start \<le> k) (DAList.impl_of m))))\<rparr>"

definition mem_content :: "mem_db \<Rightarrow> string \<Rightarrow> (bytes \<rightharpoonup> bytes) option" where
  "mem_content db n = map_option DAList.lookup (DAList.lookup db n)"

lemma mem_put_content:
  "mem_content (mem_put (h, k, v) db) n =
     map_option (\<lambda>m. if h = n then m(k \<mapsto> v) else m) (mem_content db n)"
  by (cases "h = n"; cases "DAList.lookup db h"; cases "DAList.lookup db n")
    (auto simp: mem_content_def mem_put_def fun_eq_iff)

lemma mem_puts_content:
  "mem_content (fold mem_put puts db) n = map_option (apply_puts id n puts) (mem_content db n)"
proof (induction puts arbitrary: db)
  case Nil
  show ?case by (cases "mem_content db n") (simp_all add: apply_puts_def)
next
  case (Cons p puts)
  then show ?case
    by (cases p; cases "mem_content db n") (simp_all add: mem_put_content apply_puts_def)
qed

lemma mem_add_cf_content: "mem_content (mem_add_cf c db) n \<noteq> None \<longleftrightarrow> n = c \<or> mem_content db n \<noteq> None"
  by (cases "n = c"; cases "DAList.lookup db c") (simp_all add: mem_content_def mem_add_cf_def)

lemma mem_add_cfs_content:
  "mem_content (fold mem_add_cf cs db) n \<noteq> None \<longleftrightarrow> n \<in> set cs \<or> mem_content db n \<noteq> None"
  by (induction cs arbitrary: db) (auto simp: mem_add_cf_content simp del: not_None_eq)

lemma mem_entries:
  "entries (DAList.lookup m) start (sort_key fst (filter (\<lambda>(k, v). start \<le> k) (DAList.impl_of m)))"
proof -
  let ?xs = "filter (\<lambda>(k, v). start \<le> k) (DAList.impl_of m)"
  have "distinct (map fst ?xs)" by (simp add: distinct_map_filter)
  then have "sorted_wrt (<) (map fst (sort_key fst ?xs))"
    by (simp add: strict_sorted_iff distinct_map)
  moreover have "(k, v) \<in> set (DAList.impl_of m) \<longleftrightarrow> DAList.lookup m k = Some v" for k v
    by (simp add: DAList.lookup_def map_of_eq_Some_iff)
  ultimately show ?thesis by (auto simp: entries_def)
qed

interpretation mem_rk: rocksdb mem_rocks mem_content id
proof
  fix db :: mem_db and h n :: string and m start
  show "rk_cf_handle mem_rocks db n = None \<longleftrightarrow> mem_content db n = None"
    by (simp add: mem_rocks_def mem_content_def)
  show "\<exists>xs. entries m start xs \<and> (rk_iter mem_rocks db h start = map Ok xs \<or>
      (\<exists>n e. rk_iter mem_rocks db h start = map Ok (take n xs) @ [Err e]))"
    if "mem_content db (id h) = Some m"
    using that mem_entries by (fastforce simp: mem_rocks_def mem_content_def)
  fix u db'
  show "mem_content db' n = Some Map.empty" if "rk_create_cf mem_rocks db n = (Ok u, db')"
    using that
    by (auto simp: mem_rocks_def mem_content_def mem_add_cf_def fun_eq_iff split: option.splits)
  show "mem_content db n \<noteq> None"
    if "rk_open_cf mem_rocks opts path cfs disk = (Ok db, disk')" "n \<in> set cfs" for opts path cfs disk disk'
    using that mem_add_cfs_content [of cfs disk n] by (auto simp: mem_rocks_def)
qed (auto simp: mem_rocks_def mem_puts_content)

definition mem_store :: "TenantId \<Rightarrow> mem_db TenantStore" where
  "mem_store t = \<lparr>ts_db = mem_add_cf (cf_name t) DAList.empty, ts_tenant_id = t\<rparr>"

definition sample_batch :: WriteBatch where
  "sample_batch = batch_push 200 batch_new sample_event"

lemma mem_iter_clean: "rk_cf_handle mem_rocks (ts_db ts) (cf_name (ts_tenant_id ts)) \<noteq> None \<Longrightarrow>
    iter_clean mem_rocks ts start"
  by (auto simp: iter_clean_def mem_rocks_def list_all_iff split: option.splits)

lemma mem_store_content: "mem_content (ts_db (mem_store t)) (cf_name (ts_tenant_id (mem_store t))) = Some Map.empty"
  by (simp add: mem_store_def mem_content_def mem_add_cf_def fun_eq_iff)

text \<open>The store in memory after writing some batches.\<close>

definition mem_written :: "WriteBatch list \<Rightarrow> TenantId \<Rightarrow> mem_db TenantStore" where
  "mem_written bs t = snd (fold (write_step mem_rocks) bs ([], mem_store t))"

lemma mem_write_steps:
  "rk_cf_handle mem_rocks (ts_db ts) (cf_name (ts_tenant_id ts)) \<noteq> None \<Longrightarrow>
     fold (write_step mem_rocks) bs (acked, ts) = (acked', ts') \<Longrightarrow>
     acked' = acked @ concat (map wb_events bs)
     \<and> rk_cf_handle mem_rocks (ts_db ts') (cf_name (ts_tenant_id ts')) \<noteq> None"
proof (induction bs arbitrary: acked ts)
  case (Cons b bs)
  let ?h = "cf_name (ts_tenant_id ts)"
  let ?puts = "map (\<lambda>e. (?h, make_key e, encode_event e)) (wb_events b)"
  let ?ts = "ts\<lparr>ts_db := fold mem_put ?puts (ts_db ts)\<rparr>"
  have cf: "DAList.lookup (ts_db ts) ?h \<noteq> None" using Cons.prems(1) by (simp add: mem_rocks_def)
  then have step: "write_step mem_rocks b (acked, ts) = (acked @ wb_events b, ?ts)"
    by (auto simp: write_step_def write_batch_def mem_rocks_def)
  have "DAList.lookup (ts_db ?ts) ?h \<noteq> None"
    using mem_puts_content [of ?puts "ts_db ts" ?h] cf by (auto simp: mem_content_def)
  then have h: "rk_cf_handle mem_rocks (ts_db ?ts) (cf_name (ts_tenant_id ?ts)) \<noteq> None"
    by (simp add: mem_rocks_def)
  have "fold (write_step mem_rocks) bs (acked @ wb_events b, ?ts) = (acked', ts')"
    using Cons.prems(2) step by simp
  from Cons.IH [OF h this] show ?case by simp
qed simp

lemma mem_written:
  "fold (write_step mem_rocks) bs ([], mem_store t) = (concat (map wb_events bs), mem_written bs t)"
  "iter_clean mem_rocks (mem_written bs t) start"
proof -
  obtain acked ts' where r: "fold (write_step mem_rocks) bs ([], mem_store t) = (acked, ts')" by fastforce
  have "rk_cf_handle mem_rocks (ts_db (mem_store t)) (cf_name (ts_tenant_id (mem_store t))) \<noteq> None"
    by (simp add: mem_rocks_def mem_store_def mem_add_cf_def)
  from mem_write_steps [OF this r]
  show "fold (write_step mem_rocks) bs ([], mem_store t) = (concat (map wb_events bs), mem_written bs t)"
    "iter_clean mem_rocks (mem_written bs t) start"
    by (simp_all add: r mem_written_def mem_iter_clean)
qed

definition demo_store :: "ChangeEvent list \<Rightarrow> mem_db TenantStore" where
  "demo_store es = \<lparr>ts_db = DAList.update (cf_name default_tenant)
       (fold (\<lambda>e. DAList.update (make_key e) (encode_event e)) es DAList.empty) DAList.empty,
     ts_tenant_id = default_tenant\<rparr>"

lemma demo_store_content:
  "mem_content (ts_db (demo_store es)) (cf_name (ts_tenant_id (demo_store es))) =
     Some (fold (\<lambda>e m. m(make_key e \<mapsto> encode_event e)) es Map.empty)"
proof -
  have "DAList.lookup (fold (\<lambda>e. DAList.update (make_key e) (encode_event e)) es d) =
      fold (\<lambda>e m. m(make_key e \<mapsto> encode_event e)) es (DAList.lookup d)" for d
  proof (induction es arbitrary: d)
    case (Cons e es)
    have "DAList.lookup (DAList.update (make_key e) (encode_event e) d) =
        (DAList.lookup d)(make_key e \<mapsto> encode_event e)" by (simp add: fun_eq_iff)
    with Cons.IH show ?case by (simp del: fun_upd_apply)
  qed simp
  moreover have "DAList.lookup (DAList.empty :: (bytes, bytes) alist) = Map.empty" by (simp add: fun_eq_iff)
  ultimately have "DAList.lookup (fold (\<lambda>e. DAList.update (make_key e) (encode_event e)) es DAList.empty)
      = fold (\<lambda>e m. m(make_key e \<mapsto> encode_event e)) es Map.empty" by (simp only:)
  then show ?thesis by (simp add: demo_store_def mem_content_def del: fun_upd_apply)
qed

lemma demo_store_clean: "iter_clean mem_rocks (demo_store es) start"
  by (rule mem_iter_clean) (simp add: demo_store_def mem_rocks_def)

lemma demo_compacted:
  "compacted (gc_filter_new 5)
     (fold (\<lambda>e m. m(make_key e \<mapsto> encode_event e)) [demo_event 3, demo_event 9] Map.empty)
     (fold (\<lambda>e m. m(make_key e \<mapsto> encode_event e)) [demo_event 9] Map.empty)"
proof -
  have "make_key (demo_event 3) \<noteq> make_key (demo_event 9)"
    by (simp add: make_key_eq demo_event_def)
  moreover have "gc_filter (gc_filter_new 5) 0 (make_key (demo_event 3)) v = RemoveKey" for v
    by (simp add: gc_filter_def gc_filter_new_def take_make_key lsn_to_be_bytes_def to_be_bytes_less
        event_lsn_def demo_event_def)
  ultimately show ?thesis by (auto simp: compacted_def map_le_def)
qed

definition demo_gc :: "(string, lsn) alist GcScheduler" where
  "demo_gc = (scheduler_new alist_dashmap 1)\<lparr>gc_watermark :=
     tracker_update alist_dashmap (tracker_new alist_dashmap) ''a'' (Lsn 5)\<rparr>"

lemma demo_gc_run: "fst (maybe_gc alist_dashmap demo_gc) = Some (Lsn 5)"
  by code_simp

subsection \<open>Properties\<close>

text \<open>
  C3. A tenant store gives back what was acknowledged. After any sequence of batch writes to an
  empty column family, some of which may have failed, reading from an LSN without an iterator
  error returns the acknowledged events from that LSN on in key order, cut off at the limit (a
  limit of zero counts as one); of several events with the same key it returns the last one.
\<close>

theorem read_after_write:
  assumes "rocksdb Rk content cfname"
    and "content (ts_db ts) (cf_name (ts_tenant_id ts)) = Some Map.empty"
    and "fold (write_step Rk) batches ([], ts) = (acked, ts')"
    and "list_all wire_ok acked" and "iter_clean Rk ts' start" and "limit * sz < 2 ^ 63"
  shows "read_from Rk sz ts' start limit =
     Ok (take (max 1 limit) (filter (\<lambda>e. start \<le> event_lsn e) (sort_key make_key (latest acked))))"
  using rocksdb.read_acked [OF assms] by (simp add: event_entries_def)

theorem read_after_write_witness:
  "read_from mem_rocks 200 (mem_written [sample_batch] default_tenant) (event_lsn sample_event) 10 = Ok [sample_event]"
proof -
  have acked: "fold (write_step mem_rocks) [sample_batch] ([], mem_store default_tenant) =
      ([sample_event], mem_written [sample_batch] default_tenant)"
    using mem_written(1) [of "[sample_batch]" default_tenant] by (simp add: sample_batch_def)
  from read_after_write [OF mem_rk.rocksdb_axioms mem_store_content acked _ mem_written(2), of 10 200 "event_lsn sample_event"]
  show ?thesis using wire_ok_sample by simp
qed

text \<open>
  C6. Collecting garbage never takes an event a consumer may still read. When the scheduler
  hands out a watermark and a compaction runs the event filter with it, removing any of the
  entries the filter condemns, then for every consumer the watermark tracker knows, a read from
  its confirmed LSN or later returns exactly what it returned before.
\<close>

theorem gc_keeps_unread:
  assumes "offset_map D" and "rocksdb Rk content cfname"
    and "maybe_gc D g = (Some w, g')" and "dm_get D (consumers (gc_watermark g)) c = Some l"
    and "l \<le> start"
    and "content (ts_db ts) (cf_name (ts_tenant_id ts)) = Some m"
    and "content (ts_db ts') (cf_name (ts_tenant_id ts')) = Some m'"
    and "compacted (gc_filter_new (get w)) m m'"
    and "iter_clean Rk ts start" and "iter_clean Rk ts' start" and "limit * sz < 2 ^ 63"
  shows "read_from Rk sz ts' start limit = read_from Rk sz ts start limit"
proof -
  have "w = tracker_watermark D (gc_watermark g)"
    using assms(3) by (auto simp: maybe_gc_def Let_def split: if_splits)
  then have "w \<le> start"
    using offset_map.tracker_le [OF assms(1,4)] assms(5) by simp
  then show ?thesis
    using rocksdb.read_unchanged [OF assms(2,6,7) _ assms(9-11)] compacted_entries [OF assms(8)] by blast
qed

theorem gc_keeps_unread_witness:
  "read_from mem_rocks 200 (demo_store [demo_event 9]) (Lsn 6) 10 =
   read_from mem_rocks 200 (demo_store [demo_event 3, demo_event 9]) (Lsn 6) 10"
proof -
  have gc: "maybe_gc alist_dashmap demo_gc = (Some (Lsn 5), snd (maybe_gc alist_dashmap demo_gc))"
    using demo_gc_run by (simp add: prod_eq_iff)
  have l: "dm_get alist_dashmap (consumers (gc_watermark demo_gc)) ''a'' = Some (Lsn 5)"
    by (simp add: demo_gc_def tracker_update_def)
  show ?thesis
    by (rule gc_keeps_unread [OF alist_om.offset_map_axioms mem_rk.rocksdb_axioms gc l _
          demo_store_content demo_store_content _ demo_store_clean demo_store_clean])
      (simp_all only: lsn.sel demo_compacted, simp_all)
qed

text \<open>
  C21. Tenants are isolated: whatever batches are written through the store of one tenant, a read
  through the store of another tenant of the same database returns what it returned before.
\<close>

theorem tenant_isolation:
  assumes "rocksdb Rk content cfname"
    and "fold (write_step Rk) batches (acked, ts) = (acked', ts')"
    and "t \<noteq> ts_tenant_id ts" and "content (ts_db ts) (cf_name t) \<noteq> None"
    and "iter_clean Rk \<lparr>ts_db = ts_db ts, ts_tenant_id = t\<rparr> start"
    and "iter_clean Rk \<lparr>ts_db = ts_db ts', ts_tenant_id = t\<rparr> start" and "limit * sz < 2 ^ 63"
  shows "read_from Rk sz \<lparr>ts_db = ts_db ts', ts_tenant_id = t\<rparr> start limit =
         read_from Rk sz \<lparr>ts_db = ts_db ts, ts_tenant_id = t\<rparr> start limit"
proof -
  obtain m where m: "content (ts_db ts) (cf_name t) = Some m" using assms(4) by blast
  then have "content (ts_db ts') (cf_name t) = Some m"
    using rocksdb.write_steps_other [OF assms(1,2)] assms(3) by (simp add: cf_name_inj)
  with m show ?thesis
    by (intro rocksdb.read_unchanged [OF assms(1), of _ m _ m] assms(5-7)) simp_all
qed

theorem tenant_isolation_witness:
  "let ts = \<lparr>ts_db = mem_add_cf (cf_name (TenantId ''b'')) (ts_db (mem_store (TenantId ''a''))),
             ts_tenant_id = TenantId ''a''\<rparr>;
       db' = ts_db (snd (write_step mem_rocks sample_batch ([], ts)))
   in read_from mem_rocks 200 \<lparr>ts_db = db', ts_tenant_id = TenantId ''b''\<rparr> lsn_zero 5 =
      read_from mem_rocks 200 \<lparr>ts_db = ts_db ts, ts_tenant_id = TenantId ''b''\<rparr> lsn_zero 5"
proof -
  let ?ts = "\<lparr>ts_db = mem_add_cf (cf_name (TenantId ''b'')) (ts_db (mem_store (TenantId ''a''))),
             ts_tenant_id = TenantId ''a''\<rparr>"
  let ?r = "write_step mem_rocks sample_batch ([], ?ts)"
  have run: "fold (write_step mem_rocks) [sample_batch] ([], ?ts) = (fst ?r, snd ?r)" by simp
  note defs = mem_rocks_def mem_store_def mem_add_cf_def mem_content_def cf_name_def
    write_step_def write_batch_def sample_batch_def mem_put_def
  show ?thesis
    unfolding Let_def
  proof (rule tenant_isolation [OF mem_rk.rocksdb_axioms run])
    show "iter_clean mem_rocks \<lparr>ts_db = ts_db ?ts, ts_tenant_id = TenantId ''b''\<rparr> lsn_zero"
      "iter_clean mem_rocks \<lparr>ts_db = ts_db (snd ?r), ts_tenant_id = TenantId ''b''\<rparr> lsn_zero"
      by (rule mem_iter_clean, simp add: defs)+
  qed (simp_all add: defs)
qed

text \<open>
  The keys order events the way a replay needs: the byte-wise order of two keys is the order
  of the LSNs, and of the transaction ids where the LSNs agree. A key carries nothing else, so
  two events of one transaction at one LSN have the same key, whatever their tables and rows.
\<close>

theorem make_key_order:
  "(make_key a < make_key b \<longleftrightarrow> event_lsn a < event_lsn b \<or> event_lsn a = event_lsn b \<and> ev_xid a < ev_xid b)
   \<and> (make_key a = make_key b \<longleftrightarrow> event_lsn a = event_lsn b \<and> ev_xid a = ev_xid b)"
  by (simp add: make_key_less make_key_eq event_lsn_def less_lsn_def)

text \<open>
  The key filter of a replay is sound: an event the full filter accepts is never skipped by
  its key; and it is as strong as a key allows: it passes exactly the LSN range.
\<close>

theorem key_might_match_sound:
  "(read_accept f e \<longrightarrow> key_might_match f (make_key e))
   \<and> (key_might_match f (make_key e) \<longleftrightarrow> read_accept (f\<lparr>rf_tables := None\<rparr>) e)"
  by (auto simp: read_accept_def key_might_match_def take_make_key Let_def not_less split: if_splits)

theorem key_might_match_sound_witness:
  "key_might_match (with_lsn_range read_filter_new (Lsn 2) (Lsn 7)) (make_key (demo_event 5))"
proof -
  have "read_accept (with_lsn_range read_filter_new (Lsn 2) (Lsn 7)) (demo_event 5)"
    by (simp add: read_accept_def with_lsn_range_def read_filter_new_def event_lsn_def demo_event_def)
  then show ?thesis using key_might_match_sound by blast
qed

text \<open>
  An opened tenant store is ready: its column family exists, so a batch write never fails for
  a missing column family, on either path of the opening.
\<close>

theorem tenant_open_ready:
  assumes "rocksdb Rk content cfname" and "tenant_open Rk config tenant disk = Ok ts"
  shows "ts_tenant_id ts = tenant
    \<and> (\<exists>cf. rk_cf_handle Rk (ts_db ts) (cf_name tenant) = Some cf \<and>
         fst (write_batch Rk ts b) = fst (rk_write Rk (ts_db ts) False False
           (map (\<lambda>e. (cf, make_key e, encode_event e)) (wb_events b))))"
  using rocksdb.open_has_cf [OF assms] rocksdb.cf_handle_None [OF assms(1), of "ts_db ts" "cf_name tenant"]
  by (auto simp: write_batch_def split_beta Let_def)

theorem tenant_open_ready_witness:
  "\<exists>ts. tenant_open mem_rocks (from_storage_config
       \<lparr>sc_data_dir = ''d'', sc_write_buffer_size = 1, sc_max_write_buffers = 1, sc_block_cache_size = 1,
        sc_direct_io = True, sc_compression = ''zstd'', sc_ttl_secs = 0\<rparr>) default_tenant DAList.empty = Ok ts
     \<and> ts_tenant_id ts = default_tenant"
proof -
  let ?c = "from_storage_config \<lparr>sc_data_dir = ''d'', sc_write_buffer_size = 1, sc_max_write_buffers = 1,
     sc_block_cache_size = 1, sc_direct_io = True, sc_compression = ''zstd'', sc_ttl_secs = 0\<rparr>"
  have "tenant_open mem_rocks ?c default_tenant DAList.empty =
      Ok \<lparr>ts_db = mem_add_cf (cf_name default_tenant) DAList.empty, ts_tenant_id = default_tenant\<rparr>"
    by (simp add: tenant_open_def mem_rocks_def)
  with tenant_open_ready [OF mem_rk.rocksdb_axioms this] show ?thesis by blast
qed

end
