(* ===== verification/Ingestion.thy ===== *)
theory Ingestion
  imports Event Config
begin

text \<open>
  The ingestion filter \<open>src/core/src/pipeline/ingestion.rs\<close>: rules per table, the evaluation of
  an event against them, and the parser of the filter expressions of the configuration. The
  \<open>HashMap\<close> of rules is a map.
\<close>

datatype PredicateOp = Eq | Neq | Gt | Lt | Gte | Lte | Contains | StartsWith | IsNull | IsNotNull

record ColumnPredicate =
  cp_column :: string
  cp_op :: PredicateOp
  cp_value :: string

record FilterRule =
  fr_ops :: "OpType list"
  fr_predicates :: "ColumnPredicate list"

record IngestionFilter =
  if_filters :: "string \<rightharpoonup> FilterRule"

definition filter_new :: IngestionFilter where
  "filter_new = \<lparr>if_filters = Map.empty\<rparr>"

definition add_rule :: "IngestionFilter \<Rightarrow> string \<Rightarrow> FilterRule \<Rightarrow> IngestionFilter" where
  "add_rule f table rule = f\<lparr>if_filters := (if_filters f)(table \<mapsto> rule)\<rparr>"

definition evaluate_predicate :: "string option \<Rightarrow> PredicateOp \<Rightarrow> string \<Rightarrow> bool" where
  "evaluate_predicate actual op expected =
     (case op of
        IsNull \<Rightarrow> actual = None
      | IsNotNull \<Rightarrow> actual \<noteq> None
      | _ \<Rightarrow>
          (case actual of
             None \<Rightarrow> False
           | Some actual \<Rightarrow>
               (case op of
                  Eq \<Rightarrow> actual = expected
                | Neq \<Rightarrow> actual \<noteq> expected
                | Gt \<Rightarrow> actual > expected
                | Lt \<Rightarrow> actual < expected
                | Gte \<Rightarrow> actual \<ge> expected
                | Lte \<Rightarrow> actual \<le> expected
                | Contains \<Rightarrow> contains actual expected
                | StartsWith \<Rightarrow> starts_with actual expected
                | _ \<Rightarrow> True)))"

text \<open>The loop over the predicates returns \<open>false\<close> at the first that fails.\<close>

fun predicates_pass :: "RowData \<Rightarrow> ColumnPredicate list \<Rightarrow> bool" where
  "predicates_pass row [] = True"
| "predicates_pass row (pred # preds) =
     (if \<not> evaluate_predicate (get_text row (cp_column pred)) (cp_op pred) (cp_value pred) then False
      else predicates_pass row preds)"

definition accept :: "IngestionFilter \<Rightarrow> ChangeEvent \<Rightarrow> bool" where
  "accept f event =
     (case if_filters f (qualified_name (ev_table event)) of
        None \<Rightarrow> True
      | Some rule \<Rightarrow>
          if fr_ops rule \<noteq> [] \<and> ev_op event \<notin> set (fr_ops rule) then False
          else case ev_after event of
                 Some row \<Rightarrow> predicates_pass row (fr_predicates rule)
               | None \<Rightarrow> True)"

definition pred_operators :: "(string \<times> PredicateOp) list" where
  "pred_operators = [(''!='', Neq), (''>='', Gte), (''<='', Lte), (''=='', Eq), (''>'', Gt), (''<'', Lt)]"

fun try_operators :: "(string \<times> PredicateOp) list \<Rightarrow> string \<Rightarrow> ColumnPredicate option" where
  "try_operators [] expr = None"
| "try_operators ((symb, op) # rest) expr =
     (case find_sub expr symb of
        Some pos \<Rightarrow>
          Some \<lparr>cp_column = trim (take pos expr), cp_op = op,
                cp_value = trim (drop (pos + length symb) expr)\<rparr>
      | None \<Rightarrow> try_operators rest expr)"

definition parse_predicate :: "string \<Rightarrow> ColumnPredicate option" where
  "parse_predicate = try_operators pred_operators"

text \<open>The body of the loop over the parts, and the loop.\<close>

definition parse_part ::
    "string \<Rightarrow> OpType list \<times> ColumnPredicate list \<Rightarrow> OpType list \<times> ColumnPredicate list" where
  "parse_part part = (\<lambda>(ops, predicates).
     let part = trim part
     in if part = [] then (ops, predicates)
        else if starts_with part ''op:'' then
          (ops @ List.map_filter (\<lambda>op. from_str_tag (trim op)) (split_on CHR '','' (drop 3 part)), predicates)
        else case parse_predicate part of
               Some pred \<Rightarrow> (ops, predicates @ [pred])
             | None \<Rightarrow> (ops, predicates))"

definition parse_filter_expr :: "string \<Rightarrow> FilterRule option" where
  "parse_filter_expr expr =
     (let (ops, predicates) = fold parse_part (split_on CHR '';'' expr) ([], [])
      in Some \<lparr>fr_ops = ops, fr_predicates = predicates\<rparr>)"

definition filter_from_config :: "PipelineConfig \<Rightarrow> IngestionFilter" where
  "filter_from_config cfg =
     fold (\<lambda>(table, expr) f.
        case parse_filter_expr expr of
          Some rule \<Rightarrow> f\<lparr>if_filters := (if_filters f)(table \<mapsto> rule)\<rparr>
        | None \<Rightarrow> f) (pl_filters cfg) filter_new"

subsection \<open>Printing rules\<close>

text \<open>
  The documented syntax of a rule, \<open>op:insert,update; column == value; other != value\<close>, printed
  with the operators the syntax has.
\<close>

fun op_symbol :: "PredicateOp \<Rightarrow> string" where
  "op_symbol Neq = ''!=''"
| "op_symbol Gte = ''>=''"
| "op_symbol Lte = ''<=''"
| "op_symbol Eq = ''==''"
| "op_symbol Gt = ''>''"
| "op_symbol Lt = ''<''"
| "op_symbol _ = []"

fun join :: "string \<Rightarrow> string list \<Rightarrow> string" where
  "join sep [] = []"
| "join sep [s] = s"
| "join sep (s # ss) = s @ sep @ join sep ss"

definition show_pred :: "ColumnPredicate \<Rightarrow> string" where
  "show_pred p = cp_column p @ '' '' @ op_symbol (cp_op p) @ '' '' @ cp_value p"

definition show_rule :: "FilterRule \<Rightarrow> string" where
  "show_rule r = join ''; ''
     ((if fr_ops r = [] then [] else [''op:'' @ join '','' (map as_str (fr_ops r))])
      @ map show_pred (fr_predicates r))"

definition special :: "string" where
  "special = ''!<>=;''"

text \<open>A token: ASCII text without the symbols of the syntax and without space at its ends.\<close>

definition token :: "string \<Rightarrow> bool" where
  "token s \<longleftrightarrow> solid s \<and> set s \<inter> set special = {}"

definition plain_pred :: "ColumnPredicate \<Rightarrow> bool" where
  "plain_pred p \<longleftrightarrow> token (cp_column p) \<and> \<not> starts_with (cp_column p) ''op:'' \<and> token (cp_value p)
     \<and> op_symbol (cp_op p) \<noteq> []"

definition plain_rule :: "FilterRule \<Rightarrow> bool" where
  "plain_rule r \<longleftrightarrow> list_all plain_pred (fr_predicates r)"

subsection \<open>Parsing what was printed\<close>

lemma token_solid: "token s \<Longrightarrow> solid s"
  by (simp add: token_def)

lemma token_special: "token s \<Longrightarrow> c \<in> set special \<Longrightarrow> c \<notin> set s"
  by (auto simp: token_def)

lemma solid_append:
  assumes "solid s" and "is_ascii t" and "solid u"
  shows "solid (s @ t @ u)"
  using assms by (auto simp: solid_def is_ascii_def)

lemma op_symbol_special: "set (op_symbol op) \<subseteq> set special"
  by (cases op) (simp_all add: special_def)

lemma try_operators_at:
  "s \<noteq> [] \<Longrightarrow> hd s \<notin> set a \<Longrightarrow> try_operators ((s, op) # rest) (a @ s @ b) =
     Some \<lparr>cp_column = trim a, cp_op = op, cp_value = trim b\<rparr>"
  by (simp add: find_sub_at)

lemma parse_show_pred:
  assumes "plain_pred p"
  shows "parse_predicate (show_pred p) = Some p"
proof -
  let ?a = "cp_column p @ '' ''" and ?s = "op_symbol (cp_op p)" and ?v = "CHR '' '' # cp_value p"
  have col: "token (cp_column p)" and val: "token (cp_value p)" and ne: "?s \<noteq> []"
    using assms by (simp_all add: plain_pred_def)
  have shown: "show_pred p = ?a @ ?s @ ?v" by (simp add: show_pred_def)
  have space: "CHR '' '' \<notin> set special" by (simp add: special_def)
  have hd: "hd ?s \<in> set special" using op_symbol_special [of "cp_op p"] ne hd_in_set by blast
  have "hd ?s \<notin> set ?a" using token_special [OF col hd] hd space by auto
  then have found: "try_operators ((?s, op) # rest) (show_pred p) =
      Some \<lparr>cp_column = cp_column p, cp_op = op, cp_value = cp_value p\<rparr>" for op rest
    unfolding shown
    by (subst try_operators_at [OF ne])
      (simp_all add: trim_solid [OF token_solid [OF col]] trim_solid [OF token_solid [OF val]])
  have skip: "try_operators ((t, op) # rest) (show_pred p) = try_operators rest (show_pred p)"
    if "c \<in> set t" "c \<in> set special" "c \<notin> set ?s" for c t op rest
  proof -
    have "find_sub (show_pred p) t = None"
      using that token_special [OF col that(2)] token_special [OF val that(2)] space
      by (intro find_sub_None_char [of c]) (auto simp: shown)
    then show ?thesis by simp
  qed
  note skips = skip [of "CHR ''!''" "''!=''"] skip [of "CHR ''>''" "''>=''"] skip [of "CHR ''<''" "''<=''"]
    skip [of "CHR ''=''" "''>=''"] skip [of "CHR ''=''" "''<=''"] skip [of "CHR ''=''" "''==''"]
    skip [of "CHR ''>''" "''>''"]
  have "parse_predicate (show_pred p) =
      Some \<lparr>cp_column = cp_column p, cp_op = cp_op p, cp_value = cp_value p\<rparr>"
    using ne found skips
    by (cases "cp_op p")
      (simp_all add: parse_predicate_def pred_operators_def special_def del: try_operators.simps)
  then show ?thesis by simp
qed

lemma show_pred_shape:
  assumes "plain_pred p"
  shows "solid (show_pred p)" "CHR '';'' \<notin> set (show_pred p)" "\<not> starts_with (show_pred p) ''op:''"
proof -
  have col: "token (cp_column p)" and val: "token (cp_value p)" and no: "\<not> starts_with (cp_column p) ''op:''"
    using assms by (simp_all add: plain_pred_def)
  have "is_ascii ('' '' @ op_symbol (cp_op p) @ '' '')"
    by (cases "cp_op p") (simp_all add: is_ascii_def)
  from solid_append [OF token_solid [OF col] this token_solid [OF val]]
  show "solid (show_pred p)" by (simp add: show_pred_def)
  have "CHR '';'' \<in> set special" by (simp add: special_def)
  then have "CHR '';'' \<notin> set (cp_column p)" "CHR '';'' \<notin> set (cp_value p)"
    using token_special col val by blast+
  moreover have "CHR '';'' \<notin> set (op_symbol (cp_op p))" by (cases "cp_op p") simp_all
  ultimately show "CHR '';'' \<notin> set (show_pred p)" by (simp add: show_pred_def)
  show "\<not> starts_with (show_pred p) ''op:''"
  proof (cases "length (cp_column p) < 3")
    case True
    have "cp_column p \<noteq> []" using col by (simp add: token_def solid_def)
    with True obtain a b where "cp_column p = [a] \<or> cp_column p = [a, b]"
      by (cases "cp_column p" rule: list.exhaust; cases "tl (cp_column p)") auto
    then show ?thesis by (auto simp: starts_with_def show_pred_def)
  next
    case False
    then show ?thesis using no by (simp add: starts_with_def show_pred_def)
  qed
qed

lemma parse_part_pred:
  assumes "plain_pred p"
  shows "parse_part (show_pred p) (ops, ps) = (ops, ps @ [p])"
    and "parse_part (CHR '' '' # show_pred p) (ops, ps) = (ops, ps @ [p])"
proof -
  note shape = show_pred_shape [OF assms]
  have "show_pred p \<noteq> []" by (simp add: show_pred_def)
  then show "parse_part (show_pred p) (ops, ps) = (ops, ps @ [p])"
    and "parse_part (CHR '' '' # show_pred p) (ops, ps) = (ops, ps @ [p])"
    using trim_solid [OF shape(1)] shape(3) parse_show_pred [OF assms]
    by (simp_all add: parse_part_def Let_def)
qed

lemma as_str_solid: "solid (as_str op)" "CHR '','' \<notin> set (as_str op)" "CHR '';'' \<notin> set (as_str op)"
  by (cases op; simp add: as_str_def solid_def is_ascii_def ascii_ws_def)+

lemma join_as_str:
  assumes "ops \<noteq> []"
  shows "solid (join '','' (map as_str ops))" "CHR '';'' \<notin> set (join '','' (map as_str ops))"
    "split_on CHR '','' (join '','' (map as_str ops)) = map as_str ops"
proof (atomize (full))
  show "solid (join '','' (map as_str ops)) \<and> CHR '';'' \<notin> set (join '','' (map as_str ops))
    \<and> split_on CHR '','' (join '','' (map as_str ops)) = map as_str ops"
    using assms
  proof (induction ops)
    case (Cons op ops)
    show ?case
    proof (cases ops)
      case Nil
      then show ?thesis using as_str_solid [of op] by (simp add: split_on_none)
    next
      case (Cons op' ops')
      have "is_ascii '',''" by (simp add: is_ascii_def)
      with Cons.IH as_str_solid [of op] show ?thesis
        using solid_append [of "as_str op" "'',''" "join '','' (map as_str ops)"]
        by (simp add: Cons split_on_append)
    qed
  qed simp
qed

lemma parse_part_ops:
  assumes "ops \<noteq> []"
  shows "parse_part (''op:'' @ join '','' (map as_str ops)) (os, ps) = (os @ ops, ps)"
proof -
  note j = join_as_str [OF assms]
  have "solid ''op:''" "is_ascii []" by (simp_all add: solid_def is_ascii_def ascii_ws_def)
  from solid_append [OF this j(1)] have sol: "solid (''op:'' @ join '','' (map as_str ops))" by simp
  have "List.map_filter (\<lambda>s. from_str_tag (trim s)) (map as_str ops) = ops"
    by (induction ops) (simp_all add: List.map_filter_simps trim_solid [OF as_str_solid(1)])
  then show ?thesis
    using trim_solid(1) [OF sol] j(3) by (simp add: parse_part_def starts_with_def Let_def)
qed

lemma split_join:
  assumes "list_all (\<lambda>q. CHR '';'' \<notin> set q) (q # qs)"
  shows "split_on CHR '';'' (join ''; '' (q # qs)) = q # map (\<lambda>q. CHR '' '' # q) qs"
  using assms
proof (induction qs arbitrary: q)
  case (Cons q' qs)
  have "split_on CHR '';'' (CHR '' '' # join ''; '' (q' # qs))
      = (CHR '' '' # q') # map (\<lambda>q. CHR '' '' # q) qs"
    using Cons.IH [of q'] Cons.prems by simp
  with Cons.prems show ?case by (simp add: split_on_append)
qed (simp add: split_on_none)

lemma fold_parse_preds:
  "list_all plain_pred qs \<Longrightarrow>
     fold parse_part (map (\<lambda>p. CHR '' '' # show_pred p) qs) (ops, ps) = (ops, ps @ qs)"
  by (induction qs arbitrary: ps) (simp_all add: parse_part_pred)

lemma parse_show_rule:
  assumes "plain_rule r"
  shows "parse_filter_expr (show_rule r) = Some r"
proof -
  have ps: "list_all plain_pred (fr_predicates r)" using assms by (simp add: plain_rule_def)
  let ?ops = "''op:'' @ join '','' (map as_str (fr_ops r))"
  have semi: "list_all (\<lambda>q. CHR '';'' \<notin> set q) (map show_pred (fr_predicates r))"
    using ps show_pred_shape(2) by (simp add: list_all_iff)
  have "fold parse_part (split_on CHR '';'' (show_rule r)) ([], []) = (fr_ops r, fr_predicates r)"
  proof (cases "fr_ops r = []")
    case False
    then have "split_on CHR '';'' (show_rule r) = ?ops # map (\<lambda>p. CHR '' '' # show_pred p) (fr_predicates r)"
      using split_join [of ?ops "map show_pred (fr_predicates r)"] semi join_as_str(2)
      by (simp add: show_rule_def comp_def)
    with False ps show ?thesis by (simp add: parse_part_ops fold_parse_preds del: append_Cons append_Nil)
  next
    case ops: True
    show ?thesis
    proof (cases "fr_predicates r")
      case Nil
      then show ?thesis using ops
        by (simp add: show_rule_def parse_part_def trim_def trim_start_def trim_end_def)
    next
      case (Cons p qs)
      have "split_on CHR '';'' (show_rule r) = show_pred p # map (\<lambda>p. CHR '' '' # show_pred p) qs"
        using split_join [of "show_pred p" "map show_pred qs"] semi by (simp add: show_rule_def ops Cons comp_def)
      with ops Cons ps show ?thesis by (simp add: parse_part_pred fold_parse_preds)
    qed
  qed
  then show ?thesis by (simp add: parse_filter_expr_def)
qed

subsection \<open>What a rule means\<close>

text \<open>
  The comparisons of the syntax on the texts of two values: the order is that of the bytes, first
  difference first, whatever the type of the column.
\<close>

definition text_before :: "string \<Rightarrow> string \<Rightarrow> bool" where
  "text_before v w \<longleftrightarrow> (map unat (as_bytes v), map unat (as_bytes w)) \<in> lexord {(a, b). a < b}"

definition symbol_holds :: "string \<Rightarrow> string \<Rightarrow> string \<Rightarrow> bool" where
  "symbol_holds s v w \<longleftrightarrow>
     s = ''=='' \<and> v = w \<or> s = ''!='' \<and> v \<noteq> w \<or> s = ''<'' \<and> text_before v w \<or> s = ''>'' \<and> text_before w v
     \<or> s = ''<='' \<and> (text_before v w \<or> v = w) \<or> s = ''>='' \<and> (text_before w v \<or> v = w)"

text \<open>A predicate holds of a row that has a value, not null, in the column, for which the comparison is true.\<close>

definition rule_holds :: "FilterRule \<Rightarrow> ChangeEvent \<Rightarrow> bool" where
  "rule_holds r e \<longleftrightarrow> (fr_ops r = [] \<or> ev_op e \<in> set (fr_ops r)) \<and>
     (\<forall>row p. ev_after e = Some row \<and> p \<in> set (fr_predicates r) \<longrightarrow>
        (\<exists>v. map_of (map (\<lambda>c. (cv_name c, cv_value c)) (columns row)) (cp_column p) = Some (Some v)
             \<and> symbol_holds (op_symbol (cp_op p)) v (cp_value p)))"

lemma get_text_map_of:
  "get_text row col = Some v \<longleftrightarrow> map_of (map (\<lambda>c. (cv_name c, cv_value c)) (columns row)) col = Some (Some v)"
proof -
  have "(case find (\<lambda>c. cv_name c = col) cs of None \<Rightarrow> None | Some c \<Rightarrow> cv_value c) = Some v \<longleftrightarrow>
      map_of (map (\<lambda>c. (cv_name c, cv_value c)) cs) col = Some (Some v)" for cs
    by (induction cs) auto
  then show ?thesis by (simp add: get_text_first row_get_def)
qed

lemma of_char_less: "(of_char c :: nat) < of_char d \<longleftrightarrow> c < d"
  by (simp add: less_char_def)

lemma text_before_less: "text_before v w \<longleftrightarrow> v < w"
proof -
  have "unat (byte_of c) = of_char c" for c by (simp add: byte_of_def unat_of_nat)
  then have "text_before v w \<longleftrightarrow> (v, w) \<in> lexord {(c, d). c < d}"
  proof (induction v arbitrary: w)
    case Nil
    show ?case by (cases w) (simp_all add: text_before_def as_bytes_def)
  next
    case (Cons c v)
    then show ?case by (cases w) (auto simp: text_before_def as_bytes_def of_char_less)
  qed
  then show ?thesis by (simp add: list_less_def)
qed

lemma evaluate_symbol:
  assumes "op_symbol op \<noteq> []"
  shows "evaluate_predicate actual op w \<longleftrightarrow> (\<exists>v. actual = Some v \<and> symbol_holds (op_symbol op) v w)"
  using assms by (cases op; cases actual) (auto simp: evaluate_predicate_def symbol_holds_def text_before_less)

lemma predicates_pass_iff:
  "predicates_pass row ps \<longleftrightarrow>
     (\<forall>p\<in>set ps. evaluate_predicate (get_text row (cp_column p)) (cp_op p) (cp_value p))"
  by (induction ps) auto

lemma accept_iff:
  assumes "\<And>r. if_filters f (qualified_name (ev_table e)) = Some r \<Longrightarrow> plain_rule r"
  shows "accept f e \<longleftrightarrow> (\<forall>r. if_filters f (qualified_name (ev_table e)) = Some r \<longrightarrow> rule_holds r e)"
proof (cases "if_filters f (qualified_name (ev_table e))")
  case (Some r)
  then have "\<forall>p\<in>set (fr_predicates r). op_symbol (cp_op p) \<noteq> []"
    using assms by (auto simp: plain_rule_def plain_pred_def list_all_iff)
  then show ?thesis using Some
    by (auto simp: accept_def rule_holds_def predicates_pass_iff evaluate_symbol get_text_map_of split: option.split)
qed (simp add: accept_def)

lemma fold_rules:
  assumes "distinct (map fst rules)" and "list_all (\<lambda>(t, r). plain_rule r) rules"
  shows "if_filters (fold (\<lambda>(table, expr) f. case parse_filter_expr expr of
        Some rule \<Rightarrow> f\<lparr>if_filters := (if_filters f)(table \<mapsto> rule)\<rparr> | None \<Rightarrow> f)
      (map (\<lambda>(t, r). (t, show_rule r)) rules) f) = if_filters f ++ map_of rules"
  using assms
proof (induction rules arbitrary: f)
  case (Cons tr rules)
  obtain t r where tr: "tr = (t, r)" by (cases tr)
  have "t \<notin> dom (map_of rules)" using Cons.prems(1) by (simp add: tr dom_map_of_conv_image_fst)
  moreover have "plain_rule r" using Cons.prems(2) by (simp add: tr)
  ultimately show ?case
    using Cons by (simp add: tr parse_show_rule map_add_upd_left del: fun_upd_apply)
qed simp

subsection \<open>Properties\<close>

text \<open>
  C20. The filter a configuration describes is the filter that runs. For filter expressions
  printed from rules in the documented syntax, with columns and values free of the syntax's own
  symbols, an event is accepted exactly when the rule of its table, if there is one, holds: its
  operation is listed (an empty list allows all), and in the row it carries every predicate's
  column has a value that compares with the predicate's as the operator says; an event without an
  after row is not tested against the predicates. Values are compared as texts byte by byte, not
  by the type of the column: \<open>10\<close> is not above \<open>9\<close>.
\<close>

theorem configured_filter:
  assumes "distinct (map fst rules)" and "list_all (\<lambda>(t, r). plain_rule r) rules"
    and "pl_filters cfg = map (\<lambda>(t, r). (t, show_rule r)) rules"
  shows "accept (filter_from_config cfg) e \<longleftrightarrow>
     (\<forall>r. map_of rules (qualified_name (ev_table e)) = Some r \<longrightarrow> rule_holds r e)"
proof -
  have f: "if_filters (filter_from_config cfg) = map_of rules"
    using fold_rules [OF assms(1,2), of filter_new] by (simp add: filter_from_config_def assms(3) filter_new_def)
  have "plain_rule r" if "map_of rules t = Some r" for t r
    using map_of_SomeD [OF that] assms(2) by (auto simp: list_all_iff)
  then show ?thesis using accept_iff [of "filter_from_config cfg" e] by (simp add: f)
qed

definition demo_rule :: FilterRule where
  "demo_rule = \<lparr>fr_ops = [Insert, Update],
     fr_predicates = [\<lparr>cp_column = ''status'', cp_op = Neq, cp_value = ''on hold''\<rparr>,
       \<lparr>cp_column = ''amount'', cp_op = Gt, cp_value = ''9''\<rparr>]\<rparr>"

definition demo_insert :: "string \<Rightarrow> string \<Rightarrow> ChangeEvent" where
  "demo_insert v w = \<lparr>ev_lsn = 1, ev_xid = 0, ev_op = Insert,
     ev_table = \<lparr>tid_schema = ''public'', tid_table = ''t''\<rparr>, ev_schema_fingerprint = 0,
     ev_after = Some \<lparr>columns = [\<lparr>cv_name = ''status'', cv_type_oid = 25, cv_value = Some v\<rparr>,
       \<lparr>cv_name = ''amount'', cv_type_oid = 23, cv_value = Some w\<rparr>]\<rparr>,
     ev_before = None, ev_commit_timestamp_us = 0\<rparr>"

lemma plain_demo_rule: "plain_rule demo_rule"
  by (simp add: plain_rule_def demo_rule_def plain_pred_def token_def solid_def ascii_ws_def
      is_ascii_def special_def starts_with_def)

theorem configured_filter_witness:
  "let cfg = \<lparr>flush_max_bytes = 1, flush_max_age_us = 1, ring_buffer_capacity = 1,
      pl_filters = [(''public.t'', ''op:insert,update; status != on hold; amount > 9'')]\<rparr>
   in accept (filter_from_config cfg) (demo_insert ''open'' ''95'')
      \<and> \<not> accept (filter_from_config cfg) (demo_insert ''on hold'' ''95'')
      \<and> \<not> accept (filter_from_config cfg) (demo_insert ''open'' ''10'')"
proof -
  have "show_rule demo_rule = ''op:insert,update; status != on hold; amount > 9''"
    by (simp add: show_rule_def demo_rule_def show_pred_def as_str_def)
  then show ?thesis
    using configured_filter [of "[(''public.t'', demo_rule)]"] plain_demo_rule
    by (simp add: rule_holds_def demo_rule_def demo_insert_def qualified_name_def symbol_holds_def
        text_before_def as_bytes_def byte_of_def)
qed

text \<open>
  The operators are tried in a fixed order over the whole expression, not from left to
  right: an equality test whose value contains \<open>!=\<close> is read as an inequality test on a column
  that does not exist.
\<close>

theorem neq_in_value_misread:
  assumes "token c" and "token v" and "token w"
  shows "parse_predicate (c @ '' == '' @ v @ ''!='' @ w) =
     Some \<lparr>cp_column = c @ '' == '' @ v, cp_op = Neq, cp_value = w\<rparr>"
proof -
  let ?a = "c @ '' == '' @ v"
  have "is_ascii '' == ''" by (simp add: is_ascii_def)
  then have "solid ?a" by (intro solid_append token_solid assms)
  moreover have "CHR ''!'' \<notin> set ?a" using assms(1,2) by (auto simp: token_def special_def)
  then have "parse_predicate (?a @ ''!='' @ w) = Some \<lparr>cp_column = trim ?a, cp_op = Neq, cp_value = trim w\<rparr>"
    unfolding parse_predicate_def pred_operators_def by (intro try_operators_at) simp_all
  ultimately show ?thesis
    using trim_solid(1) [OF token_solid [OF assms(3)]] trim_solid(1) [of ?a] by simp
qed

theorem neq_in_value_misread_witness:
  "parse_predicate ''note == a!=b'' = Some \<lparr>cp_column = ''note == a'', cp_op = Neq, cp_value = ''b''\<rparr>"
  using neq_in_value_misread [of "''note''" "''a''" "''b''"]
  by (simp add: token_def solid_def ascii_ws_def is_ascii_def special_def)

end
