(* ===== verification/Sip_Hash.thy ===== *)
theory Sip_Hash
  imports Prelude Rust_Str
begin

text \<open>
  \<open>std::collections::hash_map::DefaultHasher\<close> as the decoder uses it: SipHash-1-3 with both keys
  zero over the bytes the \<open>Hash\<close> implementations write. A \<open>str\<close> writes its bytes and the byte
  0xFF, a \<open>u32\<close> its four bytes in little-endian order.
\<close>

definition le_bytes :: "'a::len word \<Rightarrow> bytes" where
  "le_bytes w = rev (to_be_bytes w)"

definition nat_of_le :: "bytes \<Rightarrow> nat" where
  "nat_of_le bs = nat_of_be (rev bs)"

definition sip_round :: "u64 \<times> u64 \<times> u64 \<times> u64 \<Rightarrow> u64 \<times> u64 \<times> u64 \<times> u64" where
  "sip_round = (\<lambda>(v0, v1, v2, v3).
     let v0 = v0 + v1; v1 = word_rotl 13 v1; v1 = xor v1 v0; v0 = word_rotl 32 v0;
         v2 = v2 + v3; v3 = word_rotl 16 v3; v3 = xor v3 v2;
         v0 = v0 + v3; v3 = word_rotl 21 v3; v3 = xor v3 v0;
         v2 = v2 + v1; v1 = word_rotl 17 v1; v1 = xor v1 v2; v2 = word_rotl 32 v2
     in (v0, v1, v2, v3))"

definition sip_word :: "u64 \<Rightarrow> u64 \<times> u64 \<times> u64 \<times> u64 \<Rightarrow> u64 \<times> u64 \<times> u64 \<times> u64" where
  "sip_word m = (\<lambda>(v0, v1, v2, v3).
     let (v0, v1, v2, v3) = sip_round (v0, v1, v2, xor v3 m) in (xor v0 m, v1, v2, v3))"

function sip_words :: "bytes \<Rightarrow> u64 \<times> u64 \<times> u64 \<times> u64 \<Rightarrow> bytes \<times> u64 \<times> u64 \<times> u64 \<times> u64" where
  "sip_words bs v =
     (if length bs < 8 then (bs, v)
      else sip_words (drop 8 bs) (sip_word (of_nat (nat_of_le (take 8 bs))) v))"
  by pat_completeness auto
termination
  by (relation "measure (\<lambda>(bs, v). length bs)") auto

declare sip_words.simps [simp del]

definition siphash13 :: "bytes \<Rightarrow> u64" where
  "siphash13 bs =
     (let (rest, v) = sip_words bs
            (0x736f6d6570736575, 0x646f72616e646f6d, 0x6c7967656e657261, 0x7465646279746573);
          b = of_nat ((length bs mod 256) * 2 ^ 56 + nat_of_le rest);
          (v0, v1, v2, v3) = sip_word b v;
          (v0, v1, v2, v3) = sip_round (sip_round (sip_round (v0, v1, xor v2 0xff, v3)))
      in xor (xor v0 v1) (xor v2 v3))"

definition hash_str :: "string \<Rightarrow> bytes" where
  "hash_str s = as_bytes s @ [0xff]"

definition hash_u32 :: "u32 \<Rightarrow> bytes" where
  "hash_u32 w = le_bytes w"

subsection \<open>The written bytes determine what was written\<close>

lemma utf8_no_ff: "utf8_valid bs \<Longrightarrow> 0xff \<notin> set bs"
proof (induction bs rule: utf8_valid.induct)
  case (2 b0 bs)
  then show ?case
    by (auto simp: byte_in_def split: if_splits list.splits)
qed simp

lemma append_sep_inj: "x \<notin> set a \<Longrightarrow> x \<notin> set b \<Longrightarrow> a @ x # r = b @ x # s \<longleftrightarrow> a = b \<and> r = s"
  by (induction a arbitrary: b; case_tac b) auto

lemma hash_str_inj:
  assumes "wf_str s" and "wf_str t"
  shows "hash_str s @ r = hash_str t @ r' \<longleftrightarrow> s = t \<and> r = r'"
proof -
  have "0xff \<notin> set (as_bytes s)" "0xff \<notin> set (as_bytes t)"
    using assms utf8_no_ff by (auto simp: wf_str_def)
  from append_sep_inj [OF this, of r r'] have "hash_str s @ r = hash_str t @ r' \<longleftrightarrow> as_bytes s = as_bytes t \<and> r = r'"
    by (simp add: hash_str_def)
  then show ?thesis by simp
qed

lemma hash_u32_inj: "hash_u32 v @ r = hash_u32 w @ r' \<longleftrightarrow> v = w \<and> r = r'"
  by (auto simp: hash_u32_def le_bytes_def to_be_bytes_inj)

end
