(* ===== verification/Pg_Output.thy ===== *)
theory Pg_Output
  imports Containers Event Sip_Hash
begin

text \<open>
  The decoder of PostgreSQL's \<open>pgoutput\<close> messages, \<open>src/services/pgsql/src/decoding/pgoutput.rs\<close>,
  over the parameter \<open>D\<close> for the \<open>DashMap\<close> of relations. The reading position is passed along;
  every read is bounds-checked as in the source. The message of an \<open>anyhow\<close> error is a string;
  the text of a UTF-8 error is abbreviated.
\<close>

datatype ReplicaIdentity = RepDefault | RepNothing | RepFull | RepIndex

record ColumnMeta =
  cm_name :: string
  cm_type_oid :: u32
  cm_is_key :: bool

record RelationInfo =
  ri_schema :: string
  ri_table :: string
  ri_columns :: "ColumnMeta list"
  ri_replica_identity :: ReplicaIdentity

type_synonym 'm relation_dm = "('m, u32, RelationInfo) dashmap_ops"

record 'm PgOutputDecoder =
  relations :: 'm
  current_xid :: "u32 option"
  current_commit_ts :: i64
  current_final_lsn :: u64

definition decoder_new :: "'m relation_dm \<Rightarrow> 'm PgOutputDecoder" where
  "decoder_new D = \<lparr>relations = dm_new D, current_xid = None, current_commit_ts = 0, current_final_lsn = 0\<rparr>"

subsection \<open>Reading\<close>

definition eom :: "nat \<Rightarrow> string" where
  "eom pos = ''unexpected end of message at offset '' @ dec_str pos"

definition utf8_error :: string where
  "utf8_error = ''invalid utf-8 sequence''"

definition read_u8 :: "bytes \<Rightarrow> nat \<Rightarrow> (u8 \<times> nat, string) rresult" where
  "read_u8 data pos =
     (if pos \<ge> length data then Err (eom pos)
      else and_then (index data pos) (\<lambda>val. Ok (val, pos + 1)))"

definition read_u16 :: "bytes \<Rightarrow> nat \<Rightarrow> (u16 \<times> nat, string) rresult" where
  "read_u16 data pos =
     (if pos + 2 > length data then Err (eom pos)
      else and_then (subslice data pos (pos + 2)) (\<lambda>s.
           and_then (try_into 2 ''could not convert slice to array'' s) (\<lambda>bs.
           Ok (from_be_bytes bs, pos + 2))))"

definition read_u32 :: "bytes \<Rightarrow> nat \<Rightarrow> (u32 \<times> nat, string) rresult" where
  "read_u32 data pos =
     (if pos + 4 > length data then Err (eom pos)
      else and_then (subslice data pos (pos + 4)) (\<lambda>s.
           and_then (try_into 4 ''could not convert slice to array'' s) (\<lambda>bs.
           Ok (from_be_bytes bs, pos + 4))))"

function scan_nul :: "bytes \<Rightarrow> nat \<Rightarrow> nat" where
  "scan_nul data pos =
     (if pos < length data \<and> data ! pos \<noteq> 0 then scan_nul data (pos + 1) else pos)"
  by pat_completeness auto
termination
  by (relation "measure (\<lambda>(data, pos). length data - pos)") auto

declare scan_nul.simps [simp del]

definition read_cstring :: "bytes \<Rightarrow> nat \<Rightarrow> (string \<times> nat, string) rresult" where
  "read_cstring data pos =
     (let start = pos; pos = scan_nul data pos
      in if pos \<ge> length data then Err (''unterminated c-string at offset '' @ dec_str start)
         else and_then (subslice data start pos) (\<lambda>bs.
              and_then (from_utf8 utf8_error bs) (\<lambda>s.
              Ok (s, pos + 1))))"

definition hex_encode :: "bytes \<Rightarrow> string" where
  "hex_encode data = concat (map (\<lambda>b. [lower_digit (unat b div 16), lower_digit (unat b mod 16)]) data)"

text \<open>One iteration of the column loop of \<open>decode_tuple_data\<close>, and the loop.\<close>

definition decode_tuple_col ::
    "bytes \<Rightarrow> ColumnMeta list \<Rightarrow> nat \<Rightarrow> nat \<Rightarrow> (ColumnValue \<times> nat, string) rresult" where
  "decode_tuple_col data cols i pos =
     and_then (read_u8 data pos) (\<lambda>(col_tag, pos).
     let col_meta = (if i < length cols then Some (cols ! i) else None);
         name = (case col_meta of Some c \<Rightarrow> cm_name c | None \<Rightarrow> ''col_'' @ dec_str i);
         type_oid = (case col_meta of Some c \<Rightarrow> cm_type_oid c | None \<Rightarrow> 0);
         col = (\<lambda>v. \<lparr>cv_name = name, cv_type_oid = type_oid, cv_value = v\<rparr>)
     in if col_tag = byte_of CHR ''n'' then Ok (col None, pos)
        else if col_tag = byte_of CHR ''u'' then Ok (col None, pos)
        else if col_tag = byte_of CHR ''t'' then
          and_then (read_u32 data pos) (\<lambda>(len, pos).
          if pos + unat len > length data then Err ''value extends beyond message boundary''
          else and_then (subslice data pos (pos + unat len)) (\<lambda>bs.
               and_then (from_utf8 utf8_error bs) (\<lambda>v.
               Ok (col (Some v), pos + unat len))))
        else if col_tag = byte_of CHR ''b'' then
          and_then (read_u32 data pos) (\<lambda>(len, pos).
          if pos + unat len > length data then Err ''binary value extends beyond message boundary''
          else and_then (subslice data pos (pos + unat len)) (\<lambda>bs.
               Ok (col (Some ([CHR 92] @ ''x'' @ hex_encode bs)), pos + unat len)))
        else Ok (col None, pos))"

fun decode_tuple_cols ::
    "nat \<Rightarrow> bytes \<Rightarrow> ColumnMeta list \<Rightarrow> nat \<Rightarrow> nat \<Rightarrow> (ColumnValue list \<times> nat, string) rresult" where
  "decode_tuple_cols 0 data cols i pos = Ok ([], pos)"
| "decode_tuple_cols (Suc n) data cols i pos =
     and_then (decode_tuple_col data cols i pos) (\<lambda>(c, pos).
     and_then (decode_tuple_cols n data cols (i + 1) pos) (\<lambda>(cs, pos). Ok (c # cs, pos)))"

definition decode_tuple_data ::
    "bytes \<Rightarrow> nat \<Rightarrow> ColumnMeta list \<Rightarrow> (RowData \<times> nat, string) rresult" where
  "decode_tuple_data data pos cols =
     and_then (read_u16 data pos) (\<lambda>(n_cols, pos).
     and_then (decode_tuple_cols (unat n_cols) data cols 0 pos) (\<lambda>(result, pos).
     Ok (\<lparr>columns = result\<rparr>, pos)))"

definition fingerprint_bytes :: "RelationInfo \<Rightarrow> bytes" where
  "fingerprint_bytes rel =
     hash_str (ri_schema rel) @ hash_str (ri_table rel)
     @ concat (map (\<lambda>c. hash_str (cm_name c) @ hash_u32 (cm_type_oid c)) (ri_columns rel))"

definition compute_fingerprint :: "RelationInfo \<Rightarrow> u64" where
  "compute_fingerprint rel = siphash13 (fingerprint_bytes rel)"

subsection \<open>Messages\<close>

definition decode_begin :: "bytes \<Rightarrow> (unit, string) rresult" where
  "decode_begin data =
     (if length data < 20 then Err ''begin message too short''
      else and_then (subslice data 0 8) (\<lambda>s. and_then (try_into 8 ''slice'' s) (\<lambda>final_lsn.
           and_then (subslice data 8 16) (\<lambda>s. and_then (try_into 8 ''slice'' s) (\<lambda>commit_ts.
           and_then (subslice data 16 20) (\<lambda>s. and_then (try_into 4 ''slice'' s) (\<lambda>xid.
           Ok ())))))))"

definition decode_commit :: "bytes \<Rightarrow> (unit, string) rresult" where
  "decode_commit data =
     (if length data < 25 then Err ''commit message too short''
      else and_then (subslice data 1 9) (\<lambda>s. and_then (try_into 8 ''slice'' s) (\<lambda>commit_lsn.
           Ok ())))"

definition replica_of :: "u8 \<Rightarrow> ReplicaIdentity" where
  "replica_of b =
     (if b = byte_of CHR ''d'' then RepDefault
      else if b = byte_of CHR ''n'' then RepNothing
      else if b = byte_of CHR ''f'' then RepFull
      else if b = byte_of CHR ''i'' then RepIndex
      else RepDefault)"

fun decode_rel_cols :: "nat \<Rightarrow> bytes \<Rightarrow> nat \<Rightarrow> (ColumnMeta list \<times> nat, string) rresult" where
  "decode_rel_cols 0 data pos = Ok ([], pos)"
| "decode_rel_cols (Suc n) data pos =
     and_then (read_u8 data pos) (\<lambda>(flags, pos).
     and_then (read_cstring data pos) (\<lambda>(name, pos).
     and_then (read_u32 data pos) (\<lambda>(type_oid, pos).
     and_then (read_u32 data pos) (\<lambda>(type_modifier, pos).
     and_then (decode_rel_cols n data pos) (\<lambda>(cs, pos).
     Ok (\<lparr>cm_name = name, cm_type_oid = type_oid, cm_is_key = (flags AND 1 \<noteq> 0)\<rparr> # cs, pos))))))"

definition decode_relation ::
    "'m relation_dm \<Rightarrow> 'm PgOutputDecoder \<Rightarrow> bytes \<Rightarrow> (unit, string) rresult \<times> 'm PgOutputDecoder" where
  "decode_relation D d data =
     (case and_then (read_u32 data 0) (\<lambda>(rel_id, pos).
           and_then (read_cstring data pos) (\<lambda>(schema, pos).
           and_then (read_cstring data pos) (\<lambda>(table, pos).
           and_then (read_u8 data pos) (\<lambda>(replica, pos).
           and_then (read_u16 data pos) (\<lambda>(n_cols, pos).
           and_then (decode_rel_cols (unat n_cols) data pos) (\<lambda>(cols, pos).
           Ok (rel_id, \<lparr>ri_schema = schema, ri_table = table, ri_columns = cols,
                        ri_replica_identity = replica_of replica\<rparr>))))))) of
        Ok (rel_id, info) \<Rightarrow> (Ok (), d\<lparr>relations := dm_insert D (relations d) rel_id info\<rparr>)
      | Err e \<Rightarrow> (Err e, d)
      | Panic \<Rightarrow> (Panic, d))"

definition get_relation ::
    "'m relation_dm \<Rightarrow> 'm PgOutputDecoder \<Rightarrow> u32 \<Rightarrow> (RelationInfo, string) rresult" where
  "get_relation D d rel_id =
     ok_or (dm_get D (relations d) rel_id) (''relation '' @ dec_str (unat rel_id) @ '' not found'')"

definition mk_event ::
    "u64 \<Rightarrow> OpType \<Rightarrow> RelationInfo \<Rightarrow> RowData option \<Rightarrow> RowData option \<Rightarrow> ChangeEvent" where
  "mk_event lsn op rel after before =
     \<lparr>ev_lsn = lsn, ev_xid = 0, ev_op = op,
      ev_table = \<lparr>tid_schema = ri_schema rel, tid_table = ri_table rel\<rparr>,
      ev_schema_fingerprint = compute_fingerprint rel,
      ev_after = after, ev_before = before, ev_commit_timestamp_us = 0\<rparr>"

text \<open>\<open>u8 as char\<close>, printed: the UTF-8 form of the Latin-1 character.\<close>

definition latin1 :: "u8 \<Rightarrow> string" where
  "latin1 b = (if unat b < 128 then [char_of_byte b]
     else [char_of (192 + unat b div 64), char_of (128 + unat b mod 64)])"

definition decode_insert ::
    "'m relation_dm \<Rightarrow> 'm PgOutputDecoder \<Rightarrow> u64 \<Rightarrow> bytes \<Rightarrow> (ChangeEvent option, string) rresult" where
  "decode_insert D d lsn data =
     and_then (read_u32 data 0) (\<lambda>(rel_id, pos).
     and_then (read_u8 data pos) (\<lambda>(tag, pos).
     if tag \<noteq> byte_of CHR ''N'' then
       Err (''insert: expected '' @ [CHR 39] @ ''N'' @ [CHR 39] @ '' tag, got '' @ latin1 tag)
     else and_then (get_relation D d rel_id) (\<lambda>rel.
          and_then (decode_tuple_data data pos (ri_columns rel)) (\<lambda>(after, pos).
          Ok (Some (mk_event lsn Insert rel (Some after) None))))))"

definition decode_update ::
    "'m relation_dm \<Rightarrow> 'm PgOutputDecoder \<Rightarrow> u64 \<Rightarrow> bytes \<Rightarrow> (ChangeEvent option, string) rresult" where
  "decode_update D d lsn data =
     and_then (read_u32 data 0) (\<lambda>(rel_id, pos).
     and_then (get_relation D d rel_id) (\<lambda>rel.
     and_then (read_u8 data pos) (\<lambda>(tag, pos).
     and_then
       (if tag = byte_of CHR ''K'' \<or> tag = byte_of CHR ''O''
        then and_then (decode_tuple_data data pos (ri_columns rel)) (\<lambda>(before, pos).
             and_then (read_u8 data pos) (\<lambda>(new_tag, pos). Ok (Some before, pos)))
        else Ok (None, pos)) (\<lambda>(before, pos).
     and_then (decode_tuple_data data pos (ri_columns rel)) (\<lambda>(after, pos).
     Ok (Some (mk_event lsn Update rel (Some after) before)))))))"

definition decode_delete ::
    "'m relation_dm \<Rightarrow> 'm PgOutputDecoder \<Rightarrow> u64 \<Rightarrow> bytes \<Rightarrow> (ChangeEvent option, string) rresult" where
  "decode_delete D d lsn data =
     and_then (read_u32 data 0) (\<lambda>(rel_id, pos).
     and_then (get_relation D d rel_id) (\<lambda>rel.
     and_then (read_u8 data pos) (\<lambda>(tag, pos).
     and_then (decode_tuple_data data pos (ri_columns rel)) (\<lambda>(before, pos).
     Ok (Some (mk_event lsn Delete rel None (Some before)))))))"

definition decode_truncate ::
    "'m relation_dm \<Rightarrow> 'm PgOutputDecoder \<Rightarrow> u64 \<Rightarrow> bytes \<Rightarrow> (ChangeEvent option, string) rresult" where
  "decode_truncate D d lsn data =
     and_then (read_u32 data 0) (\<lambda>(n_rels, pos).
     and_then (read_u8 data pos) (\<lambda>(options, pos).
     if n_rels > 0 then
       and_then (read_u32 data pos) (\<lambda>(rel_id, pos).
       case dm_get D (relations d) rel_id of
         Some rel \<Rightarrow> Ok (Some (mk_event lsn Truncate rel None None))
       | None \<Rightarrow> Ok None)
     else Ok None))"

definition decode ::
    "'m relation_dm \<Rightarrow> 'm PgOutputDecoder \<Rightarrow> u64 \<Rightarrow> bytes
     \<Rightarrow> (ChangeEvent option, string) rresult \<times> 'm PgOutputDecoder" where
  "decode D d lsn data =
     (if data = [] then (Ok None, d)
      else let tag = hd data; payload = tl data
           in if tag = byte_of CHR ''B'' then (and_then (decode_begin payload) (\<lambda>_. Ok None), d)
              else if tag = byte_of CHR ''C'' then (and_then (decode_commit payload) (\<lambda>_. Ok None), d)
              else if tag = byte_of CHR ''R'' then
                (let (res, d) = decode_relation D d payload in (and_then res (\<lambda>_. Ok None), d))
              else if tag = byte_of CHR ''I'' then (decode_insert D d lsn payload, d)
              else if tag = byte_of CHR ''U'' then (decode_update D d lsn payload, d)
              else if tag = byte_of CHR ''D'' then (decode_delete D d lsn payload, d)
              else if tag = byte_of CHR ''T'' then (decode_truncate D d lsn payload, d)
              else (Ok None, d))"

text \<open>The decoder for other plugins, \<open>src/services/pgsql/src/decoding/fallback.rs\<close>.\<close>

record FallbackDecoder =
  plugin_name :: string

definition fallback_new :: "string \<Rightarrow> FallbackDecoder" where
  "fallback_new name = \<lparr>plugin_name = name\<rparr>"

definition fallback_decode :: "FallbackDecoder \<Rightarrow> u64 \<Rightarrow> bytes \<Rightarrow> (ChangeEvent option, string) rresult" where
  "fallback_decode f lsn data = Ok None"

subsection \<open>No message makes the decoder panic\<close>

lemma no_panicI:
  "m \<noteq> Panic \<Longrightarrow> (\<And>a. m = Ok a \<Longrightarrow> f a \<noteq> Panic) \<Longrightarrow> and_then m f \<noteq> Panic"
  by (cases m) auto

lemma subslice_no_panic: "i \<le> j \<Longrightarrow> j \<le> length data \<Longrightarrow> subslice data i j \<noteq> Panic"
  by (simp add: subslice_def)

lemma read_no_panic:
  "read_u8 data pos \<noteq> Panic" "read_u16 data pos \<noteq> Panic" "read_u32 data pos \<noteq> Panic"
  by (auto simp: read_u8_def read_u16_def read_u32_def index_def try_into_def and_then_Panic_iff
      subslice_def)

lemma scan_nul_mono: "pos \<le> scan_nul data pos"
proof (induction data pos rule: scan_nul.induct)
  case (1 data pos)
  then show ?case by (subst scan_nul.simps) auto
qed

lemma read_cstring_no_panic: "read_cstring data pos \<noteq> Panic"
  using scan_nul_mono [of pos data]
  by (auto simp: read_cstring_def Let_def and_then_Panic_iff subslice_def)

lemma decode_tuple_col_no_panic: "decode_tuple_col data cols i pos \<noteq> Panic"
  unfolding decode_tuple_col_def Let_def
  by (rule no_panicI, simp add: read_no_panic)
    (auto simp: and_then_Panic_iff read_no_panic subslice_def split: prod.splits if_splits)

lemma decode_tuple_cols_no_panic: "decode_tuple_cols n data cols i pos \<noteq> Panic"
  by (induction n arbitrary: i pos)
    (auto simp: and_then_Panic_iff decode_tuple_col_no_panic)

lemma decode_tuple_data_no_panic: "decode_tuple_data data pos cols \<noteq> Panic"
  by (auto simp: decode_tuple_data_def and_then_Panic_iff read_no_panic decode_tuple_cols_no_panic)

lemma decode_rel_cols_no_panic: "decode_rel_cols n data pos \<noteq> Panic"
  by (induction n arbitrary: pos)
    (auto simp: and_then_Panic_iff read_no_panic read_cstring_no_panic)

lemma get_relation_no_panic: "get_relation D d i \<noteq> Panic"
  by (simp add: get_relation_def)

lemmas no_panic_facts = read_no_panic read_cstring_no_panic decode_tuple_data_no_panic
  decode_rel_cols_no_panic get_relation_no_panic

lemma decode_parts_no_panic:
  "decode_begin data \<noteq> Panic" "decode_commit data \<noteq> Panic" "fst (decode_relation D d data) \<noteq> Panic"
  "decode_insert D d lsn data \<noteq> Panic" "decode_update D d lsn data \<noteq> Panic"
  "decode_delete D d lsn data \<noteq> Panic" "decode_truncate D d lsn data \<noteq> Panic"
proof -
  show "decode_begin data \<noteq> Panic" "decode_commit data \<noteq> Panic"
    by (auto simp: decode_begin_def decode_commit_def and_then_Panic_iff subslice_def try_into_def)
  show "fst (decode_relation D d data) \<noteq> Panic"
    by (auto simp: decode_relation_def and_then_Panic_iff no_panic_facts split: rresult.splits)
  show "decode_insert D d lsn data \<noteq> Panic"
    by (auto simp: decode_insert_def and_then_Panic_iff no_panic_facts split: if_splits)
  show "decode_update D d lsn data \<noteq> Panic"
    by (auto simp: decode_update_def and_then_Panic_iff no_panic_facts split: if_splits)
  show "decode_delete D d lsn data \<noteq> Panic"
    by (auto simp: decode_delete_def and_then_Panic_iff no_panic_facts)
  show "decode_truncate D d lsn data \<noteq> Panic"
    by (auto simp: decode_truncate_def and_then_Panic_iff no_panic_facts split: if_splits option.splits)
qed

end
