(* ===== verification/Pg_Protocol.thy ===== *)
theory Pg_Protocol
  imports Pg_Output
begin

text \<open>
  The logical replication messages as PostgreSQL documents them: \<open>pg_encode\<close> writes a message, and
  \<open>stream_changes\<close> gives the changes a stream of messages stands for, with the relations that were
  announced and the transaction they belong to. This specification does not use the decoder of
  theory \<open>Pg_Output\<close>. The decoder is proved to report these changes; what it leaves out (the
  transaction, all but the first table of a \<open>TRUNCATE\<close>) is part of the statements.
\<close>

subsection \<open>The message format\<close>

datatype tuple_val = TNull | TUnchanged | TText string | TBinary bytes

datatype pg_msg =
    MBegin u64 i64 u32
  | MCommit u8 u64 u64 i64
  | MRelation u32 string string u8 "(u8 \<times> string \<times> u32 \<times> u32) list"
  | MInsert u32 "tuple_val list"
  | MUpdate u32 "(u8 \<times> tuple_val list) option" "tuple_val list"
  | MDelete u32 u8 "tuple_val list"
  | MTruncate u8 "u32 list"
  | MOther u8 bytes

definition enc_cstring :: "string \<Rightarrow> bytes" where
  "enc_cstring s = as_bytes s @ [0]"

fun enc_val :: "tuple_val \<Rightarrow> bytes" where
  "enc_val TNull = [byte_of CHR ''n'']"
| "enc_val TUnchanged = [byte_of CHR ''u'']"
| "enc_val (TText s) = byte_of CHR ''t'' # to_be_bytes (of_nat (length s) :: u32) @ as_bytes s"
| "enc_val (TBinary bs) = byte_of CHR ''b'' # to_be_bytes (of_nat (length bs) :: u32) @ bs"

definition enc_tuple :: "tuple_val list \<Rightarrow> bytes" where
  "enc_tuple vs = to_be_bytes (of_nat (length vs) :: u16) @ concat (map enc_val vs)"

definition enc_rel_col :: "u8 \<times> string \<times> u32 \<times> u32 \<Rightarrow> bytes" where
  "enc_rel_col = (\<lambda>(flags, name, oid, typmod).
     flags # enc_cstring name @ to_be_bytes oid @ to_be_bytes typmod)"

fun pg_encode :: "pg_msg \<Rightarrow> bytes" where
  "pg_encode (MBegin lsn ts xid) = byte_of CHR ''B'' # to_be_bytes lsn @ to_be_bytes ts @ to_be_bytes xid"
| "pg_encode (MCommit flags lsn end_lsn ts) =
     byte_of CHR ''C'' # flags # to_be_bytes lsn @ to_be_bytes end_lsn @ to_be_bytes ts"
| "pg_encode (MRelation oid schema table replica cols) =
     byte_of CHR ''R'' # to_be_bytes oid @ enc_cstring schema @ enc_cstring table @ [replica]
       @ to_be_bytes (of_nat (length cols) :: u16) @ concat (map enc_rel_col cols)"
| "pg_encode (MInsert oid new) = byte_of CHR ''I'' # to_be_bytes oid @ [byte_of CHR ''N''] @ enc_tuple new"
| "pg_encode (MUpdate oid None new) =
     byte_of CHR ''U'' # to_be_bytes oid @ [byte_of CHR ''N''] @ enc_tuple new"
| "pg_encode (MUpdate oid (Some (k, old)) new) =
     byte_of CHR ''U'' # to_be_bytes oid @ [k] @ enc_tuple old @ [byte_of CHR ''N''] @ enc_tuple new"
| "pg_encode (MDelete oid k old) = byte_of CHR ''D'' # to_be_bytes oid @ [k] @ enc_tuple old"
| "pg_encode (MTruncate options oids) =
     byte_of CHR ''T'' # to_be_bytes (of_nat (length oids) :: u32) @ [options] @ concat (map to_be_bytes oids)"
| "pg_encode (MOther tag bs) = tag # bs"

subsection \<open>Well-formed messages\<close>

definition ok_cstring :: "string \<Rightarrow> bool" where
  "ok_cstring s \<longleftrightarrow> wf_str s \<and> 0 \<notin> set (as_bytes s)"

fun ok_val :: "tuple_val \<Rightarrow> bool" where
  "ok_val (TText s) \<longleftrightarrow> wf_str s \<and> length s < 2 ^ 32"
| "ok_val (TBinary bs) \<longleftrightarrow> length bs < 2 ^ 32"
| "ok_val _ \<longleftrightarrow> True"

definition ok_tuple :: "tuple_val list \<Rightarrow> bool" where
  "ok_tuple vs \<longleftrightarrow> length vs < 2 ^ 16 \<and> list_all ok_val vs"

definition known_tags :: "u8 set" where
  "known_tags = set (map byte_of ''BCRIUDT'')"

definition old_tag :: "u8 \<Rightarrow> bool" where
  "old_tag k \<longleftrightarrow> k = byte_of CHR ''K'' \<or> k = byte_of CHR ''O''"

fun pg_ok :: "pg_msg \<Rightarrow> bool" where
  "pg_ok (MRelation oid schema table replica cols) \<longleftrightarrow>
     ok_cstring schema \<and> ok_cstring table \<and> length cols < 2 ^ 16
     \<and> list_all (\<lambda>(flags, name, rest). ok_cstring name) cols"
| "pg_ok (MInsert oid new) \<longleftrightarrow> ok_tuple new"
| "pg_ok (MUpdate oid old new) \<longleftrightarrow> ok_tuple new \<and> (\<forall>k vs. old = Some (k, vs) \<longrightarrow> ok_tuple vs \<and> old_tag k)"
| "pg_ok (MDelete oid k old) \<longleftrightarrow> ok_tuple old \<and> old_tag k"
| "pg_ok (MTruncate options oids) \<longleftrightarrow> length oids < 2 ^ 32"
| "pg_ok (MOther tag bs) \<longleftrightarrow> tag \<notin> known_tags"
| "pg_ok _ \<longleftrightarrow> True"

subsection \<open>The changes a stream stands for\<close>

text \<open>
  A change as the protocol describes it: where it is in the WAL, the transaction of the enclosing
  \<open>Begin\<close> message, the relation as it was announced, and the old and the new tuple.
\<close>

record rel_desc =
  rd_schema :: string
  rd_table :: string
  rd_cols :: "(string \<times> u32) list"

record change =
  ch_lsn :: u64
  ch_xid :: u32
  ch_commit_ts :: i64
  ch_op :: OpType
  ch_rel :: rel_desc
  ch_old :: "tuple_val list option"
  ch_new :: "tuple_val list option"

record session =
  ss_rels :: "u32 \<rightharpoonup> rel_desc"
  ss_xid :: u32
  ss_commit_ts :: i64

definition new_session :: session where
  "new_session = \<lparr>ss_rels = Map.empty, ss_xid = 0, ss_commit_ts = 0\<rparr>"

fun next_session :: "session \<Rightarrow> pg_msg \<Rightarrow> session" where
  "next_session ss (MBegin lsn ts xid) = ss\<lparr>ss_xid := xid, ss_commit_ts := ts\<rparr>"
| "next_session ss (MRelation oid schema table replica cols) = ss\<lparr>ss_rels := (ss_rels ss)(oid \<mapsto>
     \<lparr>rd_schema = schema, rd_table = table, rd_cols = map (\<lambda>(flags, name, type_oid, typmod). (name, type_oid)) cols\<rparr>)\<rparr>"
| "next_session ss _ = ss"

text \<open>One change per relation a message names; none where the relation was not announced.\<close>

definition change_at ::
    "session \<Rightarrow> u64 \<Rightarrow> OpType \<Rightarrow> tuple_val list option \<Rightarrow> tuple_val list option \<Rightarrow> u32 \<Rightarrow> change option" where
  "change_at ss lsn op old new oid = map_option (\<lambda>rel.
     \<lparr>ch_lsn = lsn, ch_xid = ss_xid ss, ch_commit_ts = ss_commit_ts ss, ch_op = op, ch_rel = rel,
      ch_old = old, ch_new = new\<rparr>) (ss_rels ss oid)"

fun msg_changes :: "session \<Rightarrow> u64 \<Rightarrow> pg_msg \<Rightarrow> change option list" where
  "msg_changes ss lsn (MInsert oid new) = [change_at ss lsn Insert None (Some new) oid]"
| "msg_changes ss lsn (MUpdate oid old new) = [change_at ss lsn Update (map_option snd old) (Some new) oid]"
| "msg_changes ss lsn (MDelete oid k old) = [change_at ss lsn Delete (Some old) None oid]"
| "msg_changes ss lsn (MTruncate options oids) = map (change_at ss lsn Truncate None None) oids"
| "msg_changes ss lsn _ = []"

fun stream_changes :: "session \<Rightarrow> (u64 \<times> pg_msg) list \<Rightarrow> (pg_msg \<times> change option list) list" where
  "stream_changes ss [] = []"
| "stream_changes ss ((lsn, msg) # msgs) =
     (msg, msg_changes ss lsn msg) # stream_changes (next_session ss msg) msgs"

subsection \<open>What an event shows of a change\<close>

text \<open>PostgreSQL's text form of binary data: \<open>\x\<close> and two lower-case hexadecimal digits per byte.\<close>

definition bytea_text :: "bytes \<Rightarrow> string" where
  "bytea_text bs = [CHR 0x5c, CHR ''x''] @
     concat (map (\<lambda>b. [''0123456789abcdef'' ! (unat b div 16), ''0123456789abcdef'' ! (unat b mod 16)]) bs)"

text \<open>An unchanged value that was not sent is shown like a null.\<close>

fun shows_val :: "string option \<Rightarrow> tuple_val \<Rightarrow> bool" where
  "shows_val v TNull \<longleftrightarrow> v = None"
| "shows_val v TUnchanged \<longleftrightarrow> v = None"
| "shows_val v (TText s) \<longleftrightarrow> v = Some s"
| "shows_val v (TBinary bs) \<longleftrightarrow> v = Some (bytea_text bs)"

text \<open>A tuple with more values than the relation has columns has made-up names for the rest.\<close>

fun shows_row :: "(string \<times> u32) list \<Rightarrow> RowData option \<Rightarrow> tuple_val list option \<Rightarrow> bool" where
  "shows_row cols (Some row) (Some vs) \<longleftrightarrow>
     map (\<lambda>c. (cv_name c, cv_type_oid c)) (columns row) =
       map (\<lambda>i. if i < length cols then cols ! i else (''col_'' @ dec_str i, 0)) [0..<length vs]
     \<and> list_all2 shows_val (map cv_value (columns row)) vs"
| "shows_row cols None None \<longleftrightarrow> True"
| "shows_row cols _ _ \<longleftrightarrow> False"

text \<open>The fingerprint hashes the names and the types, each name closed by the byte 0xFF.\<close>

definition rel_bytes :: "rel_desc \<Rightarrow> bytes" where
  "rel_bytes rel = as_bytes (rd_schema rel) @ [255] @ as_bytes (rd_table rel) @ [255]
     @ concat (map (\<lambda>(name, oid). as_bytes name @ [255] @ rev (to_be_bytes oid)) (rd_cols rel))"

definition event_shows :: "ChangeEvent \<Rightarrow> change \<Rightarrow> bool" where
  "event_shows e c \<longleftrightarrow> ev_lsn e = ch_lsn c \<and> ev_op e = ch_op c
     \<and> tid_schema (ev_table e) = rd_schema (ch_rel c) \<and> tid_table (ev_table e) = rd_table (ch_rel c)
     \<and> ev_schema_fingerprint e = siphash13 (rel_bytes (ch_rel c))
     \<and> shows_row (rd_cols (ch_rel c)) (ev_after e) (ch_new c)
     \<and> shows_row (rd_cols (ch_rel c)) (ev_before e) (ch_old c)"

text \<open>
  What the decoder answers to a message: nothing if there is no change; an event that shows the
  first change, but with the transaction id and the commit time zero; for a relation that was not
  announced an error, or nothing if the message is a \<open>TRUNCATE\<close>.
\<close>

definition reports :: "(ChangeEvent option, string) rresult \<Rightarrow> pg_msg \<times> change option list \<Rightarrow> bool" where
  "reports r = (\<lambda>(msg, cs). case cs of
       [] \<Rightarrow> r = Ok None
     | Some c # _ \<Rightarrow> (\<exists>e. r = Ok (Some e) \<and> event_shows e c \<and> ev_xid e = 0 \<and> ev_commit_timestamp_us e = 0)
     | None # _ \<Rightarrow> (case msg of MTruncate _ _ \<Rightarrow> r = Ok None | _ \<Rightarrow> (\<exists>text. r = Err text)))"

subsection \<open>The results of the decoder in closed form\<close>

text \<open>
  What the decoder makes of a well-formed message, as a function of the message instead of its
  bytes. It describes the decoder, not the protocol, and is the middle step of the proofs.
\<close>

fun val_text :: "tuple_val \<Rightarrow> string option" where
  "val_text (TText s) = Some s"
| "val_text (TBinary bs) = Some ([CHR 92] @ ''x'' @ hex_encode bs)"
| "val_text _ = None"

definition col_of :: "ColumnMeta list \<Rightarrow> nat \<Rightarrow> tuple_val \<Rightarrow> ColumnValue" where
  "col_of cols i v =
     \<lparr>cv_name = (if i < length cols then cm_name (cols ! i) else ''col_'' @ dec_str i),
      cv_type_oid = (if i < length cols then cm_type_oid (cols ! i) else 0),
      cv_value = val_text v\<rparr>"

definition row_of :: "ColumnMeta list \<Rightarrow> tuple_val list \<Rightarrow> RowData" where
  "row_of cols vs = \<lparr>columns = map (\<lambda>i. col_of cols i (vs ! i)) [0..<length vs]\<rparr>"

definition info_of :: "string \<Rightarrow> string \<Rightarrow> u8 \<Rightarrow> (u8 \<times> string \<times> u32 \<times> u32) list \<Rightarrow> RelationInfo" where
  "info_of schema table replica cols =
     \<lparr>ri_schema = schema, ri_table = table,
      ri_columns = map (\<lambda>(flags, name, oid, typmod).
        \<lparr>cm_name = name, cm_type_oid = oid, cm_is_key = (flags AND 1 \<noteq> 0)\<rparr>) cols,
      ri_replica_identity = replica_of replica\<rparr>"

definition unknown_relation :: "u32 \<Rightarrow> ('a, string) rresult" where
  "unknown_relation oid = Err (''relation '' @ dec_str (unat oid) @ '' not found'')"

fun decoded_msg ::
    "(u32 \<rightharpoonup> RelationInfo) \<Rightarrow> u64 \<Rightarrow> pg_msg \<Rightarrow> (ChangeEvent option, string) rresult \<times> (u32 \<rightharpoonup> RelationInfo)" where
  "decoded_msg rels lsn (MRelation oid schema table replica cols) =
     (Ok None, rels(oid \<mapsto> info_of schema table replica cols))"
| "decoded_msg rels lsn (MInsert oid new) =
     ((case rels oid of None \<Rightarrow> unknown_relation oid
       | Some rel \<Rightarrow> Ok (Some (mk_event lsn Insert rel (Some (row_of (ri_columns rel) new)) None))), rels)"
| "decoded_msg rels lsn (MUpdate oid old new) =
     ((case rels oid of None \<Rightarrow> unknown_relation oid
       | Some rel \<Rightarrow> Ok (Some (mk_event lsn Update rel (Some (row_of (ri_columns rel) new))
            (map_option (\<lambda>(k, vs). row_of (ri_columns rel) vs) old)))), rels)"
| "decoded_msg rels lsn (MDelete oid k old) =
     ((case rels oid of None \<Rightarrow> unknown_relation oid
       | Some rel \<Rightarrow> Ok (Some (mk_event lsn Delete rel None (Some (row_of (ri_columns rel) old))))), rels)"
| "decoded_msg rels lsn (MTruncate options oids) =
     (Ok (case oids of [] \<Rightarrow> None | oid # _ \<Rightarrow>
        map_option (\<lambda>rel. mk_event lsn Truncate rel None None) (rels oid)), rels)"
| "decoded_msg rels lsn _ = (Ok None, rels)"

subsection \<open>Parsers and what they read\<close>

text \<open>
  \<open>parses f enc v\<close>: wherever \<open>enc\<close> stands in the data, \<open>f\<close> reads it, gives \<open>v\<close> and moves the
  position past it.
\<close>

definition parses :: "(bytes \<Rightarrow> nat \<Rightarrow> ('v \<times> nat, string) rresult) \<Rightarrow> bytes \<Rightarrow> 'v \<Rightarrow> bool" where
  "parses f enc v \<longleftrightarrow> (\<forall>data p r. suffix_at data p (enc @ r) \<longrightarrow> f data p = Ok (v, p + length enc))"

lemma parsesD: "parses f enc v \<Longrightarrow> suffix_at data p (enc @ r) \<Longrightarrow> f data p = Ok (v, p + length enc)"
  by (auto simp: parses_def)

lemma parses_bind:
  assumes "parses f e1 a" and "parses (g a) e2 b"
  shows "parses (\<lambda>data p. and_then (f data p) (\<lambda>(x, p). g x data p)) (e1 @ e2) b"
  unfolding parses_def
proof (intro allI impI)
  fix data p r
  assume s: "suffix_at data p ((e1 @ e2) @ r)"
  then have s1: "suffix_at data p (e1 @ e2 @ r)" by simp
  have s2: "suffix_at data (p + length e1) (e2 @ r)" by (rule suffix_at_add [OF s1 refl])
  show "and_then (f data p) (\<lambda>(x, p). g x data p) = Ok (b, p + length (e1 @ e2))"
    using parsesD [OF assms(1) s1] parsesD [OF assms(2) s2] by (simp add: add.assoc)
qed

lemma parses_map:
  "parses f e v \<Longrightarrow> parses (\<lambda>data p. and_then (f data p) (\<lambda>(x, p). Ok (h x, p))) e (h v)"
  by (simp add: parses_def)

lemma parses_u8: "parses read_u8 [b] b"
proof -
  have "(index data p :: (u8, string) rresult) = Ok b" if "suffix_at data p (b # r)" for data p r
    using that by (rule suffix_at_index)
  moreover have "p < length data" if "suffix_at data p (b # r)" for data p and r :: bytes
    using suffix_at_length [OF that] by simp
  ultimately show ?thesis by (fastforce simp: parses_def read_u8_def)
qed

lemma parses_word:
  assumes "8 * n = LENGTH('a::len)"
    and "\<And>data p. f data p = (if p + n > length data then Err (eom p)
      else and_then (subslice data p (p + n)) (\<lambda>s. and_then (try_into n e s) (\<lambda>bs.
           Ok (from_be_bytes bs :: 'a word, p + n))))"
  shows "parses f (to_be_bytes w) w"
  unfolding parses_def
proof (intro allI impI)
  fix data p r
  assume s: "suffix_at data p (to_be_bytes w @ r)"
  have len: "length (to_be_bytes w) = n" using assms(1) by (simp flip: assms(1))
  have dvd: "8 dvd LENGTH('a)" by (simp flip: assms(1))
  have "(subslice data p (p + n) :: (bytes, string) rresult) = Ok (to_be_bytes w)"
    by (rule suffix_at_subslice [OF s len])
  moreover have "p + n \<le> length data" using suffix_at_length [OF s] len by simp
  ultimately show "f data p = Ok (w, p + length (to_be_bytes w))"
    using len by (simp add: assms(2) try_into_def from_to_be_bytes [OF dvd] del: length_to_be_bytes)
qed

lemma parses_u16: "parses read_u16 (to_be_bytes w) w"
  by (rule parses_word [of 2]) (simp_all add: read_u16_def)

lemma parses_u32: "parses read_u32 (to_be_bytes w) w"
  by (rule parses_word [of 4]) (simp_all add: read_u32_def)

lemma suffix_at_nth: "suffix_at data p (b # r) \<Longrightarrow> p < length data \<and> data ! p = b"
  using suffix_at_index [of data p b r, where 'b = string] by (simp add: index_def split: if_splits)

lemma scan_nul_at:
  "suffix_at data p (bs @ 0 # r) \<Longrightarrow> 0 \<notin> set bs \<Longrightarrow> scan_nul data p = p + length bs"
proof (induction bs arbitrary: p)
  case Nil
  then show ?case using suffix_at_nth [of data p 0 r] by (subst scan_nul.simps) simp
next
  case (Cons b bs)
  have s: "suffix_at data p (b # bs @ 0 # r)" using Cons.prems(1) by simp
  have "scan_nul data (p + 1) = p + 1 + length bs"
    using Cons.IH [OF suffix_at_Cons [OF s]] Cons.prems(2) by simp
  then show ?case using suffix_at_nth [OF s] Cons.prems(2) by (subst scan_nul.simps) auto
qed

lemma parses_cstring:
  assumes "ok_cstring s"
  shows "parses read_cstring (enc_cstring s) s"
  unfolding parses_def
proof (intro allI impI)
  fix data p r
  assume "suffix_at data p (enc_cstring s @ r)"
  then have s: "suffix_at data p (as_bytes s @ 0 # r)" by (simp add: enc_cstring_def)
  have wf: "wf_str s" and nul: "0 \<notin> set (as_bytes s)" using assms by (simp_all add: ok_cstring_def)
  have scan: "scan_nul data p = p + length s" using scan_nul_at [OF s nul] by simp
  have "(subslice data p (p + length s) :: (bytes, string) rresult) = Ok (as_bytes s)"
    by (rule suffix_at_subslice [OF s]) simp
  then show "read_cstring data p = Ok (s, p + length (enc_cstring s))"
    using suffix_at_length [OF s] wf by (simp add: read_cstring_def Let_def scan enc_cstring_def)
qed

lemma blob_at:
  assumes "suffix_at data p (to_be_bytes (of_nat (length bs) :: u32) @ bs @ r)" and "length bs < 2 ^ 32"
  shows "read_u32 data p = Ok (of_nat (length bs), p + 4)" "unat (of_nat (length bs) :: u32) = length bs"
    "(subslice data (p + 4) (p + 4 + length bs) :: (bytes, string) rresult) = Ok bs"
    "p + 4 + length bs \<le> length data"
proof -
  show "unat (of_nat (length bs) :: u32) = length bs" using assms(2) by (simp add: unat_of_nat_len)
  show "read_u32 data p = Ok (of_nat (length bs), p + 4)" using parsesD [OF parses_u32 assms(1)] by simp
  have s2: "suffix_at data (p + 4) (bs @ r)" by (rule suffix_at_add [OF assms(1)]) simp
  then show "(subslice data (p + 4) (p + 4 + length bs) :: (bytes, string) rresult) = Ok bs"
    by (rule suffix_at_subslice) simp
  show "p + 4 + length bs \<le> length data" using suffix_at_length [OF s2] by simp
qed

lemma parses_tuple_col:
  assumes "ok_val v"
  shows "parses (\<lambda>data p. decode_tuple_col data cols i p) (enc_val v) (col_of cols i v)"
  unfolding parses_def
proof (intro allI impI)
  fix data p r
  assume s: "suffix_at data p (enc_val v @ r)"
  have tag: "read_u8 data p = Ok (t, p + 1)" if "suffix_at data p (t # rest)" for t rest
    using parsesD [OF parses_u8, of data p t rest] that by simp
  show "decode_tuple_col data cols i p = Ok (col_of cols i v, p + length (enc_val v))"
  proof (cases v)
    case (TText t)
    have s0: "suffix_at data p (byte_of CHR ''t'' # to_be_bytes (of_nat (length (as_bytes t)) :: u32) @ as_bytes t @ r)"
      using s TText by simp
    have ok: "length (as_bytes t) < 2 ^ 32" "wf_str t" using assms TText by simp_all
    note blob = blob_at [OF suffix_at_Cons [OF s0] ok(1)]
    show ?thesis using blob ok(2)
      by (simp add: TText decode_tuple_col_def tag [OF s0] Let_def col_of_def add.assoc)
  next
    case (TBinary bs)
    have s0: "suffix_at data p (byte_of CHR ''b'' # to_be_bytes (of_nat (length bs) :: u32) @ bs @ r)"
      using s TBinary by simp
    have ok: "length bs < 2 ^ 32" using assms TBinary by simp
    note blob = blob_at [OF suffix_at_Cons [OF s0] ok]
    show ?thesis using blob
      by (simp add: TBinary decode_tuple_col_def tag [OF s0] Let_def col_of_def add.assoc)
  qed (use s tag in \<open>simp_all add: decode_tuple_col_def Let_def col_of_def\<close>)
qed

lemma parses_tuple_cols:
  "list_all ok_val vs \<Longrightarrow>
     parses (\<lambda>data p. decode_tuple_cols (length vs) data cols i p) (concat (map enc_val vs))
       (map (\<lambda>j. col_of cols (i + j) (vs ! j)) [0..<length vs])"
proof (induction vs arbitrary: i)
  case Nil
  show ?case by (simp add: parses_def)
next
  case (Cons v vs)
  have eq: "map (\<lambda>j. col_of cols (i + j) ((v # vs) ! j)) [0..<length (v # vs)]
      = col_of cols i v # map (\<lambda>j. col_of cols (i + 1 + j) (vs ! j)) [0..<length vs]"
    by (simp add: upt_conv_Cons map_Suc_upt [symmetric] del: upt_Suc)
  have v: "parses (\<lambda>data p. decode_tuple_col data cols i p) (enc_val v) (col_of cols i v)"
    using Cons.prems by (intro parses_tuple_col) simp
  have "parses (\<lambda>data p. and_then (decode_tuple_cols (length vs) data cols (i + 1) p)
        (\<lambda>(cs, p). Ok (col_of cols i v # cs, p))) (concat (map enc_val vs))
      (col_of cols i v # map (\<lambda>j. col_of cols (i + 1 + j) (vs ! j)) [0..<length vs])"
    using Cons.IH [of "i + 1"] Cons.prems by (intro parses_map) simp
  from parses_bind [OF v, where g = "\<lambda>c data p. and_then (decode_tuple_cols (length vs) data cols (i + 1) p)
        (\<lambda>(cs, p). Ok (c # cs, p))"] this
  show ?case unfolding eq by simp
qed

lemma parses_tuple:
  assumes "ok_tuple vs"
  shows "parses (\<lambda>data p. decode_tuple_data data p cols) (enc_tuple vs) (row_of cols vs)"
proof -
  let ?w = "of_nat (length vs) :: u16"
  have n: "unat ?w = length vs" using assms by (simp add: ok_tuple_def unat_of_nat_len)
  have "parses (\<lambda>data p. and_then (decode_tuple_cols (unat ?w) data cols 0 p)
      (\<lambda>(cs, p). Ok (\<lparr>columns = cs\<rparr>, p))) (concat (map enc_val vs)) (row_of cols vs)"
    unfolding row_of_def n
    using parses_tuple_cols [of vs cols 0] assms by (intro parses_map) (simp add: ok_tuple_def)
  from parses_bind [OF parses_u16, where g = "\<lambda>n data p. and_then (decode_tuple_cols (unat n) data cols 0 p)
      (\<lambda>(cs, p). Ok (\<lparr>columns = cs\<rparr>, p))", OF this]
  show ?thesis by (simp add: decode_tuple_data_def enc_tuple_def)
qed

lemma parses_rel_cols:
  "list_all (\<lambda>(flags, name, rest). ok_cstring name) cols \<Longrightarrow>
     parses (\<lambda>data p. decode_rel_cols (length cols) data p) (concat (map enc_rel_col cols))
       (map (\<lambda>(flags, name, oid, typmod).
          \<lparr>cm_name = name, cm_type_oid = oid, cm_is_key = (flags AND 1 \<noteq> 0)\<rparr>) cols)"
proof (induction cols)
  case Nil
  show ?case by (simp add: parses_def)
next
  case (Cons c cols)
  obtain flags name oid tm where c: "c = (flags, name, oid, tm)" by (cases c)
  have name: "parses read_cstring (enc_cstring name) name"
    using Cons.prems by (intro parses_cstring) (simp add: c)
  have rest: "parses (\<lambda>data p. decode_rel_cols (length cols) data p) (concat (map enc_rel_col cols))
      (map (\<lambda>(flags, name, oid, typmod).
          \<lparr>cm_name = name, cm_type_oid = oid, cm_is_key = (flags AND 1 \<noteq> 0)\<rparr>) cols)"
    using Cons by simp
  let ?k = "\<lambda>f n t data p. and_then (decode_rel_cols (length cols) data p) (\<lambda>(cs, p).
     Ok (\<lparr>cm_name = n, cm_type_oid = t, cm_is_key = (f AND 1 \<noteq> (0 :: u8))\<rparr> # cs, p))"
  have "parses (\<lambda>data p. and_then (read_u8 data p) (\<lambda>(f, p). and_then (read_cstring data p) (\<lambda>(n, p).
      and_then (read_u32 data p) (\<lambda>(t, p). and_then (read_u32 data p) (\<lambda>(m, p). ?k f n t data p)))))
    ([flags] @ enc_cstring name @ to_be_bytes oid @ to_be_bytes tm @ concat (map enc_rel_col cols))
    (map (\<lambda>(flags, name, oid, typmod).
          \<lparr>cm_name = name, cm_type_oid = oid, cm_is_key = (flags AND 1 \<noteq> 0)\<rparr>) (c # cols))"
    unfolding c list.map prod.case
    by (intro parses_bind [OF parses_u8] parses_bind [OF name] parses_bind [OF parses_u32]
        parses_map [OF rest])
  then show ?case by (simp add: c enc_rel_col_def)
qed

subsection \<open>Whole messages\<close>

lemma parses_whole:
  assumes "parses f e a" and "suffix_at data p (e @ r)"
  shows "f data p = Ok (a, p + length e)" "suffix_at data (p + length e) r"
  using parsesD [OF assms] suffix_at_add [OF assms(2) refl] by simp_all

lemma decode_relation_encode:
  assumes "pg_ok (MRelation oid schema table replica cols)"
  shows "decode_relation D d (tl (pg_encode (MRelation oid schema table replica cols))) =
     (Ok (), d\<lparr>relations := dm_insert D (relations d) oid (info_of schema table replica cols)\<rparr>)"
proof -
  let ?n = "of_nat (length cols) :: u16"
  define data where "data = to_be_bytes oid @ enc_cstring schema @ enc_cstring table @ [replica]
    @ to_be_bytes ?n @ concat (map enc_rel_col cols)"
  have enc: "tl (pg_encode (MRelation oid schema table replica cols)) = data"
    by (simp add: data_def)
  have n: "unat ?n = length cols" using assms by (simp add: unat_of_nat_len)
  have cols: "parses (\<lambda>data p. decode_rel_cols (unat ?n) data p) (concat (map enc_rel_col cols))
      (ri_columns (info_of schema table replica cols))"
    using parses_rel_cols [of cols] assms by (simp add: n info_of_def)
  have "parses (\<lambda>data p. and_then (read_u32 data p) (\<lambda>(i, p). and_then (read_cstring data p) (\<lambda>(sc, p).
      and_then (read_cstring data p) (\<lambda>(t, p). and_then (read_u8 data p) (\<lambda>(rep, p).
      and_then (read_u16 data p) (\<lambda>(n, p). and_then (decode_rel_cols (unat n) data p) (\<lambda>(cs, p).
      Ok ((i, \<lparr>ri_schema = sc, ri_table = t, ri_columns = cs, ri_replica_identity = replica_of rep\<rparr>), p))))))))
    data
    (oid, \<lparr>ri_schema = schema, ri_table = table, ri_columns = ri_columns (info_of schema table replica cols),
       ri_replica_identity = replica_of replica\<rparr>)"
    using assms unfolding data_def
    by (intro parses_bind [OF parses_u32] parses_bind [OF parses_cstring] parses_bind [OF parses_u8]
        parses_bind [OF parses_u16] parses_map [OF cols]) simp_all
  from parsesD [OF this, of data 0 "[]"] show ?thesis
    unfolding enc by (auto simp: decode_relation_def info_of_def and_then_Ok_iff)
qed

lemma get_relation_cases:
  "get_relation D d oid = (case dm_get D (relations d) oid of None \<Rightarrow> unknown_relation oid | Some rel \<Rightarrow> Ok rel)"
  by (simp add: get_relation_def unknown_relation_def split: option.split)

lemma unknown_relation_bind [simp]: "and_then (unknown_relation oid) f = unknown_relation oid"
  by (simp add: unknown_relation_def)

lemma decode_insert_encode:
  assumes "ok_tuple new"
  shows "decode_insert D d lsn (tl (pg_encode (MInsert oid new))) =
     fst (decoded_msg (dm_get D (relations d)) lsn (MInsert oid new))"
proof -
  define data where "data = to_be_bytes oid @ [byte_of CHR ''N''] @ enc_tuple new"
  have s0: "suffix_at data 0 (to_be_bytes oid @ [byte_of CHR ''N''] @ enc_tuple new @ [])"
    by (simp add: data_def)
  note r1 = parses_whole [OF parses_u32 s0]
  note r2 = parses_whole [OF parses_u8 r1(2)]
  note r3 = parses_whole [OF parses_tuple [OF assms] r2(2)]
  have "tl (pg_encode (MInsert oid new)) = data" by (simp add: data_def)
  with r1(1) r2(1) r3(1) show ?thesis
    by (simp add: decode_insert_def get_relation_cases split: option.split)
qed

lemma decode_update_encode:
  assumes "pg_ok (MUpdate oid old new)"
  shows "decode_update D d lsn (tl (pg_encode (MUpdate oid old new))) =
     fst (decoded_msg (dm_get D (relations d)) lsn (MUpdate oid old new))"
proof (cases old)
  case None
  define data where "data = to_be_bytes oid @ [byte_of CHR ''N''] @ enc_tuple new"
  have new: "ok_tuple new" using assms by simp
  have s0: "suffix_at data 0 (to_be_bytes oid @ [byte_of CHR ''N''] @ enc_tuple new @ [])"
    by (simp add: data_def)
  note r1 = parses_whole [OF parses_u32 s0]
  note r2 = parses_whole [OF parses_u8 r1(2)]
  note r3 = parses_whole [OF parses_tuple [OF new] r2(2)]
  have "tl (pg_encode (MUpdate oid old new)) = data" by (simp add: data_def None)
  with r1(1) r2(1) r3(1) show ?thesis
    by (simp add: None decode_update_def get_relation_cases split: option.split)
next
  case (Some kv)
  then obtain k vs where old: "old = Some (k, vs)" by (cases kv) auto
  define data where "data = to_be_bytes oid @ [k] @ enc_tuple vs @ [byte_of CHR ''N''] @ enc_tuple new"
  have new: "ok_tuple new" and vs: "ok_tuple vs" and k: "old_tag k" using assms old by simp_all
  have s0: "suffix_at data 0 (to_be_bytes oid @ [k] @ enc_tuple vs @ [byte_of CHR ''N''] @ enc_tuple new @ [])"
    by (simp add: data_def)
  note r1 = parses_whole [OF parses_u32 s0]
  note r2 = parses_whole [OF parses_u8 r1(2)]
  note r3 = parses_whole [OF parses_tuple [OF vs] r2(2)]
  note r4 = parses_whole [OF parses_u8 r3(2)]
  note r5 = parses_whole [OF parses_tuple [OF new] r4(2)]
  have "tl (pg_encode (MUpdate oid old new)) = data" by (simp add: data_def old)
  with r1(1) r2(1) r3(1) r4(1) r5(1) k show ?thesis
    by (simp add: old decode_update_def get_relation_cases old_tag_def split: option.split)
qed

lemma decode_delete_encode:
  assumes "ok_tuple old"
  shows "decode_delete D d lsn (tl (pg_encode (MDelete oid k old))) =
     fst (decoded_msg (dm_get D (relations d)) lsn (MDelete oid k old))"
proof -
  define data where "data = to_be_bytes oid @ [k] @ enc_tuple old"
  have s0: "suffix_at data 0 (to_be_bytes oid @ [k] @ enc_tuple old @ [])" by (simp add: data_def)
  note r1 = parses_whole [OF parses_u32 s0]
  note r2 = parses_whole [OF parses_u8 r1(2)]
  note r3 = parses_whole [OF parses_tuple [OF assms] r2(2)]
  have "tl (pg_encode (MDelete oid k old)) = data" by (simp add: data_def)
  with r1(1) r2(1) r3(1) show ?thesis
    by (simp add: decode_delete_def get_relation_cases split: option.split)
qed

lemma decode_truncate_encode:
  assumes "length oids < 2 ^ 32"
  shows "decode_truncate D d lsn (tl (pg_encode (MTruncate opts oids))) =
     fst (decoded_msg (dm_get D (relations d)) lsn (MTruncate opts oids))"
proof -
  let ?n = "of_nat (length oids) :: u32"
  define data where "data = to_be_bytes ?n @ [opts] @ concat (map to_be_bytes oids)"
  have n: "0 < ?n \<longleftrightarrow> oids \<noteq> []"
    using unat_of_nat_len [of "length oids", where 'a = 32] assms by (auto simp: word_less_nat_alt)
  have s0: "suffix_at data 0 (to_be_bytes ?n @ [opts] @ concat (map to_be_bytes oids))"
    by (simp add: data_def)
  note r1 = parses_whole [OF parses_u32 s0]
  note r2 = parses_whole [OF parses_u8 r1(2)]
  have enc: "tl (pg_encode (MTruncate opts oids)) = data" by (simp add: data_def)
  show ?thesis
  proof (cases oids)
    case Nil
    with r1(1) r2(1) n show ?thesis unfolding enc by (simp add: decode_truncate_def)
  next
    case (Cons oid rest)
    have "suffix_at data 5 (to_be_bytes oid @ concat (map to_be_bytes rest))"
      using r2(2) by (simp add: Cons)
    from parses_whole(1) [OF parses_u32 this] r1(1) r2(1) n Cons show ?thesis
      unfolding enc by (simp add: decode_truncate_def split: option.split)
  qed
qed

locale relation_map = dashmap D for D :: "'m relation_dm"
begin

lemma decode_message:
  assumes "pg_ok msg"
  shows "fst (decode D d lsn (pg_encode msg)) = fst (decoded_msg (dm_get D (relations d)) lsn msg)
     \<and> dm_get D (relations (snd (decode D d lsn (pg_encode msg)))) =
         snd (decoded_msg (dm_get D (relations d)) lsn msg)"
proof (cases msg)
  case (MRelation oid schema table replica cols)
  then show ?thesis
    using decode_relation_encode [of oid schema table replica cols D d] assms
    by (simp add: decode_def fun_eq_iff)
next
  case (MUpdate oid old new)
  then have "pg_encode msg \<noteq> []" "hd (pg_encode msg) = byte_of CHR ''U''"
    by (cases old; auto)+
  with MUpdate show ?thesis
    using decode_update_encode [of oid old new D d lsn] assms by (simp add: decode_def)
next
  case (MOther tag bs)
  then show ?thesis using assms by (auto simp: decode_def known_tags_def)
next
  case (MInsert oid new)
  then show ?thesis using decode_insert_encode [of new D d lsn oid] assms by (simp add: decode_def)
next
  case (MDelete oid k old)
  then show ?thesis using decode_delete_encode [of old D d lsn oid k] assms by (simp add: decode_def)
next
  case (MTruncate opts oids)
  then show ?thesis using decode_truncate_encode [of oids D d lsn opts] assms by (simp add: decode_def)
qed (simp_all add: decode_def decode_begin_def decode_commit_def subslice_def try_into_def)

end

interpretation alist_rel: relation_map alist_dashmap ..

lemma decode_event_header:
  "fst (decode D d lsn data) = Ok (Some e) \<Longrightarrow> ev_xid e = 0 \<and> ev_commit_timestamp_us e = 0 \<and> ev_lsn e = lsn"
  by (auto simp: decode_def Let_def and_then_Ok_iff split_beta decode_insert_def decode_update_def
      decode_delete_def decode_truncate_def mk_event_def split: if_splits option.splits)

subsection \<open>Streams\<close>

fun decode_stream ::
    "'m relation_dm \<Rightarrow> 'm PgOutputDecoder \<Rightarrow> (u64 \<times> bytes) list \<Rightarrow> (ChangeEvent option, string) rresult list" where
  "decode_stream D d [] = []"
| "decode_stream D d ((lsn, data) # msgs) =
     (let (r, d) = decode D d lsn data in r # decode_stream D d msgs)"

fun decoded_stream ::
    "(u32 \<rightharpoonup> RelationInfo) \<Rightarrow> (u64 \<times> pg_msg) list \<Rightarrow> (ChangeEvent option, string) rresult list" where
  "decoded_stream rels [] = []"
| "decoded_stream rels ((lsn, msg) # msgs) =
     (let (r, rels) = decoded_msg rels lsn msg in r # decoded_stream rels msgs)"

context relation_map
begin

lemma decode_stream_decoded:
  "list_all (\<lambda>(lsn, msg). pg_ok msg) msgs \<Longrightarrow>
     decode_stream D d (map (\<lambda>(lsn, msg). (lsn, pg_encode msg)) msgs) =
     decoded_stream (dm_get D (relations d)) msgs"
proof (induction msgs arbitrary: d)
  case (Cons lm msgs)
  obtain lsn msg where lm: "lm = (lsn, msg)" by (cases lm)
  have "pg_ok msg" using Cons.prems by (simp add: lm)
  from decode_message [OF this, of d lsn] Cons show ?case
    by (simp add: lm Let_def split_beta)
qed simp

lemma decode_stream_new:
  "list_all (\<lambda>(lsn, msg). pg_ok msg) msgs \<Longrightarrow>
     decode_stream D (decoder_new D) (map (\<lambda>(lsn, msg). (lsn, pg_encode msg)) msgs) = decoded_stream Map.empty msgs"
proof -
  have "dm_get D (relations (decoder_new D)) = Map.empty" by (simp add: decoder_new_def fun_eq_iff)
  then show "list_all (\<lambda>(lsn, msg). pg_ok msg) msgs \<Longrightarrow> ?thesis"
    using decode_stream_decoded [of msgs "decoder_new D"] by simp
qed

end

subsection \<open>Decoded events show the changes of the protocol\<close>

definition rel_view :: "RelationInfo \<Rightarrow> rel_desc" where
  "rel_view rel = \<lparr>rd_schema = ri_schema rel, rd_table = ri_table rel,
     rd_cols = map (\<lambda>c. (cm_name c, cm_type_oid c)) (ri_columns rel)\<rparr>"

lemma bytea_text_hex: "bytea_text bs = [CHR 92] @ ''x'' @ hex_encode bs"
proof -
  have "list_all (\<lambda>d. lower_digit d = ''0123456789abcdef'' ! d) [0..<16]" by code_simp
  then have d: "''0123456789abcdef'' ! d = lower_digit d" if "d < 16" for d using that by (simp add: list_all_iff)
  have "unat b div 16 < 16" for b :: u8 using unat_less [of b] by (simp add: less_mult_imp_div_less)
  then show ?thesis by (simp add: bytea_text_def hex_encode_def d del: nth_Cons_numeral)
qed

lemma shows_val_text: "shows_val (val_text v) v"
  by (cases v) (simp_all add: bytea_text_hex)

lemma shows_row_of: "shows_row (rd_cols (rel_view rel)) (Some (row_of (ri_columns rel) vs)) (Some vs)"
  by (auto simp: row_of_def col_of_def rel_view_def comp_def shows_val_text list_all2_conv_all_nth)

lemma fingerprint_rel_bytes: "compute_fingerprint rel = siphash13 (rel_bytes (rel_view rel))"
  by (simp add: compute_fingerprint_def fingerprint_bytes_def rel_bytes_def rel_view_def hash_str_def hash_u32_def
      le_bytes_def comp_def)

lemma mk_event_shows:
  assumes "shows_row (rd_cols (rel_view rel)) after (ch_new c)" and "shows_row (rd_cols (rel_view rel)) before (ch_old c)"
    and "ch_lsn c = lsn" "ch_op c = op" "ch_rel c = rel_view rel"
  shows "event_shows (mk_event lsn op rel after before) c"
  using assms by (simp add: event_shows_def mk_event_def fingerprint_rel_bytes) (simp add: rel_view_def)

lemma mk_event_transaction:
  "ev_xid (mk_event lsn op rel after before) = 0" "ev_commit_timestamp_us (mk_event lsn op rel after before) = 0"
  by (simp_all add: mk_event_def)

lemma decoded_msg_reports:
  assumes "ss_rels ss = map_option rel_view \<circ> rels"
  shows "reports (fst (decoded_msg rels lsn msg)) (msg, msg_changes ss lsn msg)"
    and "ss_rels (next_session ss msg) = map_option rel_view \<circ> snd (decoded_msg rels lsn msg)"
proof -
  show "reports (fst (decoded_msg rels lsn msg)) (msg, msg_changes ss lsn msg)"
  proof (cases msg)
    case (MUpdate oid old new)
    then show ?thesis using assms
      by (cases old) (auto simp: reports_def change_at_def unknown_relation_def mk_event_transaction
          simp del: shows_row.simps intro!: mk_event_shows shows_row_of shows_row.simps(2) [THEN iffD2] split: option.split)
  next
    case (MTruncate options oids)
    then show ?thesis using assms
      by (cases oids) (auto simp: reports_def change_at_def mk_event_transaction intro!: mk_event_shows split: option.split)
  qed (use assms in \<open>auto simp: reports_def change_at_def unknown_relation_def mk_event_transaction
      simp del: shows_row.simps intro!: mk_event_shows shows_row_of shows_row.simps(2) [THEN iffD2] split: option.split\<close>)
  show "ss_rels (next_session ss msg) = map_option rel_view \<circ> snd (decoded_msg rels lsn msg)"
    using assms by (cases msg) (auto simp: fun_eq_iff info_of_def rel_view_def)
qed

lemma decoded_stream_reports:
  "ss_rels ss = map_option rel_view \<circ> rels \<Longrightarrow>
     list_all2 reports (decoded_stream rels msgs) (stream_changes ss msgs)"
proof (induction msgs arbitrary: ss rels)
  case (Cons lm msgs)
  obtain lsn msg where lm: "lm = (lsn, msg)" by (cases lm)
  note step = decoded_msg_reports [OF Cons.prems, where lsn = lsn and msg = msg]
  from step(1) Cons.IH [OF step(2)] show ?case by (simp add: lm split_beta Let_def)
qed simp

subsection \<open>Properties\<close>

text \<open>
  C7. The decoder reports the changes of the replication protocol. On any stream of well-formed
  messages a new decoder answers each message according to the changes the message stands for,
  given the relation messages before it: with an event that shows the operation, the table, the
  fingerprint and, column by column, the names, types and values of the old and the new row; with
  an error for a row of a relation that was not announced; with nothing for the other messages.
  Two things are left out: of the tables of a \<open>TRUNCATE\<close> only the first is reported, and the
  transaction id and commit time of the \<open>Begin\<close> message do not reach the event, which has zeros.
\<close>

theorem decoder_implements_protocol:
  assumes "relation_map D" and "list_all (\<lambda>(lsn, msg). pg_ok msg) msgs"
  shows "list_all2 reports (decode_stream D (decoder_new D) (map (\<lambda>(lsn, msg). (lsn, pg_encode msg)) msgs))
     (stream_changes new_session msgs)"
  using relation_map.decode_stream_new [OF assms] decoded_stream_reports [of new_session Map.empty msgs]
  by (simp add: new_session_def fun_eq_iff)

definition demo_rel :: pg_msg where
  "demo_rel = MRelation 7 ''public'' ''users'' (byte_of CHR ''d'') [(1, ''id'', 23, 0), (0, ''name'', 25, 0)]"

lemma demo_rel_ok: "pg_ok demo_rel"
  by (simp add: demo_rel_def ok_cstring_def wf_str_ascii is_ascii_def as_bytes_def byte_of_def)

theorem decoder_implements_protocol_witness:
  "\<exists>e. decode_stream alist_dashmap (decoder_new alist_dashmap)
      [(1, pg_encode (MBegin 9 5 77)), (1, pg_encode demo_rel), (2, pg_encode (MInsert 7 [TText ''1'', TText ''ann'']))]
    = [Ok None, Ok None, Ok (Some e)] \<and> ev_xid e = 0 \<and>
    event_shows e \<lparr>ch_lsn = 2, ch_xid = 77, ch_commit_ts = 5, ch_op = Insert,
      ch_rel = \<lparr>rd_schema = ''public'', rd_table = ''users'', rd_cols = [(''id'', 23), (''name'', 25)]\<rparr>,
      ch_old = None, ch_new = Some [TText ''1'', TText ''ann'']\<rparr>"
proof -
  let ?msgs = "[(1 :: u64, MBegin 9 5 77), (1, demo_rel), (2, MInsert 7 [TText ''1'', TText ''ann''])]"
  have "list_all (\<lambda>(lsn, msg). pg_ok msg) ?msgs"
    using demo_rel_ok by (simp add: ok_tuple_def wf_str_ascii is_ascii_def)
  from decoder_implements_protocol [OF alist_rel.relation_map_axioms this] show ?thesis
    by (auto simp: demo_rel_def change_at_def new_session_def reports_def list_all2_Cons2
        simp del: decode_stream.simps pg_encode.simps)
qed

text \<open>
  C30. No input makes the decoder panic: for every decoder state and every byte string, however
  truncated or malformed, it returns an event, nothing, or an error.
\<close>

theorem decode_never_panics: "fst (decode D d lsn data) \<noteq> Panic"
  by (auto simp: decode_parts_no_panic decode_def Let_def and_then_Panic_iff split_beta)

text \<open>
  The decoder never fills in the transaction of an event: whatever \<open>Begin\<close> and \<open>Commit\<close>
  messages came before, every event it returns has transaction id 0 and commit timestamp 0, and
  the LSN of its own message.
\<close>

theorem decode_drops_transaction:
  "fst (decode D d lsn data) = Ok (Some e) \<longrightarrow>
     ev_xid e = 0 \<and> ev_commit_timestamp_us e = 0 \<and> ev_lsn e = lsn"
  using decode_event_header by blast

theorem decode_drops_transaction_witness:
  "\<exists>e. fst (decode alist_dashmap (snd (decode alist_dashmap (decoder_new alist_dashmap) 1 (pg_encode demo_rel))) 9
        (pg_encode (MInsert 7 [TText ''1'', TText ''ann'']))) = Ok (Some e)
     \<and> ev_xid e = 0 \<and> ev_commit_timestamp_us e = 0 \<and> ev_lsn e = 9"
proof -
  let ?d = "snd (decode alist_dashmap (decoder_new alist_dashmap) 1 (pg_encode demo_rel))"
  have ins: "pg_ok (MInsert 7 [TText ''1'', TText ''ann''])"
    by (simp add: ok_tuple_def wf_str_ascii is_ascii_def)
  have "dm_get alist_dashmap (relations ?d) 7 \<noteq> None"
    using alist_rel.decode_message [OF demo_rel_ok, of "decoder_new alist_dashmap" 1] by (simp add: demo_rel_def)
  then obtain e where "fst (decode alist_dashmap ?d 9 (pg_encode (MInsert 7 [TText ''1'', TText ''ann'']))) = Ok (Some e)"
    using alist_rel.decode_message [OF ins, of ?d 9] by auto
  with decode_drops_transaction show ?thesis by blast
qed

text \<open>
  A \<open>TRUNCATE\<close> of several tables is reported for the first one only: whatever relations follow
  it in the message, the decoder returns the same single event, or nothing when the first is
  unknown.
\<close>

theorem truncate_reports_first:
  assumes "relation_map D" and "length oids < 2 ^ 32 - 1"
  shows "fst (decode D d lsn (pg_encode (MTruncate options (oid # oids)))) =
    Ok (map_option (\<lambda>rel. mk_event lsn Truncate rel None None) (dm_get D (relations d) oid))"
proof -
  have "pg_ok (MTruncate options (oid # oids))" using assms(2) by simp
  from relation_map.decode_message [OF assms(1) this, of d lsn] show ?thesis by simp
qed

theorem truncate_reports_first_witness:
  "fst (decode alist_dashmap (decoder_new alist_dashmap) 5 (pg_encode (MTruncate 0 [7, 8]))) = Ok None"
  using truncate_reports_first [OF alist_rel.relation_map_axioms, of "[8]" "decoder_new alist_dashmap" 5 0 7]
    dashmap.get_new [OF relation_map.axioms [OF alist_rel.relation_map_axioms]] by (simp add: decoder_new_def)

text \<open>
  What is hashed into a schema fingerprint determines the schema: two relations feed the
  hasher the same bytes exactly when they have the same schema name, table name and list of column
  names and types. Two different schemas have equal fingerprints only by a collision of the
  64-bit hash itself.
\<close>

theorem fingerprint_bytes_determine_schema:
  assumes "wf_str (ri_schema r)" and "wf_str (ri_table r)" and "list_all (\<lambda>c. wf_str (cm_name c)) (ri_columns r)"
    and "wf_str (ri_schema s)" and "wf_str (ri_table s)" and "list_all (\<lambda>c. wf_str (cm_name c)) (ri_columns s)"
  shows "fingerprint_bytes r = fingerprint_bytes s \<longleftrightarrow>
     ri_schema r = ri_schema s \<and> ri_table r = ri_table s \<and>
     map (\<lambda>c. (cm_name c, cm_type_oid c)) (ri_columns r) = map (\<lambda>c. (cm_name c, cm_type_oid c)) (ri_columns s)"
proof -
  let ?f = "\<lambda>c. hash_str (cm_name c) @ hash_u32 (cm_type_oid c)"
  have "concat (map ?f xs) = concat (map ?f ys) \<longleftrightarrow>
      map (\<lambda>c. (cm_name c, cm_type_oid c)) xs = map (\<lambda>c. (cm_name c, cm_type_oid c)) ys"
    if "list_all (\<lambda>c. wf_str (cm_name c)) xs" "list_all (\<lambda>c. wf_str (cm_name c)) ys" for xs ys :: "ColumnMeta list"
    using that
  proof (induction xs arbitrary: ys)
    case Nil
    show ?case by (cases ys) (simp_all add: hash_str_def)
  next
    case (Cons x xs)
    then show ?case
      by (cases ys) (simp_all add: hash_str_inj hash_u32_inj, simp add: hash_str_def)
  qed
  with assms show ?thesis by (simp add: fingerprint_bytes_def hash_str_inj)
qed

theorem fingerprint_bytes_determine_schema_witness:
  "fingerprint_bytes (info_of ''a'' ''bc'' 0 []) \<noteq> fingerprint_bytes (info_of ''ab'' ''c'' 0 [])"
  using fingerprint_bytes_determine_schema [of "info_of ''a'' ''bc'' 0 []" "info_of ''ab'' ''c'' 0 []"]
  by (simp add: info_of_def wf_str_ascii is_ascii_def)

end
