(* ===== verification/Schema.thy ===== *)
theory Schema
  imports Containers Rust_Str
begin

text \<open>
  Schema tracking, \<open>src/services/pgsql/src/schema\<close> and \<open>src/services/pgsql/src/trigger/ddl\<close>: the
  FNV-1a fingerprint, the registry of table schemas over the parameter \<open>D\<close> for \<open>DashMap\<close>, the
  buffer of DDL changes, the parser of DDL messages and the handler that feeds the buffer.
  \<open>str::to_uppercase\<close> depends on Unicode tables and is the parameter \<open>up\<close> of the parser.
\<close>

subsection \<open>Table schemas and fingerprints\<close>

record ColumnSchema =
  cs_name :: string
  cs_type_oid :: u32
  cs_type_name :: string
  cs_is_nullable :: bool
  cs_is_primary_key :: bool
  cs_ordinal_position :: i32

record TableSchema =
  ts_schema :: string
  ts_table :: string
  ts_columns :: "ColumnSchema list"
  ts_fingerprint :: u64

definition fnv_basis :: u64 where
  "fnv_basis = 0xcbf29ce484222325"

definition fnv_prime :: u64 where
  "fnv_prime = 0x100000001b3"

definition fnv_step :: "u64 \<Rightarrow> u8 \<Rightarrow> u64" where
  "fnv_step hash b = xor hash (ucast b) * fnv_prime"

definition compute_col :: "u64 \<Rightarrow> ColumnSchema \<Rightarrow> u64" where
  "compute_col hash col =
     (let hash = fnv_step hash (byte_of CHR ''|'');
          hash = foldl fnv_step hash (as_bytes (cs_name col));
          hash = fnv_step hash (byte_of CHR '':'')
      in foldl fnv_step hash (as_bytes (cs_type_name col)))"

definition compute :: "string \<Rightarrow> string \<Rightarrow> ColumnSchema list \<Rightarrow> u64" where
  "compute schema table cols =
     (let hash = foldl fnv_step fnv_basis (as_bytes schema);
          hash = fnv_step hash (byte_of CHR ''.'');
          hash = foldl fnv_step hash (as_bytes table)
      in foldl compute_col hash cols)"

subsection \<open>The registry\<close>

type_synonym 'm schema_dm = "('m, string, TableSchema) dashmap_ops"

record 'm SchemaRegistry =
  tables :: 'm

definition schemas_new :: "'m schema_dm \<Rightarrow> 'm SchemaRegistry" where
  "schemas_new D = \<lparr>tables = dm_new D\<rparr>"

text \<open>The comparison with the old fingerprint only decides what is logged.\<close>

definition upsert :: "'m schema_dm \<Rightarrow> 'm SchemaRegistry \<Rightarrow> string \<Rightarrow> TableSchema \<Rightarrow> 'm SchemaRegistry" where
  "upsert D r name schema = r\<lparr>tables := dm_insert D (tables r) name schema\<rparr>"

definition schema_get :: "'m schema_dm \<Rightarrow> 'm SchemaRegistry \<Rightarrow> string \<Rightarrow> TableSchema option" where
  "schema_get D r name = dm_get D (tables r) name"

definition schema_fingerprint :: "'m schema_dm \<Rightarrow> 'm SchemaRegistry \<Rightarrow> string \<Rightarrow> u64 option" where
  "schema_fingerprint D r name = map_option ts_fingerprint (dm_get D (tables r) name)"

definition validate_fingerprint :: "'m schema_dm \<Rightarrow> 'm SchemaRegistry \<Rightarrow> string \<Rightarrow> u64 \<Rightarrow> bool" where
  "validate_fingerprint D r name fp =
     (case map_option (\<lambda>s. ts_fingerprint s = fp) (dm_get D (tables r) name) of Some b \<Rightarrow> b | None \<Rightarrow> False)"

definition table_names :: "'m schema_dm \<Rightarrow> 'm SchemaRegistry \<Rightarrow> string list" where
  "table_names D r = map fst (dm_iter D (tables r))"

definition schemas_len :: "'m schema_dm \<Rightarrow> 'm SchemaRegistry \<Rightarrow> nat" where
  "schemas_len D r = dm_len D (tables r)"

subsection \<open>The buffer of DDL changes\<close>

datatype DdlKind =
    AlterTable
  | DropTable
  | RenameTable string
  | AddColumn string
  | DropColumn string
  | AlterColumn string
  | OtherDdl

record DdlChange =
  dc_lsn :: u64
  dc_table :: string
  dc_kind :: DdlKind
  dc_statement :: string

record DdlBuffer =
  pending :: "DdlChange list"

definition ddl_new :: DdlBuffer where
  "ddl_new = \<lparr>pending = []\<rparr>"

definition ddl_push :: "DdlBuffer \<Rightarrow> DdlChange \<Rightarrow> DdlBuffer" where
  "ddl_push b change = b\<lparr>pending := pending b @ [change]\<rparr>"

definition ddl_drain_up_to :: "DdlBuffer \<Rightarrow> u64 \<Rightarrow> DdlChange list \<times> DdlBuffer" where
  "ddl_drain_up_to b lsn =
     (let (ready, remaining) = partition (\<lambda>c. dc_lsn c \<le> lsn) (pending b)
      in (ready, b\<lparr>pending := remaining\<rparr>))"

subsection \<open>DDL messages\<close>

record ParsedDdl =
  pd_table :: string
  pd_kind :: DdlKind
  pd_statement :: string

text \<open>\<open>&stmt[i..]\<close>: it panics beyond the end and inside a character.\<close>

definition str_from :: "string \<Rightarrow> nat \<Rightarrow> (string, 'e) rresult" where
  "str_from s i =
     (if i \<le> length s \<and> (i = length s \<or> \<not> cont_byte (byte_of (s ! i))) then Ok (drop i s) else Panic)"

text \<open>What follows a keyword: the first word, without trailing semicolons.\<close>

definition extract_after :: "(string \<Rightarrow> string) \<Rightarrow> string \<Rightarrow> string \<Rightarrow> (string option, string) rresult" where
  "extract_after up kw stmt =
     (case find_sub (up stmt) kw of
        Some pos \<Rightarrow>
          and_then (str_from stmt (pos + length kw)) (\<lambda>after.
          Ok (map_option (trim_end_matches CHR '';'') (first_word after)))
      | None \<Rightarrow> Ok None)"

definition extract_new_name :: "(string \<Rightarrow> string) \<Rightarrow> string \<Rightarrow> (string option, string) rresult" where
  "extract_new_name up stmt = extract_after up ''RENAME TO '' stmt"

definition extract_column_name :: "(string \<Rightarrow> string) \<Rightarrow> string \<Rightarrow> (string option, string) rresult" where
  "extract_column_name up stmt = extract_after up ''COLUMN '' stmt"

definition unwrap_or_default :: "string option \<Rightarrow> string" where
  "unwrap_or_default x = (case x of Some s \<Rightarrow> s | None \<Rightarrow> [])"

definition ddl_kind :: "(string \<Rightarrow> string) \<Rightarrow> string \<Rightarrow> string \<Rightarrow> (DdlKind, string) rresult" where
  "ddl_kind up tag stmt =
     (if tag = ''ALTER_TABLE'' then Ok AlterTable
      else if tag = ''DROP_TABLE'' then Ok DropTable
      else if tag = ''RENAME_TABLE'' then
        and_then (extract_new_name up stmt) (\<lambda>n. Ok (RenameTable (unwrap_or_default n)))
      else if tag = ''ADD_COLUMN'' then
        and_then (extract_column_name up stmt) (\<lambda>n. Ok (AddColumn (unwrap_or_default n)))
      else if tag = ''DROP_COLUMN'' then
        and_then (extract_column_name up stmt) (\<lambda>n. Ok (DropColumn (unwrap_or_default n)))
      else if tag = ''ALTER_COLUMN'' then
        and_then (extract_column_name up stmt) (\<lambda>n. Ok (AlterColumn (unwrap_or_default n)))
      else Ok OtherDdl)"

definition parse_ddl_message :: "(string \<Rightarrow> string) \<Rightarrow> string \<Rightarrow> (ParsedDdl, string) rresult" where
  "parse_ddl_message up content =
     (case splitn 3 CHR ''|'' content of
        [p0, p1, p2] \<Rightarrow>
          and_then (ddl_kind up p0 p2) (\<lambda>kind.
          Ok \<lparr>pd_table = p1, pd_kind = kind, pd_statement = p2\<rparr>)
      | _ \<Rightarrow> Err (''invalid DDL message format: '' @ content))"

record DdlHandler =
  dh_buffer :: DdlBuffer
  monitored_tables :: "string list"

definition handler_new :: "string list \<Rightarrow> DdlHandler" where
  "handler_new monitored = \<lparr>dh_buffer = ddl_new, monitored_tables = monitored\<rparr>"

definition is_monitored :: "DdlHandler \<Rightarrow> string \<Rightarrow> bool" where
  "is_monitored h table = list_ex (\<lambda>t. t = table) (monitored_tables h)"

definition handle_ddl_message ::
    "(string \<Rightarrow> string) \<Rightarrow> DdlHandler \<Rightarrow> u64 \<Rightarrow> string \<Rightarrow> (unit, string) rresult \<times> DdlHandler" where
  "handle_ddl_message up h lsn content =
     (case parse_ddl_message up content of
        Ok parsed \<Rightarrow>
          if \<not> is_monitored h (pd_table parsed) then (Ok (), h)
          else (Ok (), h\<lparr>dh_buffer := ddl_push (dh_buffer h)
                  \<lparr>dc_lsn = lsn, dc_table = pd_table parsed, dc_kind = pd_kind parsed,
                   dc_statement = pd_statement parsed\<rparr>\<rparr>)
      | Err e \<Rightarrow> (Err e, h)
      | Panic \<Rightarrow> (Panic, h))"

definition handler_drain_up_to :: "DdlHandler \<Rightarrow> u64 \<Rightarrow> DdlChange list \<times> DdlHandler" where
  "handler_drain_up_to h lsn =
     (let (ready, b) = ddl_drain_up_to (dh_buffer h) lsn in (ready, h\<lparr>dh_buffer := b\<rparr>))"

definition set_monitored_tables :: "DdlHandler \<Rightarrow> string list \<Rightarrow> DdlHandler" where
  "set_monitored_tables h ts = h\<lparr>monitored_tables := ts\<rparr>"


subsection \<open>Properties of the fingerprint\<close>

text \<open>The text that \<^const>\<open>compute\<close> hashes: \<open>schema.table|name:type|name:type\<close>.\<close>

definition canonical :: "string \<Rightarrow> string \<Rightarrow> ColumnSchema list \<Rightarrow> string" where
  "canonical schema table cols =
     schema @ ''.'' @ table @ concat (map (\<lambda>c. ''|'' @ cs_name c @ '':'' @ cs_type_name c) cols)"

lemma as_bytes_Cons [simp]: "as_bytes (c # s) = byte_of c # as_bytes s"
  by (simp add: as_bytes_def)

lemma as_bytes_Nil [simp]: "as_bytes [] = []"
  by (simp add: as_bytes_def)

lemma compute_cols_canonical:
  "foldl compute_col h cols =
     foldl fnv_step h (as_bytes (concat (map (\<lambda>c. ''|'' @ cs_name c @ '':'' @ cs_type_name c) cols)))"
  by (induction cols arbitrary: h) (simp_all add: compute_col_def Let_def)

lemma compute_canonical: "compute s t cols = foldl fnv_step fnv_basis (as_bytes (canonical s t cols))"
  by (simp add: compute_def canonical_def Let_def compute_cols_canonical)

text \<open>The prime is odd, so multiplying by it loses nothing.\<close>

lemma fnv_prime_cancel: "a * fnv_prime = b * fnv_prime \<longleftrightarrow> a = b"
proof
  assume "a * fnv_prime = b * fnv_prime"
  then have "a * (fnv_prime * 0xce965057aff6957b) = b * (fnv_prime * 0xce965057aff6957b)"
    by (simp add: mult.assoc [symmetric])
  moreover have "fnv_prime * 0xce965057aff6957b = 1"
    by (simp add: fnv_prime_def)
  ultimately show "a = b" by simp
qed simp

lemma xor_cancel_right: "xor (a :: 'a::len word) c = xor b c \<longleftrightarrow> a = b"
  by (auto simp: bit_eq_iff bit_xor_iff)

lemma xor_cancel_left: "xor c (a :: 'a::len word) = xor c b \<longleftrightarrow> a = b"
  by (metis xor.commute xor_cancel_right)

lemma fnv_step_inj_hash: "fnv_step g b = fnv_step h b \<longleftrightarrow> g = h"
  by (simp add: fnv_step_def fnv_prime_cancel xor_cancel_right)

lemma fnv_step_inj_byte: "fnv_step h b = fnv_step h c \<longleftrightarrow> b = c"
proof -
  have "(ucast b :: u64) = ucast c \<longleftrightarrow> b = c"
  proof
    assume eq: "(ucast b :: u64) = ucast c"
    show "b = c"
    proof (rule bit_word_eqI)
      fix n
      assume "n < LENGTH(8)"
      moreover have "bit (ucast b :: u64) n = bit (ucast c :: u64) n" by (simp only: eq)
      ultimately show "bit b n = bit c n" by (simp add: bit_ucast_iff)
    qed
  qed simp
  then show ?thesis
    by (simp add: fnv_step_def fnv_prime_cancel xor_cancel_left)
qed

lemma fnv_fold_inj_hash: "foldl fnv_step g bs = foldl fnv_step h bs \<longleftrightarrow> g = h"
  by (induction bs arbitrary: g h) (simp_all add: fnv_step_inj_hash)



lemma byte_change_detected:
  assumes "canonical s t cols = p @ a # q" and "canonical s' t' cols' = p @ b # q" and "a \<noteq> b"
  shows "compute s t cols \<noteq> compute s' t' cols'"
  using assms(3)
  by (simp add: compute_canonical assms(1,2) fnv_fold_inj_hash fnv_step_inj_byte)

text \<open>
  The fingerprint detects every change of one byte of a schema: if the texts of two schemas
  (schema, table, column names and column types) differ in exactly one byte, so do not have the
  same fingerprint. In particular \<open>int4\<close> and \<open>int8\<close> columns are told apart.
\<close>
theorem fingerprint_detects_byte_change:
  assumes "canonical s t cols = p @ a # q" and "canonical s' t' cols' = p @ b # q" and "a \<noteq> b"
  shows "compute s t cols \<noteq> compute s' t' cols'"
  using byte_change_detected [OF assms] .

theorem fingerprint_detects_byte_change_witness:
  "compute ''public'' ''users'' [\<lparr>cs_name = ''id'', cs_type_oid = 23, cs_type_name = ''int4'',
      cs_is_nullable = False, cs_is_primary_key = True, cs_ordinal_position = 1\<rparr>]
   \<noteq> compute ''public'' ''users'' [\<lparr>cs_name = ''id'', cs_type_oid = 20, cs_type_name = ''int8'',
      cs_is_nullable = False, cs_is_primary_key = True, cs_ordinal_position = 1\<rparr>]"
  by (rule fingerprint_detects_byte_change
      [of _ _ _ "''public.users|id:int''" "CHR ''4''" "[]" _ _ _ "CHR ''8''"])
    (simp_all add: canonical_def)

text \<open>
  The separators of the hashed text are not escaped, so distinct schemas share a fingerprint:
  a dot may belong to the schema or to the table, a column may hide in the type of the one before
  it, and nullability, key membership, type OID and position do not count at all.
\<close>
theorem fingerprint_ambiguous:
  "compute (s @ ''.'' @ t) u cols = compute s (t @ ''.'' @ u) cols
   \<and> compute s t (c # d # cols)
     = compute s t (c\<lparr>cs_type_name := cs_type_name c @ ''|'' @ cs_name d @ '':'' @ cs_type_name d\<rparr> # cols)
   \<and> compute s t (c # cols)
     = compute s t (c\<lparr>cs_type_oid := oid, cs_is_nullable := n, cs_is_primary_key := k,
                      cs_ordinal_position := i\<rparr> # cols)"
  by (simp_all add: compute_canonical canonical_def)

subsection \<open>Properties of the DDL parser\<close>

text \<open>What \<open>to_uppercase\<close> is documented to do on ASCII text.\<close>

definition ascii_upper_char :: "char \<Rightarrow> char" where
  "ascii_upper_char c = (if 97 \<le> (of_char c :: nat) \<and> (of_char c :: nat) \<le> 122 then char_of ((of_char c :: nat) - 32) else c)"

definition ascii_upper :: "string \<Rightarrow> string" where
  "ascii_upper = map ascii_upper_char"

lemma length_ascii_upper [simp]: "length (ascii_upper s) = length s"
  by (simp add: ascii_upper_def)

lemma ascii_upper_append [simp]: "ascii_upper (s @ t) = ascii_upper s @ ascii_upper t"
  by (simp add: ascii_upper_def)

lemma is_ascii_append [simp]: "is_ascii (s @ t) \<longleftrightarrow> is_ascii s \<and> is_ascii t"
  by (auto simp: is_ascii_def)

lemma ascii_not_cont: "(of_char c :: nat) < 128 \<Longrightarrow> \<not> cont_byte (byte_of c)"
  by (simp add: byte_in_def byte_of_def unat_of_nat)

lemma str_from_ascii:
  assumes "is_ascii s" and "i \<le> length s"
  shows "str_from s i = Ok (drop i s)"
proof -
  have "\<not> cont_byte (byte_of (s ! i))" if "i < length s"
    using assms(1) that by (intro ascii_not_cont) (simp add: is_ascii_def list_all_length)
  then show ?thesis using assms(2) by (auto simp: str_from_def)
qed

text \<open>The first occurrence: no earlier one even with all but the last character of the pattern.\<close>

lemma find_sub_first:
  assumes "p \<noteq> []" and "find_sub (a @ butlast p) p = None"
  shows "find_sub (a @ p @ b) p = Some (length a)"
  using assms(2)
proof (induction a)
  case Nil
  show ?case by (subst find_sub.simps) (simp add: starts_with_def)
next
  case (Cons c a)
  have no: "\<not> starts_with (c # a @ butlast p) p" and IH: "find_sub (a @ butlast p) p = None"
    using Cons.prems by (subst (asm) find_sub.simps; simp split: if_splits)+
  have "take (length p) (c # a @ p @ b) = take (length p) (c # a @ butlast p)"
  proof -
    have "take (length p) (c # a @ p @ b) = take (length p) ((c # a @ butlast p) @ [last p] @ b)"
      using append_butlast_last_id [OF assms(1)] by (metis append_assoc append_Cons)
    also have "\<dots> = take (length p) (c # a @ butlast p)"
      by (subst take_append) simp
    finally show ?thesis .
  qed
  then have "\<not> starts_with (c # a @ p @ b) p" using no by (simp add: starts_with_def)
  then show ?case using Cons.IH [OF IH] by (subst find_sub.simps) simp
qed

locale uppercase =
  fixes up :: "string \<Rightarrow> string"
  assumes up_ascii: "is_ascii s \<Longrightarrow> up s = ascii_upper s"
begin

lemma extract_after_no_panic:
  assumes "is_ascii s"
  shows "extract_after up kw s \<noteq> Panic"
proof (cases "find_sub (up s) kw")
  case (Some pos)
  then have "pos + length kw \<le> length s"
    using find_sub_Some [OF Some] assms by (simp add: up_ascii)
  with Some assms show ?thesis by (simp add: extract_after_def str_from_ascii)
qed (simp add: extract_after_def)

lemma parse_no_panic:
  assumes "is_ascii s"
  shows "parse_ddl_message up s \<noteq> Panic"
proof -
  have "is_ascii p2" if "splitn 3 CHR ''|'' s = [p0, p1, p2]" for p0 p1 p2
    using that assms
    by (auto simp: numeral_3_eq_3 split_once_Some is_ascii_def split: option.splits)
  then show ?thesis
    by (auto simp: parse_ddl_message_def ddl_kind_def extract_new_name_def extract_column_name_def
        and_then_Panic_iff extract_after_no_panic split: list.split)
qed

lemma extract_after_first:
  assumes "kw \<noteq> []" "is_ascii pre" "is_ascii k" "ascii_upper k = kw" "is_ascii rest"
    and "find_sub (ascii_upper pre @ butlast kw) kw = None"
  shows "extract_after up kw (pre @ k @ rest) = Ok (map_option (trim_end_matches CHR '';'') (first_word rest))"
proof -
  have "find_sub (up (pre @ k @ rest)) kw = Some (length pre)"
    using find_sub_first [OF assms(1,6), of "ascii_upper rest"] assms by (simp add: up_ascii)
  moreover have "length kw = length k" using assms(4) by (metis length_ascii_upper)
  ultimately show ?thesis using assms by (simp add: extract_after_def str_from_ascii)
qed

end

interpretation ascii_up: uppercase ascii_upper
  by unfold_locales simp


subsection \<open>Runs of the handler\<close>

datatype ddl_op = Message u64 string | DrainUpTo u64

fun ddl_run :: "(string \<Rightarrow> string) \<Rightarrow> ddl_op list \<Rightarrow> DdlHandler \<Rightarrow> (u64 \<times> DdlChange list) list \<times> DdlHandler" where
  "ddl_run up [] h = ([], h)"
| "ddl_run up (Message lsn content # ops) h = ddl_run up ops (snd (handle_ddl_message up h lsn content))"
| "ddl_run up (DrainUpTo lsn # ops) h =
     (let (ready, h') = handler_drain_up_to h lsn; (out, h'') = ddl_run up ops h'
      in ((lsn, ready) # out, h''))"

text \<open>
  The changes a run should buffer: those of the messages \<open>tag|table|statement\<close> on a monitored
  table. The kind is what \<^const>\<open>ddl_kind\<close> reads from the tag and the statement; a message with
  fewer than two bars, or in which it finds no kind, is none.
\<close>

definition before_bar :: "string \<Rightarrow> string" where
  "before_bar = takeWhile (\<lambda>c. c \<noteq> CHR ''|'')"

definition after_bar :: "string \<Rightarrow> string" where
  "after_bar s = tl (dropWhile (\<lambda>c. c \<noteq> CHR ''|'') s)"

definition ddl_change :: "(string \<Rightarrow> string) \<Rightarrow> string list \<Rightarrow> u64 \<Rightarrow> string \<Rightarrow> DdlChange list" where
  "ddl_change up ts lsn content =
     (let tag = before_bar content; table = before_bar (after_bar content); stmt = after_bar (after_bar content)
      in if 2 \<le> count_list content CHR ''|'' \<and> table \<in> set ts
         then (case ddl_kind up tag stmt of
                 Ok kind \<Rightarrow> [\<lparr>dc_lsn = lsn, dc_table = table, dc_kind = kind, dc_statement = stmt\<rparr>]
               | _ \<Rightarrow> [])
         else [])"

fun ddl_changes :: "(string \<Rightarrow> string) \<Rightarrow> string list \<Rightarrow> ddl_op list \<Rightarrow> DdlChange list" where
  "ddl_changes up ts [] = []"
| "ddl_changes up ts (Message lsn content # ops) = ddl_change up ts lsn content @ ddl_changes up ts ops"
| "ddl_changes up ts (DrainUpTo lsn # ops) = ddl_changes up ts ops"

lemma bars_split_once:
  "split_once CHR ''|'' s = (if CHR ''|'' \<in> set s then Some (before_bar s, after_bar s) else None)"
proof (cases "split_once CHR ''|'' s")
  case None
  then show ?thesis by (simp add: split_once_None)
next
  case (Some ab)
  then obtain a b where "ab = (a, b)" "s = a @ CHR ''|'' # b" "CHR ''|'' \<notin> set a"
    by (cases ab) (auto simp: split_once_Some)
  moreover from this(3) have "before_bar (a @ CHR ''|'' # b) = a \<and> after_bar (a @ CHR ''|'' # b) = b"
    by (induction a) (auto simp: before_bar_def after_bar_def)
  ultimately show ?thesis using Some by simp
qed

lemma count_bars: "CHR ''|'' \<in> set s \<Longrightarrow> count_list s CHR ''|'' = Suc (count_list (after_bar s) CHR ''|'')"
  by (induction s) (auto simp: after_bar_def)

lemma parse_ddl_fields:
  "parse_ddl_message up content =
     (if 2 \<le> count_list content CHR ''|''
      then and_then (ddl_kind up (before_bar content) (after_bar (after_bar content))) (\<lambda>kind.
        Ok \<lparr>pd_table = before_bar (after_bar content), pd_kind = kind, pd_statement = after_bar (after_bar content)\<rparr>)
      else Err (''invalid DDL message format: '' @ content))"
proof -
  have "2 \<le> count_list content CHR ''|'' \<longleftrightarrow> CHR ''|'' \<in> set content \<and> CHR ''|'' \<in> set (after_bar content)"
    using count_bars [of content] count_list_0_iff [of content "CHR ''|''"] count_list_0_iff [of "after_bar content" "CHR ''|''"]
    by (cases "CHR ''|'' \<in> set content") (auto simp: Suc_le_eq)
  then show ?thesis by (simp add: parse_ddl_message_def numeral_3_eq_3 bars_split_once)
qed

lemma handle_ddl_change:
  "dh_buffer (snd (handle_ddl_message up h lsn content)) =
     (dh_buffer h)\<lparr>pending := pending (dh_buffer h) @ ddl_change up (monitored_tables h) lsn content\<rparr>"
  "monitored_tables (snd (handle_ddl_message up h lsn content)) = monitored_tables h"
  by (auto simp: handle_ddl_message_def parse_ddl_fields ddl_change_def Let_def is_monitored_def ddl_push_def list_ex_iff
      split: rresult.splits)

lemma sorted_partition:
  assumes "sorted (map f xs)"
  shows "filter (\<lambda>x. f x \<le> (n :: 'a::linorder)) xs @ filter (Not \<circ> (\<lambda>x. f x \<le> n)) xs = xs"
  using assms
proof (induction xs)
  case (Cons x xs)
  show ?case
  proof (cases "f x \<le> n")
    case False
    with Cons.prems have "filter (\<lambda>x. f x \<le> n) xs = []" by (auto simp: filter_empty_conv)
    moreover have "filter (Not \<circ> (\<lambda>x. f x \<le> n)) xs = xs"
      using False Cons.prems by (auto simp: filter_id_conv)
    ultimately show ?thesis using False by (simp add: comp_def)
  qed (use Cons in \<open>simp add: comp_def\<close>)
qed simp

lemma ddl_run_inv:
  assumes "sorted (map dc_lsn (pending (dh_buffer h) @ ddl_changes up (monitored_tables h) ops))"
    and "ddl_run up ops h = (out, h')"
  shows "concat (map snd out) @ pending (dh_buffer h')
           = pending (dh_buffer h) @ ddl_changes up (monitored_tables h) ops
         \<and> (\<forall>(lsn, cs) \<in> set out. \<forall>c \<in> set cs. dc_lsn c \<le> lsn)
         \<and> (ops \<noteq> [] \<and> last ops = DrainUpTo l \<longrightarrow> (\<forall>c \<in> set (pending (dh_buffer h')). l < dc_lsn c))"
  using assms
proof (induction ops arbitrary: h out)
  case (Cons op ops)
  show ?case
  proof (cases op)
    case (Message lsn content)
    let ?h = "snd (handle_ddl_message up h lsn content)"
    have eq: "pending (dh_buffer ?h) @ ddl_changes up (monitored_tables ?h) ops
        = pending (dh_buffer h) @ ddl_changes up (monitored_tables h) (op # ops)"
      by (simp add: Message handle_ddl_change)
    have "sorted (map dc_lsn (pending (dh_buffer ?h) @ ddl_changes up (monitored_tables ?h) ops))"
      using Cons.prems(1) by (simp only: eq)
    moreover have "ddl_run up ops ?h = (out, h')" using Cons.prems(2) by (simp add: Message)
    ultimately show ?thesis using Cons.IH [of ?h out] unfolding eq by (simp add: Message)
  next
    case (DrainUpTo lsn)
    let ?p = "pending (dh_buffer h)"
    let ?b = "(dh_buffer h)\<lparr>pending := filter (Not \<circ> (\<lambda>c. dc_lsn c \<le> lsn)) ?p\<rparr>"
    have dr: "handler_drain_up_to h lsn = (filter (\<lambda>c. dc_lsn c \<le> lsn) ?p, h\<lparr>dh_buffer := ?b\<rparr>)"
      by (simp add: handler_drain_up_to_def ddl_drain_up_to_def)
    obtain out2 where run: "ddl_run up ops (h\<lparr>dh_buffer := ?b\<rparr>) = (out2, h')"
      and out: "out = (lsn, filter (\<lambda>c. dc_lsn c \<le> lsn) ?p) # out2"
      using Cons.prems(2) by (auto simp: DrainUpTo dr split: prod.splits)
    have srt: "sorted (map dc_lsn (filter (Not \<circ> (\<lambda>c. dc_lsn c \<le> lsn)) ?p
        @ ddl_changes up (monitored_tables h) ops))"
      using Cons.prems(1) by (auto simp: DrainUpTo sorted_append sorted_filter)
    have part: "filter (\<lambda>c. dc_lsn c \<le> lsn) ?p @ filter (Not \<circ> (\<lambda>c. dc_lsn c \<le> lsn)) ?p = ?p"
      using Cons.prems(1) by (intro sorted_partition) (simp add: sorted_append)
    have last: "\<forall>c \<in> set (pending (dh_buffer h')). l < dc_lsn c" if "ops = []" "lsn = l"
      using run that by auto
    from Cons.IH [OF _ run] srt
    have "concat (map snd out2) @ pending (dh_buffer h') =
        filter (Not \<circ> (\<lambda>c. dc_lsn c \<le> lsn)) ?p @ ddl_changes up (monitored_tables h) ops
        \<and> (\<forall>(lsn, cs) \<in> set out2. \<forall>c \<in> set cs. dc_lsn c \<le> lsn)
        \<and> (ops \<noteq> [] \<and> last ops = DrainUpTo l \<longrightarrow> (\<forall>c \<in> set (pending (dh_buffer h')). l < dc_lsn c))"
      by simp
    then show ?thesis using part last by (cases "ops = []") (auto simp: out DrainUpTo)
  qed
qed simp

text \<open>
  C18. DDL changes reach the schema registry in WAL order, each once, none early and none late. In
  a run of messages and drains in which the changes of monitored tables arrive in LSN order, the
  drained changes followed by those still pending are exactly these changes in order of arrival;
  a drain up to an LSN returns only changes at or before it, and when it is over no change at or
  before it is left in the buffer.
\<close>
theorem ddl_in_order:
  assumes "sorted (map dc_lsn (ddl_changes up ts (ops @ [DrainUpTo lsn])))"
    and "ddl_run up (ops @ [DrainUpTo lsn]) (handler_new ts) = (out, h)"
  shows "concat (map snd out) @ pending (dh_buffer h) = ddl_changes up ts (ops @ [DrainUpTo lsn])
         \<and> (\<forall>(l, cs) \<in> set out. \<forall>c \<in> set cs. dc_lsn c \<le> l)
         \<and> (\<forall>c \<in> set (pending (dh_buffer h)). lsn < dc_lsn c)"
  using ddl_run_inv [of "handler_new ts" up "ops @ [DrainUpTo lsn]" out h lsn] assms by (simp add: handler_new_def ddl_new_def)

theorem ddl_in_order_witness:
  "\<exists>out h. ddl_run ascii_upper
      [Message 10 ''DROP_TABLE|public.a|DROP TABLE public.a'', Message 20 ''garbage'',
       Message 30 ''ALTER_TABLE|public.b|ALTER TABLE public.b ADD x int'', DrainUpTo 10]
      (handler_new [''public.a'', ''public.b'']) = (out, h)
    \<and> concat (map snd out) =
      [\<lparr>dc_lsn = 10, dc_table = ''public.a'', dc_kind = DropTable, dc_statement = ''DROP TABLE public.a''\<rparr>]
    \<and> pending (dh_buffer h) =
      [\<lparr>dc_lsn = 30, dc_table = ''public.b'', dc_kind = AlterTable,
        dc_statement = ''ALTER TABLE public.b ADD x int''\<rparr>]"
proof -
  let ?ops = "[Message 10 ''DROP_TABLE|public.a|DROP TABLE public.a'', Message 20 ''garbage'',
       Message 30 ''ALTER_TABLE|public.b|ALTER TABLE public.b ADD x int'']"
  let ?c = "\<lparr>dc_lsn = 10, dc_table = ''public.a'', dc_kind = DropTable, dc_statement = ''DROP TABLE public.a''\<rparr>"
  let ?d = "\<lparr>dc_lsn = 30, dc_table = ''public.b'', dc_kind = AlterTable, dc_statement = ''ALTER TABLE public.b ADD x int''\<rparr>"
  have ch: "ddl_changes ascii_upper [''public.a'', ''public.b''] (?ops @ [DrainUpTo 10]) = [?c, ?d]"
    by (simp add: ddl_change_def Let_def before_bar_def after_bar_def ddl_kind_def)
  obtain out h where run: "ddl_run ascii_upper (?ops @ [DrainUpTo 10]) (handler_new [''public.a'', ''public.b'']) = (out, h)"
    by fastforce
  have out: "map fst out = [10]" using run by (auto split: prod.splits)
  have "sorted (map dc_lsn (ddl_changes ascii_upper [''public.a'', ''public.b''] (?ops @ [DrainUpTo 10])))"
    unfolding ch by simp
  from ddl_in_order [OF this run, unfolded ch]
  have all: "concat (map snd out) @ pending (dh_buffer h) = [?c, ?d]"
    and early: "\<forall>(l, cs) \<in> set out. \<forall>c \<in> set cs. dc_lsn c \<le> l"
    and late: "\<forall>c \<in> set (pending (dh_buffer h)). 10 < dc_lsn c" by blast+
  have split: "ds = [?c] \<and> ps = [?d]"
    if "ds @ ps = [?c, ?d]" "\<forall>c \<in> set ds. dc_lsn c \<le> 10" "\<forall>c \<in> set ps. 10 < dc_lsn c" for ds ps
    using that by (auto simp: append_eq_Cons_conv)
  have "\<forall>c \<in> set (concat (map snd out)). dc_lsn c \<le> 10" using early out by fastforce
  from split [OF all this late] have "concat (map snd out) = [?c] \<and> pending (dh_buffer h) = [?d]" .
  then show ?thesis using run by auto
qed

subsection \<open>What the parser extracts\<close>

text \<open>
  Column DDL is understood whatever its letter case: for an ASCII statement whose first
  occurrence of the keyword \<open>COLUMN\<close> is followed by a column name, then any number of semicolons
  and the end of the statement or a space, the message \<open>ADD_COLUMN|table|statement\<close> (and likewise
  for \<open>DROP_COLUMN\<close> and \<open>ALTER_COLUMN\<close>) is parsed to that table, that column and that statement.
\<close>
theorem parse_column_ddl:
  assumes "uppercase up" and "CHR ''|'' \<notin> set table"
    and "is_ascii pre" "is_ascii k" "is_ascii rest"
    and "ascii_upper k = ''COLUMN ''" and "find_sub (ascii_upper pre @ ''COLUMN'') ''COLUMN '' = None"
    and "plain_word name" "last name \<noteq> CHR '';''" and "rest = [] \<or> hd rest = CHR '' ''"
    and "stmt = pre @ k @ name @ replicate n CHR '';'' @ rest"
    and "(tag, kind) \<in> {(''ADD_COLUMN'', AddColumn), (''DROP_COLUMN'', DropColumn), (''ALTER_COLUMN'', AlterColumn)}"
  shows "parse_ddl_message up (tag @ ''|'' @ table @ ''|'' @ stmt)
         = Ok \<lparr>pd_table = table, pd_kind = kind name, pd_statement = stmt\<rparr>"
proof -
  have w: "plain_word (name @ replicate n CHR '';'')"
    using assms(8) by (auto simp: plain_word_def is_ascii_def list_all_iff ascii_ws_def)
  have "is_ascii (name @ replicate n CHR '';'' @ rest)"
    using w assms(5) by (simp add: plain_word_def)
  from uppercase.extract_after_first [OF assms(1) _ assms(3,4,6) this] assms(7)
  have "extract_column_name up stmt = Ok (map_option (trim_end_matches CHR '';'')
      (first_word (name @ replicate n CHR '';'' @ rest)))"
    by (simp add: extract_column_name_def assms(11))
  moreover have "first_word (name @ replicate n CHR '';'' @ rest) = Some (name @ replicate n CHR '';'')"
    using first_word_plain [OF w assms(10)] by simp
  moreover have "trim_end_matches CHR '';'' (name @ replicate n CHR '';'') = name"
    using assms(8,9) by (cases name rule: rev_cases)
      (auto simp: trim_end_matches_def plain_word_def dropWhile_append)
  ultimately have col: "extract_column_name up stmt = Ok (Some name)" by simp
  have "CHR ''|'' \<notin> set tag" using assms(12) by auto
  then have "splitn 3 CHR ''|'' (tag @ ''|'' @ table @ ''|'' @ stmt) = [tag, table, stmt]"
    using assms(2) by (simp add: numeral_3_eq_3)
  then show ?thesis
    using assms(12) col by (auto simp: parse_ddl_message_def ddl_kind_def unwrap_or_default_def)
qed

theorem parse_column_ddl_witness:
  "parse_ddl_message ascii_upper ''ADD_COLUMN|public.users|ALTER TABLE public.users ADD column email text''
     = Ok \<lparr>pd_table = ''public.users'', pd_kind = AddColumn ''email'',
           pd_statement = ''ALTER TABLE public.users ADD column email text''\<rparr>"
proof -
  let ?pre = "''ALTER TABLE public.users ADD ''"
  have k: "ascii_upper ''column '' = ''COLUMN ''"
    by (simp add: ascii_upper_def ascii_upper_char_def char_of_def bit_0)
  have "ascii_upper ?pre = ''ALTER TABLE PUBLIC.USERS ADD ''"
    by (simp add: ascii_upper_def ascii_upper_char_def char_of_def bit_0)
  then have first: "find_sub (ascii_upper ?pre @ ''COLUMN'') ''COLUMN '' = None"
    by (simp add: find_sub.simps starts_with_def)
  have "parse_ddl_message ascii_upper (''ADD_COLUMN'' @ ''|'' @ ''public.users'' @ ''|'' @ ?pre @ ''column '' @ ''email'' @ replicate 0 CHR '';'' @ '' text'')
     = Ok \<lparr>pd_table = ''public.users'', pd_kind = AddColumn ''email'',
           pd_statement = ?pre @ ''column '' @ ''email'' @ replicate 0 CHR '';'' @ '' text''\<rparr>"
    by (rule parse_column_ddl [where n = 0 and rest = "'' text''", OF ascii_up.uppercase_axioms _ _ _ _ k first])
      (simp_all add: is_ascii_def plain_word_def ascii_ws_def)
  then show ?thesis by simp
qed


text \<open>
  The keyword is searched for in the whole statement, so a table whose name ends in
  \<open>column\<close> hides the real one: adding a column to such a table reports the word \<open>ADD\<close> as the
  name of the column. And \<open>IF NOT EXISTS\<close> makes \<open>IF\<close> the column.
\<close>
theorem column_name_misread:
  "parse_ddl_message ascii_upper ''ADD_COLUMN|public.my_column|ALTER TABLE public.my_column ADD COLUMN email text''
     = Ok \<lparr>pd_table = ''public.my_column'', pd_kind = AddColumn ''ADD'',
           pd_statement = ''ALTER TABLE public.my_column ADD COLUMN email text''\<rparr>
   \<and> parse_ddl_message ascii_upper ''ADD_COLUMN|public.t|ALTER TABLE public.t ADD COLUMN IF NOT EXISTS email text''
     = Ok \<lparr>pd_table = ''public.t'', pd_kind = AddColumn ''IF'',
           pd_statement = ''ALTER TABLE public.t ADD COLUMN IF NOT EXISTS email text''\<rparr>"
proof -
  have k: "ascii_upper ''column '' = ''COLUMN ''" "ascii_upper ''COLUMN '' = ''COLUMN ''"
    "ascii_upper ''ALTER TABLE public.my_'' = ''ALTER TABLE PUBLIC.MY_''"
    "ascii_upper ''ALTER TABLE public.t ADD '' = ''ALTER TABLE PUBLIC.T ADD ''"
    by (simp_all add: ascii_upper_def ascii_upper_char_def char_of_def bit_0)
  have f: "find_sub (ascii_upper ''ALTER TABLE public.my_'' @ butlast ''COLUMN '') ''COLUMN '' = None"
    "find_sub (ascii_upper ''ALTER TABLE public.t ADD '' @ butlast ''COLUMN '') ''COLUMN '' = None"
    by (simp_all add: k(3,4) find_sub.simps starts_with_def)
  have "extract_column_name ascii_upper (''ALTER TABLE public.my_'' @ ''column '' @ ''ADD'' @ '' COLUMN email text'') = Ok (Some ''ADD'')"
    unfolding extract_column_name_def
    by (subst ascii_up.extract_after_first [OF _ _ _ k(1) _ f(1)], simp_all add: is_ascii_def)
       (subst first_word_plain [of "''ADD''" "'' COLUMN email text''", simplified], simp_all add: is_ascii_def plain_word_def ascii_ws_def trim_end_matches_def)
  moreover have "extract_column_name ascii_upper (''ALTER TABLE public.t ADD '' @ ''COLUMN '' @ ''IF'' @ '' NOT EXISTS email text'') = Ok (Some ''IF'')"
    unfolding extract_column_name_def
    by (subst ascii_up.extract_after_first [OF _ _ _ k(2) _ f(2)], simp_all add: is_ascii_def)
       (subst first_word_plain [of "''IF''" "'' NOT EXISTS email text''", simplified], simp_all add: is_ascii_def plain_word_def ascii_ws_def trim_end_matches_def)
  ultimately show
    "parse_ddl_message ascii_upper ''ADD_COLUMN|public.my_column|ALTER TABLE public.my_column ADD COLUMN email text''
     = Ok \<lparr>pd_table = ''public.my_column'', pd_kind = AddColumn ''ADD'',
           pd_statement = ''ALTER TABLE public.my_column ADD COLUMN email text''\<rparr>
   \<and> parse_ddl_message ascii_upper ''ADD_COLUMN|public.t|ALTER TABLE public.t ADD COLUMN IF NOT EXISTS email text''
     = Ok \<lparr>pd_table = ''public.t'', pd_kind = AddColumn ''IF'',
           pd_statement = ''ALTER TABLE public.t ADD COLUMN IF NOT EXISTS email text''\<rparr>"
    by (simp add: parse_ddl_message_def numeral_3_eq_3 ddl_kind_def unwrap_or_default_def)
qed

text \<open>
  The offset found in the upper-cased statement is used in the original one, although upper
  case can change the number of bytes. ASCII statements are safe, but the statement
  \<open>ALTER TABLE <n-apostrophe> RENAME TO <e-acute>\<close>, whose first name has two bytes in lower and
  three in upper case, makes the parser slice inside a character and panic.
\<close>
theorem ddl_parser_panics:
  assumes "up (''ALTER TABLE '' @ map char_of_byte [0xC5, 0x89] @ '' RENAME TO '' @ map char_of_byte [0xC3, 0xA9])
         = ''ALTER TABLE '' @ map char_of_byte [0xCA, 0xBC, 0x4E] @ '' RENAME TO '' @ map char_of_byte [0xC3, 0x89]"
  shows "parse_ddl_message up (''RENAME_TABLE|public.t|'' @
           ''ALTER TABLE '' @ map char_of_byte [0xC5, 0x89] @ '' RENAME TO '' @ map char_of_byte [0xC3, 0xA9]) = Panic"
    (is "parse_ddl_message up (_ @ ?s) = Panic")
proof -
  have "find_sub (''ALTER TABLE '' @ map char_of_byte [0xCA, 0xBC, 0x4E] @ '' RENAME TO '' @ map char_of_byte [0xC3, 0x89])
      ''RENAME TO '' = Some 16"
    by (simp add: find_sub.simps starts_with_def char_of_byte_def char_of_def bit_0)
  then have "extract_new_name up ?s = Panic"
    unfolding extract_new_name_def extract_after_def assms
    by (simp add: str_from_def byte_in_def)
  then show ?thesis
    by (simp add: parse_ddl_message_def numeral_3_eq_3 ddl_kind_def)
qed

theorem ddl_parser_panics_witness:
  "\<exists>up. uppercase up \<and> parse_ddl_message up (''RENAME_TABLE|public.t|'' @
       ''ALTER TABLE '' @ map char_of_byte [0xC5, 0x89] @ '' RENAME TO '' @ map char_of_byte [0xC3, 0xA9]) = Panic"
proof -
  let ?s = "''ALTER TABLE '' @ map char_of_byte [0xC5, 0x89] @ '' RENAME TO '' @ map char_of_byte [0xC3, 0xA9]"
  let ?up = "\<lambda>s. if s = ?s
      then ''ALTER TABLE '' @ map char_of_byte [0xCA, 0xBC, 0x4E] @ '' RENAME TO '' @ map char_of_byte [0xC3, 0x89]
      else ascii_upper s"
  have "\<not> is_ascii ?s" by (simp add: is_ascii_def char_of_byte_def)
  then have "uppercase ?up" by unfold_locales auto
  moreover have "parse_ddl_message ?up (''RENAME_TABLE|public.t|'' @ ?s) = Panic"
    by (rule ddl_parser_panics) simp
  ultimately show ?thesis by blast
qed

end
