(* ===== verification/Pg_Client.thy ===== *)
theory Pg_Client
  imports Schema Lsn Event Config F64
begin

text \<open>
  The query connection to PostgreSQL and its users: \<open>src/services/pgsql/src/connector\<close>,
  \<open>schema/registry.rs\<close> (\<open>load_publication_schemas\<close>), \<open>snapshot\<close>, \<open>trigger/event\<close>,
  \<open>replication/slot.rs\<close> and \<open>slot\<close>. The client of \<open>tokio_postgres\<close> and the server behind it are
  the parameter \<open>P\<close>: a query returns the rows or an error and may change the server \<open>'c\<close>. A value
  carries the SQL type that decides which Rust types it converts to; \<open>Row::get\<close> panics when it
  does not, as that crate documents. SQL texts keep their words; runs of blanks are one blank.
\<close>

subsection \<open>The connection\<close>

text \<open>
  The column types the program asks for: those a \<open>String\<close> or \<open>&str\<close> accepts (text, varchar, name,
  \<dots>), \<open>int8\<close>, \<open>int4\<close>, and any other (\<open>pg_lsn\<close>, \<open>"char"\<close>, numeric types of user tables, \<dots>).
\<close>

datatype pg_type = TyText | TyInt8 | TyInt4 | TyOther

datatype pg_value = PgNull pg_type | PgText string | PgInt8 i64 | PgInt4 i32 | PgOther string

type_synonym pg_row = "pg_value list"

record 'c pg_ops =
  pg_connect :: "string \<Rightarrow> ('c, string) rresult"
  pg_query :: "'c \<Rightarrow> string \<Rightarrow> string list \<Rightarrow> (pg_row list, string) rresult \<times> 'c"
  pg_execute :: "'c \<Rightarrow> string \<Rightarrow> (u64, string) rresult \<times> 'c"

type_synonym ('a, 'c) pg_res = "('a, string) rresult \<times> 'c"

fun pg_bind :: "('a, 'c) pg_res \<Rightarrow> ('a \<Rightarrow> 'c \<Rightarrow> ('b, 'c) pg_res) \<Rightarrow> ('b, 'c) pg_res" where
  "pg_bind (Ok a, c) f = f a c"
| "pg_bind (Err e, c) f = (Err e, c)"
| "pg_bind (Panic, c) f = (Panic, c)"

text \<open>\<open>query_one\<close> fails unless there is exactly one row.\<close>

definition one_row :: "pg_row list \<Rightarrow> (pg_row, string) rresult" where
  "one_row rows = (case rows of [r] \<Rightarrow> Ok r | _ \<Rightarrow> Err ''query returned an unexpected number of rows'')"

definition pg_query_one :: "'c pg_ops \<Rightarrow> 'c \<Rightarrow> string \<Rightarrow> string list \<Rightarrow> (pg_row, 'c) pg_res" where
  "pg_query_one P c sql params = pg_bind (pg_query P c sql params) (\<lambda>rows c. (one_row rows, c))"

text \<open>\<open>Row::get\<close> for the Rust types in use.\<close>

definition row_at :: "pg_row \<Rightarrow> nat \<Rightarrow> (pg_value, 'e) rresult" where
  "row_at r i = (if i < length r then Ok (r ! i) else Panic)"

definition get_str :: "pg_row \<Rightarrow> nat \<Rightarrow> (string, 'e) rresult" where
  "get_str r i = and_then (row_at r i) (\<lambda>v. case v of PgText s \<Rightarrow> Ok s | _ \<Rightarrow> Panic)"

definition get_opt_str :: "pg_row \<Rightarrow> nat \<Rightarrow> (string option, 'e) rresult" where
  "get_opt_str r i = and_then (row_at r i)
     (\<lambda>v. case v of PgText s \<Rightarrow> Ok (Some s) | PgNull TyText \<Rightarrow> Ok None | _ \<Rightarrow> Panic)"

definition get_i64 :: "pg_row \<Rightarrow> nat \<Rightarrow> (i64, 'e) rresult" where
  "get_i64 r i = and_then (row_at r i) (\<lambda>v. case v of PgInt8 n \<Rightarrow> Ok n | _ \<Rightarrow> Panic)"

definition get_i32 :: "pg_row \<Rightarrow> nat \<Rightarrow> (i32, 'e) rresult" where
  "get_i32 r i = and_then (row_at r i) (\<lambda>v. case v of PgInt4 n \<Rightarrow> Ok n | _ \<Rightarrow> Panic)"

text \<open>\<open>row.try_get::<String>(i).ok()\<close>\<close>

definition try_get_str :: "pg_row \<Rightarrow> nat \<Rightarrow> string option" where
  "try_get_str r i = (if i < length r then (case r ! i of PgText s \<Rightarrow> Some s | _ \<Rightarrow> None) else None)"

text \<open>\<open>rows.iter().map(f).collect()\<close> where the closure may panic.\<close>

fun map_rows :: "(pg_row \<Rightarrow> ('a, 'e) rresult) \<Rightarrow> pg_row list \<Rightarrow> ('a list, 'e) rresult" where
  "map_rows f [] = Ok []"
| "map_rows f (r # rs) = and_then (f r) (\<lambda>a. and_then (map_rows f rs) (\<lambda>as. Ok (a # as)))"

subsection \<open>Connector\<close>

record ConnectorConfig =
  cc_connection_string :: string
  cc_application_name :: string
  cc_slot_name :: string
  cc_publication_name :: string

definition from_nendi_config :: "NendiConfig \<Rightarrow> ConnectorConfig" where
  "from_nendi_config cfg =
     \<lparr>cc_connection_string = connection_string (nc_source cfg),
      cc_application_name = application_name (nc_source cfg),
      cc_slot_name = slot_name (nc_slot cfg),
      cc_publication_name = pub_name (nc_publication cfg)\<rparr>"

record 'c PgClient =
  pg_client :: 'c
  pg_config :: ConnectorConfig

definition client_connect :: "'c pg_ops \<Rightarrow> ConnectorConfig \<Rightarrow> ('c PgClient, string) rresult" where
  "client_connect P config =
     and_then (pg_connect P (cc_connection_string config)) (\<lambda>c.
     Ok \<lparr>pg_client = c, pg_config = config\<rparr>)"

definition client_execute :: "'c pg_ops \<Rightarrow> 'c \<Rightarrow> string \<Rightarrow> (u64, 'c) pg_res" where
  "client_execute P c query = pg_execute P c query"

fun lsn_error :: "lsn_parse_error \<Rightarrow> string" where
  "lsn_error (LsnParseError s) = ''invalid LSN format: '' @ [CHR 39] @ s @ [CHR 39]"

definition parse_lsn :: "string \<Rightarrow> string \<Rightarrow> (lsn, string) rresult" where
  "parse_lsn what s =
     (case from_pg_str s of Ok l \<Rightarrow> Ok l | Err e \<Rightarrow> Err (what @ lsn_error e) | Panic \<Rightarrow> Panic)"

definition current_wal_lsn :: "'c pg_ops \<Rightarrow> 'c \<Rightarrow> (lsn, 'c) pg_res" where
  "current_wal_lsn P c =
     pg_bind (pg_query_one P c ''SELECT pg_current_wal_lsn()::text'' []) (\<lambda>row c.
     pg_bind (get_str row 0, c) (\<lambda>s c.
     (parse_lsn ''failed to parse WAL LSN: '' s, c)))"

definition sql_slot_count :: string where
  "sql_slot_count = ''SELECT COUNT(*) FROM pg_replication_slots WHERE slot_name = $1''"

definition slot_exists :: "'c pg_ops \<Rightarrow> 'c \<Rightarrow> string \<Rightarrow> (bool, 'c) pg_res" where
  "slot_exists P c slot =
     pg_bind (pg_query_one P c sql_slot_count [slot])
     (\<lambda>row c. pg_bind (get_i64 row 0, c) (\<lambda>count c. (Ok (sint count > 0), c)))"

definition publication_exists :: "'c pg_ops \<Rightarrow> 'c \<Rightarrow> string \<Rightarrow> (bool, 'c) pg_res" where
  "publication_exists P c pub =
     pg_bind (pg_query_one P c ''SELECT COUNT(*) FROM pg_publication WHERE pubname = $1'' [pub])
     (\<lambda>row c. pg_bind (get_i64 row 0, c) (\<lambda>count c. (Ok (sint count > 0), c)))"

definition sql_wal_lag :: string where
  "sql_wal_lag =
     ''SELECT COALESCE(pg_wal_lsn_diff(pg_current_wal_lsn(), confirmed_flush_lsn), 0)::bigint '' @
     ''FROM pg_replication_slots WHERE slot_name = $1''"

definition wal_lag_bytes :: "'c pg_ops \<Rightarrow> 'c \<Rightarrow> string \<Rightarrow> (u64, 'c) pg_res" where
  "wal_lag_bytes P c slot =
     pg_bind (pg_query_one P c sql_wal_lag [slot])
     (\<lambda>row c. pg_bind (get_i64 row 0, c) (\<lambda>lag c. (Ok (if sint lag > 0 then lag else 0), c)))"

definition sql_publication_tables :: string where
  "sql_publication_tables =
     ''SELECT schemaname || '' @ [CHR 39] @ ''.'' @ [CHR 39] @ '' || tablename '' @
     ''FROM pg_publication_tables WHERE pubname = $1 ORDER BY schemaname, tablename''"

definition publication_tables :: "'c pg_ops \<Rightarrow> 'c \<Rightarrow> string \<Rightarrow> (string list, 'c) pg_res" where
  "publication_tables P c pub =
     pg_bind (pg_query P c sql_publication_tables [pub])
     (\<lambda>rows c. (map_rows (\<lambda>r. get_str r 0) rows, c))"

subsection \<open>Loading the schemas of a publication\<close>

definition sql_schema_columns :: string where
  "sql_schema_columns =
     ''SELECT column_name, udt_name, is_nullable, ordinal_position FROM information_schema.columns '' @
     ''WHERE table_schema = $1 AND table_name = $2 ORDER BY ordinal_position''"

definition sql_primary_key :: string where
  "sql_primary_key =
     ''SELECT a.attname FROM pg_index i JOIN pg_attribute a ON a.attrelid = i.indrelid '' @
     ''AND a.attnum = ANY(i.indkey) WHERE i.indrelid = ($1 || '' @ [CHR 39] @ ''.'' @ [CHR 39] @
     '' || $2)::regclass AND i.indisprimary''"

definition schema_column :: "string list \<Rightarrow> pg_row \<Rightarrow> (ColumnSchema, string) rresult" where
  "schema_column pk_names r =
     and_then (get_str r 0) (\<lambda>name.
     and_then (get_str r 1) (\<lambda>type_name.
     and_then (get_str r 2) (\<lambda>nullable.
     and_then (get_i32 r 3) (\<lambda>ordinal.
     Ok \<lparr>cs_name = name, cs_type_oid = 0, cs_type_name = type_name,
         cs_is_nullable = (nullable = ''YES''), cs_is_primary_key = (name \<in> set pk_names),
         cs_ordinal_position = ordinal\<rparr>))))"

text \<open>\<open>.await.unwrap_or_default()\<close>: a failed query counts as no rows.\<close>

fun rows_or_default :: "(pg_row list, string) rresult \<Rightarrow> (pg_row list, string) rresult" where
  "rows_or_default (Ok rows) = Ok rows"
| "rows_or_default (Err e) = Ok []"
| "rows_or_default Panic = Panic"

text \<open>The body of the loop: the schema of one table, if its name has a dot.\<close>

definition load_table ::
    "'c pg_ops \<Rightarrow> 'm schema_dm \<Rightarrow> 'c \<Rightarrow> string \<Rightarrow> 'm SchemaRegistry \<Rightarrow> (nat \<times> 'm SchemaRegistry, 'c) pg_res" where
  "load_table P D c qualified reg =
     (case splitn 2 CHR ''.'' qualified of
        [p0, p1] \<Rightarrow>
          pg_bind (pg_query P c sql_schema_columns [p0, p1]) (\<lambda>rows c.
          let (pk, c) = pg_query P c sql_primary_key [p0, p1] in
          pg_bind (rows_or_default pk, c) (\<lambda>pk_rows c.
          pg_bind (map_rows (\<lambda>r. get_str r 0) pk_rows, c) (\<lambda>pk_names c.
          pg_bind (map_rows (schema_column pk_names) rows, c) (\<lambda>cols c.
          (Ok (1, upsert D reg qualified
             \<lparr>ts_schema = p0, ts_table = p1, ts_columns = cols, ts_fingerprint = compute p0 p1 cols\<rparr>), c)))))
      | _ \<Rightarrow> (Ok (0, reg), c))"

text \<open>
  The loop. The registry is behind a shared reference, so what was registered before an error or
  a panic stays.
\<close>

fun load_tables ::
    "'c pg_ops \<Rightarrow> 'm schema_dm \<Rightarrow> 'c \<Rightarrow> string list \<Rightarrow> nat \<Rightarrow> 'm SchemaRegistry
     \<Rightarrow> (nat, string) rresult \<times> 'm SchemaRegistry \<times> 'c" where
  "load_tables P D c [] count reg = (Ok count, reg, c)"
| "load_tables P D c (t # ts) count reg =
     (case load_table P D c t reg of
        (Ok (n, reg'), c) \<Rightarrow> load_tables P D c ts (count + n) reg'
      | (Err e, c) \<Rightarrow> (Err e, reg, c)
      | (Panic, c) \<Rightarrow> (Panic, reg, c))"

definition load_publication_schemas ::
    "'c pg_ops \<Rightarrow> 'm schema_dm \<Rightarrow> 'c \<Rightarrow> string \<Rightarrow> 'm SchemaRegistry
     \<Rightarrow> (nat, string) rresult \<times> 'm SchemaRegistry \<times> 'c" where
  "load_publication_schemas P D c publication reg =
     (case publication_tables P c publication of
        (Ok ts, c) \<Rightarrow> load_tables P D c ts 0 reg
      | (Err e, c) \<Rightarrow> (Err e, reg, c)
      | (Panic, c) \<Rightarrow> (Panic, reg, c))"

subsection \<open>Event triggers\<close>

datatype EventTriggerKind = DdlCommand | SqlDrop | TableRewrite

fun pg_event_name :: "EventTriggerKind \<Rightarrow> string" where
  "pg_event_name DdlCommand = ''ddl_command_end''"
| "pg_event_name SqlDrop = ''sql_drop''"
| "pg_event_name TableRewrite = ''table_rewrite''"

record EventTriggerStatus =
  et_name :: string
  et_kind :: EventTriggerKind
  et_enabled :: bool
  et_function_name :: string

definition create_trigger_sql :: "string \<Rightarrow> string \<Rightarrow> string" where
  "create_trigger_sql name event =
     ''DO $$ BEGIN IF NOT EXISTS ( SELECT 1 FROM pg_event_trigger WHERE evtname = '' @
     [CHR 39] @ name @ [CHR 39] @ '' ) THEN CREATE EVENT TRIGGER '' @ name @ '' ON '' @ event @
     '' EXECUTE FUNCTION nendi_capture_ddl(); END IF; END $$;''"

definition install_triggers :: "'c pg_ops \<Rightarrow> 'c \<Rightarrow> (unit, 'c) pg_res" where
  "install_triggers P c =
     pg_bind (client_execute P c (create_trigger_sql ''nendi_ddl_trigger'' ''ddl_command_end'')) (\<lambda>_ c.
     pg_bind (client_execute P c (create_trigger_sql ''nendi_drop_trigger'' ''sql_drop'')) (\<lambda>_ c.
     (Ok (), c)))"

definition trigger_kind :: "string \<Rightarrow> EventTriggerKind" where
  "trigger_kind event =
     (if event = ''ddl_command_end'' then DdlCommand
      else if event = ''sql_drop'' then SqlDrop
      else if event = ''table_rewrite'' then TableRewrite
      else DdlCommand)"

definition trigger_status :: "pg_row \<Rightarrow> (EventTriggerStatus, string) rresult" where
  "trigger_status r =
     and_then (get_str r 0) (\<lambda>name.
     and_then (get_str r 1) (\<lambda>event.
     and_then (get_str r 2) (\<lambda>enabled.
     and_then (get_str r 3) (\<lambda>func.
     Ok \<lparr>et_name = name, et_kind = trigger_kind event, et_enabled = (enabled \<noteq> ''D''),
         et_function_name = func\<rparr>))))"

definition sql_check_triggers :: string where
  "sql_check_triggers =
     ''SELECT evtname, evtevent, evtenabled, evtfoid::regproc::text FROM pg_event_trigger '' @
     ''WHERE evtname LIKE '' @ [CHR 39] @ ''nendi_%'' @ [CHR 39]"

definition check_triggers :: "'c pg_ops \<Rightarrow> 'c \<Rightarrow> (EventTriggerStatus list, 'c) pg_res" where
  "check_triggers P c =
     pg_bind (pg_query P c sql_check_triggers []) (\<lambda>rows c. (map_rows trigger_status rows, c))"

definition remove_triggers :: "'c pg_ops \<Rightarrow> 'c \<Rightarrow> (unit, 'c) pg_res" where
  "remove_triggers P c =
     pg_bind (client_execute P c ''DROP EVENT TRIGGER IF EXISTS nendi_ddl_trigger'') (\<lambda>_ c.
     pg_bind (client_execute P c ''DROP EVENT TRIGGER IF EXISTS nendi_drop_trigger'') (\<lambda>_ c.
     (Ok (), c)))"

subsection \<open>Replication slots\<close>

record SlotManager =
  sm_slot_name :: string
  sm_auto_create :: bool

definition create_slot_sql :: "string \<Rightarrow> string" where
  "create_slot_sql slot =
     ''SELECT lsn FROM pg_create_logical_replication_slot('' @ [CHR 39] @ slot @ [CHR 39] @ '', '' @
     [CHR 39] @ ''pgoutput'' @ [CHR 39] @ '')''"

definition ensure_slot :: "'c pg_ops \<Rightarrow> SlotManager \<Rightarrow> 'c \<Rightarrow> string \<Rightarrow> (lsn option, 'c) pg_res" where
  "ensure_slot P sm c publication =
     pg_bind (slot_exists P c (sm_slot_name sm)) (\<lambda>ex c.
     if ex then (Ok None, c)
     else if \<not> sm_auto_create sm then
       (Err (''replication slot '' @ [CHR 39] @ sm_slot_name sm @ [CHR 39] @
             '' does not exist and auto_create is disabled''), c)
     else
       pg_bind (pg_query_one P c (create_slot_sql (sm_slot_name sm)) []) (\<lambda>row c.
       pg_bind (get_str row 0, c) (\<lambda>s c.
       pg_bind (parse_lsn ''failed to parse slot LSN: '' s, c) (\<lambda>lsn c.
       (Ok (Some lsn), c)))))"

definition drop_slot :: "'c pg_ops \<Rightarrow> SlotManager \<Rightarrow> 'c \<Rightarrow> (unit, 'c) pg_res" where
  "drop_slot P sm c =
     pg_bind (client_execute P c
       (''SELECT pg_drop_replication_slot('' @ [CHR 39] @ sm_slot_name sm @ [CHR 39] @ '')''))
     (\<lambda>_ c. (Ok (), c))"

subsection \<open>WAL lag\<close>

datatype LagStatus = LagOk u64 | LagWarning u64 u64 | LagCritical u64 u64

record LagPolicy =
  lp_hard_cap_bytes :: u64
  lp_warn_threshold :: f64

definition lag_policy_new :: "u64 \<Rightarrow> LagPolicy" where
  "lag_policy_new cap = \<lparr>lp_hard_cap_bytes = cap, lp_warn_threshold = rnd (85 / 100)\<rparr>"

definition lag_evaluate :: "LagPolicy \<Rightarrow> u64 \<Rightarrow> LagStatus" where
  "lag_evaluate p lag =
     (if lag > lp_hard_cap_bytes p then LagCritical lag (lp_hard_cap_bytes p)
      else if f64_lt (f64_mul (f64_of_u64 (lp_hard_cap_bytes p)) (lp_warn_threshold p)) (f64_of_u64 lag)
      then LagWarning lag (lp_hard_cap_bytes p)
      else LagOk lag)"

definition should_pause :: "LagPolicy \<Rightarrow> u64 \<Rightarrow> bool" where
  "should_pause p lag \<longleftrightarrow> lag > lp_hard_cap_bytes p"

definition can_resume :: "LagPolicy \<Rightarrow> u64 \<Rightarrow> bool" where
  "can_resume p lag \<longleftrightarrow> lag < lp_hard_cap_bytes p div 2"

record SlotLifecycleManager =
  lm_slot_name :: string
  lm_publication_name :: string
  lm_auto_create :: bool
  lm_wal_lag_hard_cap_bytes :: u64
  lm_lag_check_interval_secs :: u64

definition lifecycle_from_config :: "NendiConfig \<Rightarrow> SlotLifecycleManager" where
  "lifecycle_from_config cfg =
     \<lparr>lm_slot_name = slot_name (nc_slot cfg), lm_publication_name = pub_name (nc_publication cfg),
      lm_auto_create = auto_create (nc_slot cfg),
      lm_wal_lag_hard_cap_bytes = wal_lag_hard_cap_bytes (nc_slot cfg),
      lm_lag_check_interval_secs = lag_check_interval_secs (nc_slot cfg)\<rparr>"

text \<open>A lag above the cap at startup is only logged.\<close>

definition lifecycle_init :: "'c pg_ops \<Rightarrow> SlotLifecycleManager \<Rightarrow> 'c \<Rightarrow> (unit, 'c) pg_res" where
  "lifecycle_init P lm c =
     pg_bind (ensure_slot P \<lparr>sm_slot_name = lm_slot_name lm, sm_auto_create = lm_auto_create lm\<rparr> c
       (lm_publication_name lm)) (\<lambda>_ c.
     pg_bind (wal_lag_bytes P c (lm_slot_name lm)) (\<lambda>lag c. (Ok (), c)))"

definition check_lag :: "'c pg_ops \<Rightarrow> SlotLifecycleManager \<Rightarrow> 'c \<Rightarrow> (LagStatus, 'c) pg_res" where
  "check_lag P lm c =
     pg_bind (wal_lag_bytes P c (lm_slot_name lm)) (\<lambda>lag c.
     (Ok (lag_evaluate (lag_policy_new (lm_wal_lag_hard_cap_bytes lm)) lag), c))"

subsection \<open>Snapshots\<close>

record SnapshotBuilder =
  sb_tables :: "string list"

definition builder_new :: "string list \<Rightarrow> usize \<Rightarrow> SnapshotBuilder" where
  "builder_new ts batch_size = \<lparr>sb_tables = ts\<rparr>"

definition sql_snapshot_columns :: string where
  "sql_snapshot_columns =
     ''SELECT column_name, udt_name FROM information_schema.columns '' @
     ''WHERE table_schema = $1 AND table_name = $2 ORDER BY ordinal_position''"

definition snapshot_select :: "string list \<Rightarrow> string \<Rightarrow> string \<Rightarrow> string" where
  "snapshot_select names schema table =
     ''SELECT '' @ join_with '', '' names @ '' FROM '' @ schema @ ''.'' @ table"

definition snapshot_row :: "(string \<times> string) list \<Rightarrow> pg_row \<Rightarrow> RowData" where
  "snapshot_row cols r =
     \<lparr>columns = map (\<lambda>(i, name, _). \<lparr>cv_name = name, cv_type_oid = 0, cv_value = try_get_str r i\<rparr>)
                  (enumerate 0 cols)\<rparr>"

definition snapshot_event :: "u64 \<Rightarrow> string \<Rightarrow> string \<Rightarrow> (string \<times> string) list \<Rightarrow> pg_row \<Rightarrow> ChangeEvent" where
  "snapshot_event lsn schema table cols r =
     \<lparr>ev_lsn = lsn, ev_xid = 0, ev_op = Insert,
      ev_table = \<lparr>tid_schema = schema, tid_table = table\<rparr>, ev_schema_fingerprint = 0,
      ev_after = Some (snapshot_row cols r), ev_before = None, ev_commit_timestamp_us = 0\<rparr>"

definition snapshot_table :: "'c pg_ops \<Rightarrow> 'c \<Rightarrow> string \<Rightarrow> u64 \<Rightarrow> (ChangeEvent list, 'c) pg_res" where
  "snapshot_table P c qualified snapshot_lsn =
     (case split_once CHR ''.'' qualified of
        None \<Rightarrow> (Err (''invalid table name: '' @ qualified), c)
      | Some (schema, table) \<Rightarrow>
          pg_bind (pg_query P c sql_snapshot_columns [schema, table]) (\<lambda>col_rows c.
          pg_bind (map_rows (\<lambda>r. and_then (get_str r 0) (\<lambda>n. and_then (get_str r 1) (\<lambda>t. Ok (n, t)))) col_rows, c)
          (\<lambda>col_info c.
          if col_info = [] then (Err (''no columns found for table '' @ qualified), c)
          else
            pg_bind (pg_query P c (snapshot_select (map fst col_info) schema table) []) (\<lambda>rows c.
            (Ok (map (snapshot_event snapshot_lsn schema table col_info) rows), c)))))"

fun snapshot_tables :: "'c pg_ops \<Rightarrow> 'c \<Rightarrow> string list \<Rightarrow> u64 \<Rightarrow> ChangeEvent list \<Rightarrow> (ChangeEvent list, 'c) pg_res" where
  "snapshot_tables P c [] lsn all_events = (Ok all_events, c)"
| "snapshot_tables P c (t # ts) lsn all_events =
     pg_bind (snapshot_table P c t lsn) (\<lambda>events c. snapshot_tables P c ts lsn (all_events @ events))"

definition snapshot_all :: "'c pg_ops \<Rightarrow> SnapshotBuilder \<Rightarrow> 'c \<Rightarrow> u64 \<Rightarrow> (ChangeEvent list, 'c) pg_res" where
  "snapshot_all P sb c lsn = snapshot_tables P c (sb_tables sb) lsn []"

record SnapshotExporter =
  se_slot_name :: string
  se_snapshot_lsn :: lsn

definition begin_export :: "'c pg_ops \<Rightarrow> SnapshotExporter \<Rightarrow> 'c \<Rightarrow> (unit, 'c) pg_res" where
  "begin_export P se c =
     pg_bind (pg_query_one P c
       ''SELECT snapshot_name FROM pg_replication_slots WHERE slot_name = $1'' [se_slot_name se]) (\<lambda>row c.
     pg_bind (get_opt_str row 0, c) (\<lambda>snapshot_name c.
     case snapshot_name of
       Some snap \<Rightarrow>
         pg_bind (client_execute P c ''BEGIN TRANSACTION ISOLATION LEVEL REPEATABLE READ'') (\<lambda>_ c.
         pg_bind (client_execute P c (''SET TRANSACTION SNAPSHOT '' @ [CHR 39] @ snap @ [CHR 39])) (\<lambda>_ c.
         (Ok (), c)))
     | None \<Rightarrow>
         pg_bind (client_execute P c ''BEGIN TRANSACTION ISOLATION LEVEL REPEATABLE READ'') (\<lambda>_ c.
         (Ok (), c))))"

definition commit_export :: "'c pg_ops \<Rightarrow> SnapshotExporter \<Rightarrow> 'c \<Rightarrow> (unit, 'c) pg_res" where
  "commit_export P se c = pg_bind (client_execute P c ''COMMIT'') (\<lambda>_ c. (Ok (), c))"

subsection \<open>Lemmas on the connection\<close>

lemma pg_bind_Ok_iff:
  "pg_bind m f = (Ok b, c') \<longleftrightarrow> (\<exists>a c. m = (Ok a, c) \<and> f a c = (Ok b, c'))"
  by (cases "(m, f)" rule: pg_bind.cases) auto

lemma map_rows_total:
  "(\<And>r. r \<in> set rs \<Longrightarrow> f r = Ok (g r)) \<Longrightarrow> map_rows f rs = Ok (map g rs)"
  by (induction rs) auto

lemma row_at_simps [simp]:
  "row_at (v # r) 0 = Ok v" "row_at (v # r) (Suc i) = row_at r i" "row_at [] i = Panic"
  by (simp_all add: row_at_def)

lemma get_simps [simp]:
  "get_str [PgText s] 0 = Ok s" "get_i64 [PgInt8 n] 0 = Ok n"
  "get_str [PgOther s] 0 = Panic"
  by (simp_all add: get_str_def get_i64_def)

lemma query_one_simps:
  "pg_query P c sql ps = (Ok [r], c') \<Longrightarrow> pg_query_one P c sql ps = (Ok r, c')"
  by (simp add: pg_query_one_def one_row_def)

subsection \<open>WAL lag\<close>

text \<open>The warning threshold in \<open>f64\<close> is within a tenth of a percent of 85 per cent of the cap.\<close>

lemma warn_limit_pos:
  assumes "0 < unat cap"
  obtains m where "f64_mul (f64_of_u64 cap) (rnd (85 / 100)) = Fin m"
    and "8494 / 10000 * of_nat (unat cap) \<le> m" and "m \<le> 8506 / 10000 * of_nat (unat cap)"
proof -
  define C :: rat where "C = of_nat (unat cap)"
  obtain c where c: "f64_of_u64 cap = Fin c" "9999 / 10000 * C \<le> c" "c \<le> 10001 / 10000 * C"
    using f64_of_u64_near [OF assms] unfolding C_def .
  obtain t where t: "rnd (85 / 100) = Fin t" "9999 / 10000 * (85 / 100) \<le> t" "t \<le> 10001 / 10000 * (85 / 100)"
    by (rule rnd_near [of "85 / 100"]) auto
  have one: "1 \<le> C" using assms of_nat_mono [of 1 "unat cap"] unfolding C_def by simp
  have c0: "0 \<le> c" using c(2) one by linarith
  have "9999 / 10000 * C * (9999 / 10000 * (85 / 100)) \<le> c * t"
    using c0 c(2) t(2) by (intro mult_mono) auto
  then have lo: "8496 / 10000 * C \<le> c * t" using one by linarith
  have "c * t \<le> 10001 / 10000 * C * (10001 / 10000 * (85 / 100))"
    using c0 c(3) t(2,3) one by (intro mult_mono) auto
  then have hi: "c * t \<le> 8504 / 10000 * C" using one by linarith
  have "C < 2 ^ 64"
    unfolding C_def using unat_less [of cap] by (subst of_nat_less_numeral_power_cancel_iff) simp
  also have "(2 :: rat) ^ 64 \<le> 2 ^ 1000" by (rule power_increasing) simp_all
  finally have "c * t \<le> 2 ^ 1000" using hi one by linarith
  moreover have "1 / 2 \<le> c * t" using lo one by linarith
  ultimately obtain m where m: "rnd (c * t) = Fin m" "9999 / 10000 * (c * t) \<le> m" "m \<le> 10001 / 10000 * (c * t)"
    using rnd_near by blast
  show ?thesis
  proof (rule that [unfolded C_def [symmetric]])
    show "f64_mul (f64_of_u64 cap) (rnd (85 / 100)) = Fin m" by (simp only: c(1) t(1) m(1) f64_mul.simps)
    show "8494 / 10000 * C \<le> m" "m \<le> 8506 / 10000 * C" using m(2,3) lo hi one by linarith+
  qed
qed

lemma warn_limit:
  obtains m where "f64_mul (f64_of_u64 cap) (rnd (85 / 100)) = Fin m"
    and "8494 / 10000 * of_nat (unat cap) \<le> m" and "m \<le> 8506 / 10000 * of_nat (unat cap)"
proof (cases "unat cap = 0")
  case True
  obtain t where t: "rnd (85 / 100) = Fin t" by (rule rnd_near [of "85 / 100"]) auto
  have "cap = 0" using True by (simp add: unat_eq_0)
  then have "f64_mul (f64_of_u64 cap) (rnd (85 / 100)) = Fin 0"
    unfolding t by (simp add: rnd_def)
  then show ?thesis using that [of 0] True by simp
qed (use warn_limit_pos that in blast)

lemma warn_decided:
  "1000 * unat lag \<le> 849 * unat cap \<Longrightarrow>
     \<not> f64_lt (f64_mul (f64_of_u64 cap) (rnd (85 / 100))) (f64_of_u64 lag)"
  "851 * unat cap \<le> 1000 * unat lag \<Longrightarrow> 0 < unat lag \<Longrightarrow>
     f64_lt (f64_mul (f64_of_u64 cap) (rnd (85 / 100))) (f64_of_u64 lag)"
proof -
  obtain m where m: "f64_mul (f64_of_u64 cap) (rnd (85 / 100)) = Fin m"
    "8494 / 10000 * of_nat (unat cap) \<le> m" "m \<le> 8506 / 10000 * of_nat (unat cap)" by (rule warn_limit)
  obtain l where l: "f64_of_u64 lag = Fin l" "9999 / 10000 * of_nat (unat lag) \<le> l"
    "l \<le> 10001 / 10000 * of_nat (unat lag)"
  proof (cases "unat lag = 0")
    case True
    then have "lag = 0" by (simp add: unat_eq_0)
    then show ?thesis using that [of 0] by simp
  qed (use f64_of_u64_near that in blast)
  have cast: "of_nat a * (of_nat (unat x) :: rat) \<le> of_nat b * of_nat (unat y)"
    if "a * unat x \<le> b * unat y" for a b and x y :: u64
    using that by (metis of_nat_le_iff of_nat_mult)
  show "\<not> f64_lt (f64_mul (f64_of_u64 cap) (rnd (85 / 100))) (f64_of_u64 lag)"
    if "1000 * unat lag \<le> 849 * unat cap"
    using cast [OF that] m l by (simp only: f64_lt.simps of_nat_numeral)
  show "f64_lt (f64_mul (f64_of_u64 cap) (rnd (85 / 100))) (f64_of_u64 lag)"
    if "851 * unat cap \<le> 1000 * unat lag" "0 < unat lag"
    using cast [OF that(1)] of_nat_mono [of 1 "unat lag", where 'a = rat] that(2) m l
    by (simp only: f64_lt.simps of_nat_numeral of_nat_1)
qed

text \<open>
  C28. The lag check classifies what the server reports. When the server answers the lag query
  with a number of bytes, \<open>check_lag\<close> returns a status that carries that number (zero if it was
  negative). The status is critical exactly above the hard cap, which is when \<open>should_pause\<close>
  holds; up to 84.9 per cent of the cap it is fine, from 85.1 per cent up to the cap it is a
  warning whatever the rounding of the \<open>f64\<close> comparison, and whenever \<open>can_resume\<close> holds it is fine.
\<close>
theorem check_lag_status:
  assumes "pg_query P c sql_wal_lag [lm_slot_name lm] = (Ok [[PgInt8 n]], c')"
    and "lag = (if sint n > 0 then n else 0)" and "cap = lm_wal_lag_hard_cap_bytes lm"
  shows "\<exists>st. check_lag P lm c = (Ok st, c')
    \<and> (st = LagCritical lag cap \<longleftrightarrow> unat cap < unat lag)
    \<and> (should_pause (lag_policy_new cap) lag \<longleftrightarrow> unat cap < unat lag)
    \<and> (1000 * unat lag \<le> 849 * unat cap \<longrightarrow> st = LagOk lag)
    \<and> (851 * unat cap \<le> 1000 * unat lag \<and> unat lag \<le> unat cap \<and> 0 < unat lag \<longrightarrow> st = LagWarning lag cap)
    \<and> (can_resume (lag_policy_new cap) lag \<longrightarrow> st = LagOk lag)"
proof -
  let ?p = "lag_policy_new cap"
  have run: "check_lag P lm c = (Ok (lag_evaluate ?p lag), c')"
    using assms by (simp add: check_lag_def wal_lag_bytes_def query_one_simps)
  have crit: "cap < lag \<longleftrightarrow> unat cap < unat lag" by (simp add: word_less_nat_alt)
  have ok: "lag_evaluate ?p lag = LagOk lag" if "1000 * unat lag \<le> 849 * unat cap"
    using warn_decided(1) [OF that] that crit
    by (simp only: lag_evaluate_def lag_policy_new_def LagPolicy.simps) simp
  have warn: "lag_evaluate ?p lag = LagWarning lag cap"
    if "851 * unat cap \<le> 1000 * unat lag" "0 < unat lag" "unat lag \<le> unat cap"
    using warn_decided(2) [OF that(1,2)] that(3) crit
    by (simp only: lag_evaluate_def lag_policy_new_def LagPolicy.simps) simp
  have "1000 * unat lag \<le> 849 * unat cap" if "can_resume ?p lag"
    using that by (auto simp: can_resume_def lag_policy_new_def word_less_nat_alt unat_div)
  then show ?thesis
    using ok warn run crit
    by (intro exI [of _ "lag_evaluate ?p lag"])
      (auto simp: lag_evaluate_def should_pause_def lag_policy_new_def)
qed

theorem check_lag_status_witness:
  "check_lag \<lparr>pg_connect = Ok, pg_query = (\<lambda>c sql ps. (Ok [[PgInt8 900]], c)), pg_execute = (\<lambda>c q. (Ok 0, c))\<rparr>
     \<lparr>lm_slot_name = ''nendi'', lm_publication_name = ''pub'', lm_auto_create = True,
      lm_wal_lag_hard_cap_bytes = 1000, lm_lag_check_interval_secs = 10\<rparr> ''server''
   = (Ok (LagWarning 900 1000), ''server'')"
  using check_lag_status [of "\<lparr>pg_connect = Ok, pg_query = (\<lambda>c sql ps. (Ok [[PgInt8 900]], c)), pg_execute = (\<lambda>c q. (Ok 0, c))\<rparr>"
      "''server''" "\<lparr>lm_slot_name = ''nendi'', lm_publication_name = ''pub'', lm_auto_create = True,
      lm_wal_lag_hard_cap_bytes = 1000, lm_lag_check_interval_secs = 10\<rparr>" 900 "''server''" 900 1000]
  by auto

subsection \<open>Replication slots\<close>

text \<open>
  \<open>ensure_slot\<close> on every branch, given the number of slots of that name the server reports. An
  existing slot is left alone. A missing slot is an error unless \<open>auto_create\<close> is set. With it,
  one creation query is sent and an LSN answered as text is returned. But PostgreSQL answers the
  query with the type \<open>pg_lsn\<close>, which does not convert to \<open>&str\<close>: then the slot has been created
  and the call panics.
\<close>
theorem ensure_slot_cases:
  assumes "pg_query P c sql_slot_count [sm_slot_name sm] = (Ok [[PgInt8 n]], c1)"
  shows "(sint n > 0 \<longrightarrow> ensure_slot P sm c pub = (Ok None, c1))
    \<and> (sint n \<le> 0 \<and> \<not> sm_auto_create sm \<longrightarrow>
         (\<exists>msg. ensure_slot P sm c pub = (Err msg, c1)))
    \<and> (sint n \<le> 0 \<and> sm_auto_create sm \<and>
       pg_query P c1 (create_slot_sql (sm_slot_name sm)) [] = (Ok [[PgText (to_pg_string l)]], c2) \<longrightarrow>
         ensure_slot P sm c pub = (Ok (Some l), c2))
    \<and> (sint n \<le> 0 \<and> sm_auto_create sm \<and>
       pg_query P c1 (create_slot_sql (sm_slot_name sm)) [] = (Ok [[PgOther s]], c2) \<longrightarrow>
         ensure_slot P sm c pub = (Panic, c2))"
  using assms
  by (auto simp: ensure_slot_def slot_exists_def query_one_simps parse_lsn_def to_pg_string_parses)

theorem ensure_slot_cases_witness:
  "\<exists>P. ensure_slot P \<lparr>sm_slot_name = ''nendi'', sm_auto_create = True\<rparr> False ''pub'' = (Panic, True)"
proof -
  let ?P = "\<lparr>pg_connect = (\<lambda>_. Ok False),
      pg_query = (\<lambda>c sql ps. if sql = sql_slot_count then (Ok [[PgInt8 (if c then 1 else 0)]], c)
                  else (Ok [[PgOther ''0/16B3748'']], True)),
      pg_execute = (\<lambda>c q. (Ok 0, c))\<rparr> :: bool pg_ops"
  have "create_slot_sql ''nendi'' \<noteq> sql_slot_count"
    by (simp add: create_slot_sql_def sql_slot_count_def)
  then show ?thesis
    using ensure_slot_cases [of ?P False "\<lparr>sm_slot_name = ''nendi'', sm_auto_create = True\<rparr>" 0 False _ _ True
        "''0/16B3748''"]
    by (intro exI [of _ ?P]) simp
qed

subsection \<open>Loading schemas from a catalogue\<close>

text \<open>
  A server that answers the catalogue queries: \<open>pubs\<close> lists the tables of a publication, \<open>cols\<close> the
  columns of a table (name, type, nullability, position; none for a name without a table), \<open>pks\<close>
  the primary key. The key query casts \<open>schema.table\<close> to \<open>regclass\<close>, which raises an error when the
  text, folded to lower case as an unquoted name, is no relation: then \<open>pks\<close> is \<open>None\<close>. None of
  these queries changes the server.
\<close>

locale pg_catalog =
  fixes P :: "'c pg_ops"
    and pubs :: "'c \<Rightarrow> string \<Rightarrow> string list"
    and cols :: "'c \<Rightarrow> string \<Rightarrow> string \<Rightarrow> (string \<times> string \<times> bool \<times> i32) list"
    and pks :: "'c \<Rightarrow> string \<Rightarrow> string \<Rightarrow> string list option"
  assumes query_pubs: "pg_query P c sql_publication_tables [pub] = (Ok (map (\<lambda>t. [PgText t]) (pubs c pub)), c)"
    and query_cols: "pg_query P c sql_schema_columns [s, t] =
      (Ok (map (\<lambda>(n, ty, nl, i). [PgText n, PgText ty, PgText (if nl then ''YES'' else ''NO''), PgInt4 i]) (cols c s t)), c)"
    and query_pks: "pks c s t = Some ks \<Longrightarrow> pg_query P c sql_primary_key [s, t] = (Ok (map (\<lambda>n. [PgText n]) ks), c)"
    and query_no_relation: "pks c s t = None \<Longrightarrow> \<exists>e. pg_query P c sql_primary_key [s, t] = (Err e, c)"

text \<open>The schema a catalogue describes; no column is marked as key when the key query fails.\<close>

definition catalog_schema ::
    "('c \<Rightarrow> string \<Rightarrow> string \<Rightarrow> (string \<times> string \<times> bool \<times> i32) list)
     \<Rightarrow> ('c \<Rightarrow> string \<Rightarrow> string \<Rightarrow> string list option) \<Rightarrow> 'c \<Rightarrow> string \<Rightarrow> string \<Rightarrow> TableSchema" where
  "catalog_schema cols pks c s t =
     (let cs = map (\<lambda>(n, ty, nl, i). \<lparr>cs_name = n, cs_type_oid = 0, cs_type_name = ty, cs_is_nullable = nl,
                      cs_is_primary_key = (case pks c s t of Some ks \<Rightarrow> n \<in> set ks | None \<Rightarrow> False),
                      cs_ordinal_position = i\<rparr>) (cols c s t)
      in \<lparr>ts_schema = s, ts_table = t, ts_columns = cs, ts_fingerprint = compute s t cs\<rparr>)"

definition load_step ::
    "'m schema_dm \<Rightarrow> (string \<Rightarrow> string \<Rightarrow> TableSchema) \<Rightarrow> string \<Rightarrow> 'm SchemaRegistry \<Rightarrow> 'm SchemaRegistry" where
  "load_step D sch q reg =
     (case split_once CHR ''.'' q of Some (s, t) \<Rightarrow> upsert D reg q (sch s t) | None \<Rightarrow> reg)"

lemma splitn_2: "splitn 2 d s = (case split_once d s of None \<Rightarrow> [s] | Some (a, b) \<Rightarrow> [a, b])"
  by (simp add: numeral_2_eq_2 split: option.split)

context pg_catalog
begin

lemma load_table_step:
  "load_table P D c q reg =
     (Ok (if CHR ''.'' \<in> set q then 1 else 0, load_step D (catalog_schema cols pks c) q reg), c)"
proof (cases "split_once CHR ''.'' q")
  case None
  then have "CHR ''.'' \<notin> set q" by (simp add: split_once_None)
  with None show ?thesis by (simp add: load_table_def load_step_def splitn_2)
next
  case (Some st)
  obtain s t where st: "st = (s, t)" by fastforce
  let ?r = "\<lambda>(n, ty, nl, i). [PgText n, PgText ty, PgText (if nl then ''YES'' else ''NO''), PgInt4 i]"
  define names where "names = (case pks c s t of Some ks \<Rightarrow> ks | None \<Rightarrow> [])"
  have key_iff: "(case pks c s t of Some ks \<Rightarrow> n \<in> set ks | None \<Rightarrow> False) \<longleftrightarrow> n \<in> set names" for n
    by (cases "pks c s t") (simp_all add: names_def)
  let ?c = "\<lambda>(n, ty, nl, i). \<lparr>cs_name = n, cs_type_oid = 0, cs_type_name = ty, cs_is_nullable = nl,
      cs_is_primary_key = (n \<in> set names), cs_ordinal_position = i\<rparr>"
  have pk: "map_rows (\<lambda>r. get_str r 0) (map (\<lambda>n. [PgText n]) xs) = (Ok xs :: (_, string) rresult)" for xs
    by (induction xs) (auto simp: get_str_def)
  have cs: "map_rows (schema_column names) (map ?r xs) = Ok (map ?c xs)" for xs
    by (induction xs) (auto simp: schema_column_def get_str_def get_i32_def numeral_2_eq_2 numeral_3_eq_3)
  obtain res where key: "pg_query P c sql_primary_key [s, t] = (res, c)"
    "rows_or_default res = Ok (map (\<lambda>n. [PgText n]) names)"
    using query_pks [of c s t] query_no_relation [of c s t] by (cases "pks c s t") (auto simp: names_def)
  have "CHR ''.'' \<in> set q" using Some split_once_None [of "CHR ''.''" q] by force
  with pk cs [of "cols c s t"] show ?thesis
    by (simp add: load_table_def load_step_def splitn_2 Some st query_cols key catalog_schema_def Let_def key_iff)
qed

lemma load_tables_fold:
  "load_tables P D c qs count reg =
     (Ok (count + length (filter (\<lambda>q. CHR ''.'' \<in> set q) qs)),
      fold (load_step D (catalog_schema cols pks c)) qs reg, c)"
  by (induction qs arbitrary: count reg) (simp_all add: load_table_step)

lemma load_publication_fold:
  "load_publication_schemas P D c pub reg =
     (Ok (length (filter (\<lambda>q. CHR ''.'' \<in> set q) (pubs c pub))),
      fold (load_step D (catalog_schema cols pks c)) (pubs c pub) reg, c)"
proof -
  have "map_rows (\<lambda>r. get_str r 0) (map (\<lambda>n. [PgText n]) xs) = (Ok xs :: (_, string) rresult)" for xs
    by (induction xs) (auto simp: get_str_def)
  then show ?thesis
    by (simp add: load_publication_schemas_def publication_tables_def query_pubs load_tables_fold)
qed

end

lemma load_steps_get:
  assumes "dashmap D"
  shows "schema_get D (fold (load_step D sch) qs reg) q =
     (case split_once CHR ''.'' q of
        Some (s, t) \<Rightarrow> if q \<in> set qs then Some (sch s t) else schema_get D reg q
      | None \<Rightarrow> schema_get D reg q)"
proof (induction qs arbitrary: reg)
  case (Cons p qs)
  have "schema_get D (load_step D sch p reg) q =
      (case split_once CHR ''.'' q of
        Some (s, t) \<Rightarrow> if q = p then Some (sch s t) else schema_get D reg q
      | None \<Rightarrow> schema_get D reg q)"
    using assms by (auto simp: load_step_def schema_get_def upsert_def dashmap.get_insert split: option.split)
  with Cons.IH [of "load_step D sch p reg"] show ?case by (auto split: option.splits)
qed (auto split: option.split)

lemma validate_get: "validate_fingerprint D reg q fp \<longleftrightarrow> (\<exists>s. schema_get D reg q = Some s \<and> ts_fingerprint s = fp)"
  by (auto simp: validate_fingerprint_def schema_get_def split: option.split)

text \<open>A reference server: its catalogue, and the answers to the three queries.\<close>

record pg_server =
  sv_pubs :: "string \<Rightarrow> string list"
  sv_cols :: "string \<Rightarrow> string \<Rightarrow> (string \<times> string \<times> bool \<times> i32) list"
  sv_pks :: "string \<Rightarrow> string \<Rightarrow> string list option"

definition server_query :: "pg_server \<Rightarrow> string \<Rightarrow> string list \<Rightarrow> (pg_row list, string) rresult" where
  "server_query sv sql ps =
     (case ps of
        [pub] \<Rightarrow> if sql = sql_publication_tables then Ok (map (\<lambda>t. [PgText t]) (sv_pubs sv pub))
                else Err ''syntax error''
      | [s, t] \<Rightarrow>
          if sql = sql_schema_columns then
            Ok (map (\<lambda>(n, ty, nl, i). [PgText n, PgText ty, PgText (if nl then ''YES'' else ''NO''), PgInt4 i])
                  (sv_cols sv s t))
          else if sql = sql_primary_key then
            (case sv_pks sv s t of Some ks \<Rightarrow> Ok (map (\<lambda>n. [PgText n]) ks) | None \<Rightarrow> Err ''relation does not exist'')
          else Err ''syntax error''
      | _ \<Rightarrow> Err ''syntax error'')"

definition server_ops :: "pg_server pg_ops" where
  "server_ops = \<lparr>pg_connect = (\<lambda>_. Err ''unreachable''),
     pg_query = (\<lambda>sv sql ps. (server_query sv sql ps, sv)), pg_execute = (\<lambda>sv sql. (Ok 0, sv))\<rparr>"

interpretation ref_server: pg_catalog server_ops sv_pubs sv_cols sv_pks
proof -
  have "sql_primary_key \<noteq> sql_schema_columns"
    by (simp add: sql_primary_key_def sql_schema_columns_def)
  then show "pg_catalog server_ops sv_pubs sv_cols sv_pks"
    by unfold_locales (simp_all add: server_ops_def server_query_def)
qed

text \<open>
  C29. Loading a publication detects schema drift. From a server that answers the catalogue
  queries, loading registers every published table whose name has a dot, returns their number and
  leaves other entries alone; tables for which the key query fails, as it does for names that need
  quoting, are registered without a key. Afterwards the fingerprint of the catalogue is valid for
  such a table, and after the catalogue changed in one byte of the text of the table's columns,
  reloading makes the old fingerprint invalid.
\<close>
theorem load_detects_drift:
  assumes "pg_catalog P pubs cols pks" and "dashmap D"
    and "load_publication_schemas P D c pub reg = (res, reg1, c1)"
    and "load_publication_schemas P D c' pub reg1 = (res', reg2, c2)"
    and "s @ ''.'' @ t \<in> set (pubs c pub)" "s @ ''.'' @ t \<in> set (pubs c' pub)" "CHR ''.'' \<notin> set s"
    and "canonical s t (ts_columns (catalog_schema cols pks c s t)) = p @ a # q"
    and "canonical s t (ts_columns (catalog_schema cols pks c' s t)) = p @ b # q" "a \<noteq> b"
  shows "res = Ok (length (filter (\<lambda>x. CHR ''.'' \<in> set x) (pubs c pub)))
    \<and> schema_get D reg1 (s @ ''.'' @ t) = Some (catalog_schema cols pks c s t)
    \<and> (pks c s t = None \<longrightarrow> list_all (\<lambda>col. \<not> cs_is_primary_key col) (ts_columns (catalog_schema cols pks c s t)))
    \<and> (\<forall>x. x \<notin> set (pubs c pub) \<longrightarrow> schema_get D reg1 x = schema_get D reg x)
    \<and> validate_fingerprint D reg1 (s @ ''.'' @ t) (ts_fingerprint (catalog_schema cols pks c s t))
    \<and> \<not> validate_fingerprint D reg2 (s @ ''.'' @ t) (ts_fingerprint (catalog_schema cols pks c s t))"
proof -
  let ?q = "s @ ''.'' @ t"
  have r1: "res = Ok (length (filter (\<lambda>x. CHR ''.'' \<in> set x) (pubs c pub)))"
    "reg1 = fold (load_step D (catalog_schema cols pks c)) (pubs c pub) reg"
    using assms(3) by (auto simp: pg_catalog.load_publication_fold [OF assms(1)])
  have r2: "reg2 = fold (load_step D (catalog_schema cols pks c')) (pubs c' pub) reg1"
    using assms(4) by (auto simp: pg_catalog.load_publication_fold [OF assms(1)])
  have g: "schema_get D reg1 ?q = Some (catalog_schema cols pks c s t)"
    "schema_get D reg2 ?q = Some (catalog_schema cols pks c' s t)"
    using assms(5,6,7) by (simp_all add: r1 r2 load_steps_get [OF assms(2)])
  have "compute s t (ts_columns (catalog_schema cols pks c s t))
      \<noteq> compute s t (ts_columns (catalog_schema cols pks c' s t))"
    using byte_change_detected [OF assms(8,9,10)] .
  then have "ts_fingerprint (catalog_schema cols pks c s t) \<noteq> ts_fingerprint (catalog_schema cols pks c' s t)"
    by (simp add: catalog_schema_def Let_def)
  moreover have "pks c s t = None \<longrightarrow> list_all (\<lambda>col. \<not> cs_is_primary_key col) (ts_columns (catalog_schema cols pks c s t))"
    by (auto simp: catalog_schema_def Let_def list_all_iff)
  ultimately show ?thesis
    using g r1 by (auto simp: validate_get load_steps_get [OF assms(2)] split: option.split)
qed

text \<open>A server with a table that needs quoting: its columns are listed, its key query fails.\<close>

definition demo_server :: "string \<Rightarrow> pg_server" where
  "demo_server ty = \<lparr>sv_pubs = (\<lambda>_. [''public.users'', ''public.Orders'']), sv_cols = (\<lambda>_ _. [(''id'', ty, False, 1)]),
     sv_pks = (\<lambda>s t. if t = ''users'' then Some [''id''] else None)\<rparr>"

theorem load_detects_drift_witness:
  "\<exists>reg1 reg2 fp col.
     snd (load_publication_schemas server_ops alist_dashmap (demo_server ''int4'') ''pub'' (schemas_new alist_dashmap)) = reg1
   \<and> snd (load_publication_schemas server_ops alist_dashmap (demo_server ''int8'') ''pub'' (fst reg1)) = reg2
   \<and> validate_fingerprint alist_dashmap (fst reg1) ''public.Orders'' fp
   \<and> \<not> validate_fingerprint alist_dashmap (fst reg2) ''public.Orders'' fp
   \<and> map_option ts_columns (schema_get alist_dashmap (fst reg1) ''public.Orders'') = Some [col] \<and> \<not> cs_is_primary_key col"
proof -
  let ?load = "load_publication_schemas server_ops alist_dashmap"
  let ?sch = "catalog_schema sv_cols sv_pks (demo_server ''int4'') ''public'' ''Orders''"
  obtain res reg1 c1 where l1: "?load (demo_server ''int4'') ''pub'' (schemas_new alist_dashmap) = (res, reg1, c1)"
    by (rule prod_cases3)
  obtain res' reg2 c2 where l2: "?load (demo_server ''int8'') ''pub'' reg1 = (res', reg2, c2)"
    by (rule prod_cases3)
  have "schema_get alist_dashmap reg1 (''public'' @ ''.'' @ ''Orders'') = Some ?sch
    \<and> list_all (\<lambda>col. \<not> cs_is_primary_key col) (ts_columns ?sch)
    \<and> validate_fingerprint alist_dashmap reg1 (''public'' @ ''.'' @ ''Orders'') (ts_fingerprint ?sch)
    \<and> \<not> validate_fingerprint alist_dashmap reg2 (''public'' @ ''.'' @ ''Orders'') (ts_fingerprint ?sch)"
    using load_detects_drift [OF ref_server.pg_catalog_axioms alist_dm.dashmap_axioms l1 l2, of "''public''" "''Orders''"
        "''public.Orders|id:int''" "CHR ''4''" "[]" "CHR ''8''"]
    by (simp add: demo_server_def catalog_schema_def canonical_def Let_def)
  moreover obtain col where "ts_columns ?sch = [col]" by (simp add: demo_server_def catalog_schema_def Let_def)
  ultimately show ?thesis using l1 l2 by auto
qed

subsection \<open>Event triggers\<close>

text \<open>
  \<open>evtenabled\<close> has the type \<open>"char"\<close>, which does not convert to \<open>String\<close>: as soon as one trigger
  of the program exists, \<open>check_triggers\<close> panics.
\<close>

lemma check_triggers_panics:
  assumes "pg_query P c sql_check_triggers [] = (Ok (map (\<lambda>(n, e, en, f). [PgText n, PgText e, PgOther en, PgText f]) trs), c')"
    and "trs \<noteq> []"
  shows "check_triggers P c = (Panic, c')"
proof -
  obtain n e en f trs' where "trs = (n, e, en, f) # trs'" using assms(2) by (metis list.exhaust prod_cases4)
  then show ?thesis
    using assms(1) by (simp add: check_triggers_def trigger_status_def get_str_def numeral_2_eq_2)
qed

lemma trigger_kind_inverse [simp]: "trigger_kind (pg_event_name k) = k"
  by (cases k) (simp_all add: trigger_kind_def)

subsection \<open>Snapshots\<close>

text \<open>Every event of a snapshot is an insert at the snapshot's LSN with transaction id zero.\<close>

lemma snapshot_table_events:
  assumes "snapshot_table P c q lsn = (Ok es, c')"
  shows "list_all (\<lambda>e. ev_lsn e = lsn \<and> ev_xid e = 0 \<and> ev_op e = Insert) es"
  using assms
  by (auto simp: snapshot_table_def pg_bind_Ok_iff list_all_iff snapshot_event_def split: option.splits if_splits)

lemma snapshot_tables_events:
  assumes "snapshot_tables P c ts lsn acc = (Ok es, c')"
  shows "\<exists>new. es = acc @ new \<and> list_all (\<lambda>e. ev_lsn e = lsn \<and> ev_xid e = 0 \<and> ev_op e = Insert) new"
  using assms
proof (induction ts arbitrary: c acc)
  case (Cons t ts)
  then obtain evs c1 where "snapshot_table P c t lsn = (Ok evs, c1)"
    "snapshot_tables P c1 ts lsn (acc @ evs) = (Ok es, c')" by (auto simp: pg_bind_Ok_iff)
  with Cons.IH [of c1 "acc @ evs"] snapshot_table_events [of P c t lsn evs c1] show ?case by auto
qed simp

lemma snapshot_all_events:
  "snapshot_all P sb c lsn = (Ok es, c') \<Longrightarrow>
     list_all (\<lambda>e. ev_lsn e = lsn \<and> ev_xid e = 0 \<and> ev_op e = Insert) es"
  using snapshot_tables_events [of P c "sb_tables sb" lsn "[]" es c'] by (simp add: snapshot_all_def)

text \<open>A column whose type does not convert to \<open>String\<close> is recorded as null.\<close>

lemma snapshot_row_values:
  "map cv_value (columns (snapshot_row cols r)) = map (try_get_str r) [0..<length cols]"
  "map cv_name (columns (snapshot_row cols r)) = map fst cols"
  by (auto intro!: nth_equalityI simp: snapshot_row_def nth_enumerate_eq split_beta)

end
