(* ===== verification/Sql_Functions.thy ===== *)
theory Sql_Functions
  imports Schema
begin

text \<open>
  The PL/pgSQL side of schema tracking, \<open>src/sql/pgsql\<close>: the functions that turn DDL into logical
  messages (\<open>function/capture.sql\<close>, \<open>trigger/drop.sql\<close>, \<open>function/emit.sql\<close>) and the fingerprint in
  the database (\<open>function/fingerprint.sql\<close>). A message is the triple passed to
  \<open>pg_logical_emit_message\<close>. That function is strict, so a NULL content emits nothing. The records
  of \<open>pg_event_trigger_ddl_commands()\<close> and \<open>pg_event_trigger_dropped_objects()\<close> are arguments.
\<close>

subsection \<open>Capturing DDL\<close>

record ddl_command =
  object_type :: string
  cmd_schema_name :: "string option"
  object_identity :: string

record dropped_object =
  dropped_type :: string
  dropped_schema_name :: "string option"
  object_name :: string

type_synonym logical_message = "bool \<times> string \<times> string"

definition nendi_emit :: "string \<Rightarrow> string \<Rightarrow> bool \<Rightarrow> logical_message list" where
  "nendi_emit prefix content transactional = [(transactional, prefix, content)]"

definition capture_command :: "string \<Rightarrow> string \<Rightarrow> ddl_command \<Rightarrow> logical_message list" where
  "capture_command ddl_type stmt obj =
     (if object_type obj \<in> {''table'', ''table column''} then
        (case cmd_schema_name obj of
           Some s \<Rightarrow> [(True, ''nendi_ddl'', ddl_type @ ''|'' @ (s @ ''.'' @ object_identity obj) @ ''|'' @ stmt)]
         | None \<Rightarrow> [])
      else [])"

definition nendi_capture_ddl :: "string \<Rightarrow> string \<Rightarrow> ddl_command list \<Rightarrow> logical_message list" where
  "nendi_capture_ddl tg_tag current_query cmds = concat (map (capture_command tg_tag current_query) cmds)"

definition capture_dropped :: "dropped_object \<Rightarrow> logical_message list" where
  "capture_dropped obj =
     (if dropped_type obj = ''table'' then
        (case dropped_schema_name obj of
           Some s \<Rightarrow> [(True, ''nendi_ddl'', ''DROP_TABLE|'' @ s @ ''.'' @ object_name obj @ ''|DROP TABLE'')]
         | None \<Rightarrow> [])
      else [])"

definition nendi_capture_drop :: "dropped_object list \<Rightarrow> logical_message list" where
  "nendi_capture_drop objs = concat (map capture_dropped objs)"

subsection \<open>The fingerprint in the database\<close>

text \<open>
  Text is a list of code points. A product that does not fit a \<open>BIGINT\<close> raises an error; the
  cast of the 64-bit literal to \<open>BIGINT\<close> keeps its bits.
\<close>

definition bigint_mul :: "i64 \<Rightarrow> i64 \<Rightarrow> (i64, string) rresult" where
  "bigint_mul a b =
     (if - (2 ^ 63) \<le> sint a * sint b \<and> sint a * sint b < 2 ^ 63 then Ok (a * b) else Err ''bigint out of range'')"

fun hash_text :: "i64 \<Rightarrow> nat list \<Rightarrow> (i64, string) rresult" where
  "hash_text h [] = Ok h"
| "hash_text h (c # cs) = and_then (bigint_mul (xor h (of_nat c)) 0x100000001b3) (\<lambda>h. hash_text h cs)"

fun hash_columns :: "i64 \<Rightarrow> (nat list \<times> nat list \<times> nat list) list \<Rightarrow> (i64, string) rresult" where
  "hash_columns h [] = Ok h"
| "hash_columns h ((name, udt, nullable) # cols) =
     and_then (hash_text h (name @ [58] @ udt @ [58] @ nullable)) (\<lambda>h. hash_columns h cols)"

definition nendi_schema_fingerprint :: "(nat list \<times> nat list \<times> nat list) list \<Rightarrow> (i64, string) rresult" where
  "nendi_schema_fingerprint cols = hash_columns 0xcbf29ce484222325 cols"

subsection \<open>Properties\<close>

text \<open>Handling a list of logical messages that arrived at one LSN.\<close>

definition handle_messages :: "(string \<Rightarrow> string) \<Rightarrow> u64 \<Rightarrow> logical_message list \<Rightarrow> DdlHandler \<Rightarrow> DdlHandler" where
  "handle_messages up lsn ms h = fold (\<lambda>(_, _, content) h. snd (handle_ddl_message up h lsn content)) ms h"

lemma splitn_3: "CHR ''|'' \<notin> set a \<Longrightarrow> CHR ''|'' \<notin> set b \<Longrightarrow> splitn 3 CHR ''|'' (a @ ''|'' @ b @ ''|'' @ c) = [a, b, c]"
  by (simp add: numeral_3_eq_3)

lemma handle_unmonitored:
  assumes "CHR ''|'' \<notin> set a" "CHR ''|'' \<notin> set b" "b \<notin> set (monitored_tables h)"
  shows "snd (handle_ddl_message up h lsn (a @ ''|'' @ b @ ''|'' @ c)) = h"
  using assms
  by (auto simp: handle_ddl_message_def parse_ddl_message_def splitn_3 [unfolded append_Cons append_Nil] is_monitored_def list_ex_iff
      and_then_Ok_iff split: rresult.splits)

lemma count_dots: "count_list (s @ ''.'' @ s @ ''.'' @ t) CHR ''.'' \<noteq> 1"
  by (simp add: count_list_append)

text \<open>
  Captured drops reach the buffer: when the handler monitors a dropped table by its
  qualified name, every table the drop trigger reports becomes a pending \<open>DropTable\<close> change of
  that table at the message's LSN, in the order of the report.
\<close>
theorem captured_drops_buffered:
  assumes "list_all (\<lambda>obj. dropped_type obj = ''table'' \<longrightarrow>
      (\<exists>s. dropped_schema_name obj = Some s \<and> s @ ''.'' @ object_name obj \<in> set (monitored_tables h)
         \<and> CHR ''|'' \<notin> set (s @ object_name obj))) objs"
  shows "handle_messages up lsn (nendi_capture_drop objs) h =
    h\<lparr>dh_buffer := \<lparr>pending = pending (dh_buffer h) @
       map (\<lambda>obj. \<lparr>dc_lsn = lsn, dc_table = the (dropped_schema_name obj) @ ''.'' @ object_name obj,
                   dc_kind = DropTable, dc_statement = ''DROP TABLE''\<rparr>)
         (filter (\<lambda>obj. dropped_type obj = ''table'') objs)\<rparr>\<rparr>"
  using assms
proof (induction objs arbitrary: h)
  case (Cons obj objs)
  show ?case
  proof (cases "dropped_type obj = ''table''")
    case True
    with Cons.prems obtain s where s: "dropped_schema_name obj = Some s"
      "s @ ''.'' @ object_name obj \<in> set (monitored_tables h)" "CHR ''|'' \<notin> set (s @ object_name obj)"
      by auto
    let ?c = "\<lparr>dc_lsn = lsn, dc_table = s @ ''.'' @ object_name obj, dc_kind = DropTable, dc_statement = ''DROP TABLE''\<rparr>"
    have "handle_ddl_message up h lsn (''DROP_TABLE|'' @ s @ ''.'' @ object_name obj @ ''|DROP TABLE'')
        = (Ok (), h\<lparr>dh_buffer := ddl_push (dh_buffer h) ?c\<rparr>)"
      using s splitn_3 [of "''DROP_TABLE''" "s @ ''.'' @ object_name obj" "''DROP TABLE''"]
      by (simp add: handle_ddl_message_def parse_ddl_message_def ddl_kind_def is_monitored_def list_ex_iff)
    then show ?thesis
      using Cons.IH [of "h\<lparr>dh_buffer := ddl_push (dh_buffer h) ?c\<rparr>"] Cons.prems True s
      by (simp add: nendi_capture_drop_def handle_messages_def capture_dropped_def ddl_push_def)
  next
    case False
    then show ?thesis
      using Cons by (simp add: nendi_capture_drop_def handle_messages_def capture_dropped_def)
  qed
qed (simp add: nendi_capture_drop_def handle_messages_def)


theorem captured_drops_buffered_witness:
  "pending (dh_buffer (handle_messages ascii_upper 7
      (nendi_capture_drop [\<lparr>dropped_type = ''index'', dropped_schema_name = Some ''public'', object_name = ''i''\<rparr>,
                           \<lparr>dropped_type = ''table'', dropped_schema_name = Some ''public'', object_name = ''orders''\<rparr>])
      (handler_new [''public.orders''])))
   = [\<lparr>dc_lsn = 7, dc_table = ''public.orders'', dc_kind = DropTable, dc_statement = ''DROP TABLE''\<rparr>]"
  by (subst captured_drops_buffered) (simp_all add: handler_new_def ddl_new_def)

text \<open>
  C39. Captured DDL commands do not reach the buffer. PostgreSQL reports the identity of a table
  with its schema, and the capture function puts the schema in front once more. So the handler,
  which compares with the names \<open>schema.table\<close> of the publication, ignores every message the
  function emits, whatever the command.
\<close>
theorem captured_ddl_ignored:
  assumes "list_all (\<lambda>obj. \<exists>s t. cmd_schema_name obj = Some s \<and> object_identity obj = s @ ''.'' @ t
      \<and> CHR ''|'' \<notin> set (s @ t)) cmds"
    and "list_all (\<lambda>m. count_list m CHR ''.'' = 1) (monitored_tables h)"
    and "CHR ''|'' \<notin> set tg_tag"
  shows "handle_messages up lsn (nendi_capture_ddl tg_tag stmt cmds) h = h"
  using assms(1)
proof (induction cmds)
  case (Cons obj cmds)
  then obtain s t where st: "cmd_schema_name obj = Some s" "object_identity obj = s @ ''.'' @ t"
    "CHR ''|'' \<notin> set (s @ ''.'' @ s @ ''.'' @ t)" by auto
  have "s @ ''.'' @ s @ ''.'' @ t \<notin> set (monitored_tables h)"
    using assms(2) count_dots [of s t] by (auto simp: list_all_iff)
  from handle_unmonitored [OF assms(3) st(3) this, of up lsn stmt]
  have "handle_messages up lsn (capture_command tg_tag stmt obj) h = h"
    by (simp add: handle_messages_def capture_command_def st(1,2))
  with Cons show ?case by (simp add: nendi_capture_ddl_def handle_messages_def)
qed (simp add: nendi_capture_ddl_def handle_messages_def)

theorem captured_ddl_ignored_witness:
  "nendi_capture_ddl ''ALTER TABLE'' ''ALTER TABLE orders ADD COLUMN x int''
     [\<lparr>object_type = ''table'', cmd_schema_name = Some ''public'', object_identity = ''public.orders''\<rparr>]
     = [(True, ''nendi_ddl'', ''ALTER TABLE|public.public.orders|ALTER TABLE orders ADD COLUMN x int'')]
   \<and> pending (dh_buffer (handle_messages ascii_upper 7
       (nendi_capture_ddl ''ALTER TABLE'' ''ALTER TABLE orders ADD COLUMN x int''
          [\<lparr>object_type = ''table'', cmd_schema_name = Some ''public'', object_identity = ''public.orders''\<rparr>])
       (handler_new [''public.orders'']))) = []"
proof
  show "pending (dh_buffer (handle_messages ascii_upper 7
       (nendi_capture_ddl ''ALTER TABLE'' ''ALTER TABLE orders ADD COLUMN x int''
          [\<lparr>object_type = ''table'', cmd_schema_name = Some ''public'', object_identity = ''public.orders''\<rparr>])
       (handler_new [''public.orders'']))) = []"
    by (subst captured_ddl_ignored)
      (auto simp: handler_new_def ddl_new_def intro!: exI [of _ "''public''"] exI [of _ "''orders''"])
qed (simp add: nendi_capture_ddl_def capture_command_def)

subsection \<open>The fingerprint overflows\<close>

lemma sint_high:
  fixes w :: i64
  assumes "2 ^ 63 \<le> unat w"
  shows "sint w = int (unat w) - 2 ^ 64"
proof -
  define n where "n = unat w"
  have u: "uint w = int n" by (simp add: n_def)
  have n: "n < 2 ^ 64" "2 ^ 63 \<le> n" using unat_less [of w] assms by (simp_all add: n_def)
  then have "n div 2 ^ 63 = 1" by (intro div_nat_eqI) simp_all
  then have "bit n 63" by (simp add: bit_iff_odd)
  then have "bit (int n) 63" by (simp add: bit_of_nat_iff_bit)
  then show ?thesis
    using n by (simp only: sint_uint u signed_take_bit_eq_take_bit_minus n_def [symmetric]) (simp add: take_bit_eq_mod)
qed

lemma basis_xor:
  fixes c :: nat
  assumes "c < 2 ^ 21"
  shows "sint (xor 0xcbf29ce484222325 (of_nat c :: i64)) < - (2 ^ 61)"
proof -
  let ?x = "xor 0xcbf29ce484222325 (of_nat c) :: i64"
  have c: "unat (of_nat c :: i64) = c" using assms by (simp add: unat_of_nat)
  have "unat (drop_bit 21 (of_nat c :: i64)) = 0"
    using assms by (simp only: unat_drop_bit_eq c) (simp add: drop_bit_eq_div)
  then have "drop_bit 21 (of_nat c :: i64) = 0" by (simp only: unat_eq_0)
  then have "drop_bit 21 ?x = drop_bit 21 (0xcbf29ce484222325 :: i64)"
    by (simp only: drop_bit_xor xor.right_neutral)
  then have "unat (drop_bit 21 ?x) = unat (drop_bit 21 (0xcbf29ce484222325 :: i64))" by (simp only:)
  then have "unat ?x div 2 ^ 21 = unat (0xcbf29ce484222325 :: i64) div 2 ^ 21"
    unfolding unat_drop_bit_eq unfolding drop_bit_eq_div .
  then have q: "unat ?x div 2097152 = 7007589835809" by simp
  have "unat ?x = 2097152 * (unat ?x div 2097152) + unat ?x mod 2097152" by simp
  also have "\<dots> < 2097152 * 7007589835809 + 2097152" unfolding q by simp
  finally have hi: "unat ?x < 14695981039348613120" by simp
  have "2097152 * (unat ?x div 2097152) \<le> unat ?x" by simp
  then have lo: "14695981039346515968 \<le> unat ?x" unfolding q by simp
  define n where "n = unat ?x"
  have "sint ?x = int n - 2 ^ 64" unfolding n_def by (rule sint_high) (use lo in simp)
  moreover have "n < 14695981039348613120" using hi unfolding n_def .
  ultimately show ?thesis by simp
qed

lemma first_step_overflows:
  assumes "c < 2 ^ 21"
  shows "hash_text 0xcbf29ce484222325 (c # cs) = Err ''bigint out of range''"
proof -
  let ?x = "xor 0xcbf29ce484222325 (of_nat c) :: i64"
  have p: "sint (0x100000001b3 :: i64) = 0x100000001b3" by (simp add: sint_uint)
  have "sint ?x * 0x100000001b3 < - (2 ^ 61) * 0x100000001b3"
    using basis_xor [OF assms] by (intro mult_strict_right_mono) simp_all
  then have "\<not> - (2 ^ 63) \<le> sint ?x * sint (0x100000001b3 :: i64)" unfolding p by simp
  then show ?thesis by (simp add: bigint_mul_def del: of_nat_numeral)
qed

text \<open>
  \<open>nendi_schema_fingerprint\<close> fails on every table that has a column: FNV-1a needs products
  modulo \<open>2 ^ 64\<close>, but the first multiplication already leaves the range of \<open>BIGINT\<close>, whatever
  the column is called. Only a table without columns has a fingerprint, the offset basis.
\<close>
theorem sql_fingerprint_overflows:
  assumes "list_all (\<lambda>(name, udt, nullable). list_all (\<lambda>c. c < 0x110000) name) cols"
  shows "nendi_schema_fingerprint cols =
    (if cols = [] then Ok 0xcbf29ce484222325 else Err ''bigint out of range'')"
proof (cases cols)
  case (Cons col cols')
  obtain name udt nullable where col: "col = (name, udt, nullable)" by (cases col) auto
  obtain c cs where c: "name @ [58] @ udt @ [58] @ nullable = c # cs" "c < 2 ^ 21"
    using assms by (cases name) (auto simp: Cons col)
  show ?thesis
    by (simp only: nendi_schema_fingerprint_def Cons col hash_columns.simps c(1) first_step_overflows [OF c(2)]) simp
qed (simp add: nendi_schema_fingerprint_def)

theorem sql_fingerprint_overflows_witness:
  "nendi_schema_fingerprint [([105, 100], [105, 110, 116, 52], [78, 79])] = Err ''bigint out of range''"
  using sql_fingerprint_overflows [of "[([105, 100], [105, 110, 116, 52], [78, 79])]"] by simp

end
