(* ===== verification/Replication.thy ===== *)
theory Replication
  imports Pg_Protocol F64
begin

text \<open>
  The replication side, \<open>src/services/pgsql/src/replication\<close>: acknowledging LSNs to the server
  (\<open>ack.rs\<close>), feeding the decoder (\<open>stream.rs\<close>) and the token bucket that limits the rate of
  messages (\<open>throttle.rs\<close>). An \<open>Instant\<close> is a number of nanoseconds on a clock that the operations
  read as an argument \<open>now\<close>; a \<open>Duration\<close> is a number of nanoseconds.
\<close>

subsection \<open>Acknowledgements\<close>

record AckManager =
  confirmed_flush_lsn :: lsn
  received_lsn :: lsn
  min_interval :: nanos
  max_interval :: nanos
  last_ack_time :: nanos
  dirty :: bool

definition ack_new :: "nanos \<Rightarrow> nanos \<Rightarrow> nanos \<Rightarrow> AckManager" where
  "ack_new now mn mx =
     \<lparr>confirmed_flush_lsn = lsn_zero, received_lsn = lsn_zero, min_interval = mn, max_interval = mx,
      last_ack_time = now, dirty = False\<rparr>"

definition advance_received :: "lsn \<Rightarrow> AckManager \<Rightarrow> AckManager" where
  "advance_received l a = (if is_ahead_of l (received_lsn a) then a\<lparr>received_lsn := l, dirty := True\<rparr> else a)"

definition advance_confirmed :: "lsn \<Rightarrow> AckManager \<Rightarrow> AckManager" where
  "advance_confirmed l a =
     (if is_ahead_of l (confirmed_flush_lsn a) then a\<lparr>confirmed_flush_lsn := l, dirty := True\<rparr> else a)"

definition should_ack :: "nanos \<Rightarrow> AckManager \<Rightarrow> bool" where
  "should_ack now a =
     (let elapsed = now - last_ack_time a
      in if elapsed \<ge> max_interval a then True
         else if dirty a \<and> elapsed \<ge> min_interval a then True
         else False)"

definition build_status_update :: "nanos \<Rightarrow> AckManager \<Rightarrow> (lsn \<times> lsn \<times> lsn) \<times> AckManager" where
  "build_status_update now a =
     ((received_lsn a, confirmed_flush_lsn a, confirmed_flush_lsn a),
      a\<lparr>last_ack_time := now, dirty := False\<rparr>)"

subsection \<open>The stream\<close>

record 'm ReplicationStream =
  rs_decoder :: "'m PgOutputDecoder"
  last_processed_lsn :: lsn
  start_lsn :: lsn
  rs_active :: bool

definition stream_new :: "'m relation_dm \<Rightarrow> lsn \<Rightarrow> 'm ReplicationStream" where
  "stream_new D start =
     \<lparr>rs_decoder = decoder_new D, last_processed_lsn = start, start_lsn = start, rs_active = False\<rparr>"

definition stream_start :: "'m ReplicationStream \<Rightarrow> 'm ReplicationStream" where
  "stream_start s = s\<lparr>rs_active := True\<rparr>"

definition stream_stop :: "'m ReplicationStream \<Rightarrow> 'm ReplicationStream" where
  "stream_stop s = s\<lparr>rs_active := False\<rparr>"

definition process_message ::
    "'m relation_dm \<Rightarrow> 'm ReplicationStream \<Rightarrow> u64 \<Rightarrow> bytes
     \<Rightarrow> (ChangeEvent option, string) rresult \<times> 'm ReplicationStream" where
  "process_message D s lsn data =
     (let (r, d) = decode D (rs_decoder s) lsn data; s = s\<lparr>rs_decoder := d\<rparr>
      in case r of
           Ok event \<Rightarrow> (Ok event, s\<lparr>last_processed_lsn := Lsn lsn\<rparr>)
         | Err e \<Rightarrow> (Err e, s)
         | Panic \<Rightarrow> (Panic, s))"

subsection \<open>The throttle\<close>

definition f64_max_value :: f64 where
  "f64_max_value = Fin ((2 ^ 53 - 1) * 2 ^ 971)"

record ReplicationThrottle =
  burst :: u64
  rate :: f64
  tokens :: f64
  last_refill :: nanos

definition throttle_new :: "nanos \<Rightarrow> f64 \<Rightarrow> u64 \<Rightarrow> ReplicationThrottle" where
  "throttle_new now msgs_per_sec b =
     \<lparr>burst = b, rate = msgs_per_sec, tokens = f64_of_u64 b, last_refill = now\<rparr>"

definition throttle_unlimited :: "nanos \<Rightarrow> ReplicationThrottle" where
  "throttle_unlimited now =
     \<lparr>burst = - 1, rate = f64_max_value, tokens = f64_max_value, last_refill = now\<rparr>"

definition refill :: "nanos \<Rightarrow> ReplicationThrottle \<Rightarrow> ReplicationThrottle" where
  "refill now t =
     (let elapsed = now - last_refill t;
          new_tokens = f64_mul (as_secs_f64 elapsed) (rate t)
      in t\<lparr>tokens := f64_min (f64_add (tokens t) new_tokens) (f64_of_u64 (burst t)), last_refill := now\<rparr>)"

definition try_acquire :: "nanos \<Rightarrow> ReplicationThrottle \<Rightarrow> bool \<times> ReplicationThrottle" where
  "try_acquire now t =
     (let t = refill now t
      in if f64_le (Fin 1) (tokens t) then (True, t\<lparr>tokens := f64_sub (tokens t) (Fin 1)\<rparr>)
         else (False, t))"

definition backoff_duration :: "ReplicationThrottle \<Rightarrow> (nanos, 'e) rresult" where
  "backoff_duration t =
     (if f64_le (Fin 1) (tokens t) then Ok 0
      else let deficit = f64_sub (Fin 1) (tokens t) in from_secs_f64 (f64_div deficit (rate t)))"

subsection \<open>Histories of acknowledgements\<close>

datatype ack_op = Received lsn | Confirmed lsn | SendStatus nanos

fun ack_step :: "ack_op \<Rightarrow> (lsn \<times> lsn \<times> lsn) list \<times> AckManager \<Rightarrow> (lsn \<times> lsn \<times> lsn) list \<times> AckManager" where
  "ack_step (Received l) (out, a) = (out, advance_received l a)"
| "ack_step (Confirmed l) (out, a) = (out, advance_confirmed l a)"
| "ack_step (SendStatus now) (out, a) =
     (let (st, a) = build_status_update now a in (out @ [st], a))"

definition received_in :: "ack_op list \<Rightarrow> lsn set" where
  "received_in ops = insert lsn_zero {l. Received l \<in> set ops}"

definition confirmed_in :: "ack_op list \<Rightarrow> lsn set" where
  "confirmed_in ops = insert lsn_zero {l. Confirmed l \<in> set ops}"

lemma finite_received [simp]: "finite (received_in ops)"
proof -
  have "{l. Received l \<in> set ops} = (\<lambda>op. case op of Received l \<Rightarrow> l | _ \<Rightarrow> lsn_zero) ` {op \<in> set ops. \<exists>l. op = Received l}"
    by force
  then show ?thesis by (simp add: received_in_def)
qed

lemma finite_confirmed [simp]: "finite (confirmed_in ops)"
proof -
  have "{l. Confirmed l \<in> set ops} = (\<lambda>op. case op of Confirmed l \<Rightarrow> l | _ \<Rightarrow> lsn_zero) ` {op \<in> set ops. \<exists>l. op = Confirmed l}"
    by force
  then show ?thesis by (simp add: confirmed_in_def)
qed

lemma in_snoc:
  "received_in (ops @ [op]) = (case op of Received l \<Rightarrow> insert l (received_in ops) | _ \<Rightarrow> received_in ops)"
  "confirmed_in (ops @ [op]) = (case op of Confirmed l \<Rightarrow> insert l (confirmed_in ops) | _ \<Rightarrow> confirmed_in ops)"
  by (auto simp: received_in_def confirmed_in_def split: ack_op.splits)

lemma in_nonempty [simp]: "received_in ops \<noteq> {}" "confirmed_in ops \<noteq> {}"
  by (simp_all add: received_in_def confirmed_in_def)

definition high :: "lsn set \<Rightarrow> lsn" where
  "high A = Max A"

lemma high_insert: "finite A \<Longrightarrow> A \<noteq> {} \<Longrightarrow> high (insert x A) = (if high A < x then x else high A)"
proof -
  assume "finite A" "A \<noteq> {}"
  then have "high (insert x A) = max x (high A)" unfolding high_def by (rule Max_insert)
  then show ?thesis by (auto simp: max_def)
qed

lemma high_in: "finite A \<Longrightarrow> A \<noteq> {} \<Longrightarrow> high A \<in> A"
  unfolding high_def by (rule Max_in)

lemma high_ge: "finite A \<Longrightarrow> x \<in> A \<Longrightarrow> x \<le> high A"
  by (simp add: high_def)

lemma high_zero [simp]: "high {lsn_zero} = lsn_zero"
  by (simp add: high_def)

text \<open>What the manager knows, and what it last told the server.\<close>

definition ack_inv :: "ack_op list \<Rightarrow> (lsn \<times> lsn \<times> lsn) list \<Rightarrow> AckManager \<Rightarrow> bool" where
  "ack_inv ops out a \<longleftrightarrow>
     received_lsn a = high (received_in ops) \<and> confirmed_flush_lsn a = high (confirmed_in ops)
     \<and> sorted (map fst out) \<and> sorted (map (fst \<circ> snd) out)
     \<and> (\<forall>x \<in> set out. fst x \<in> received_in ops \<and> fst (snd x) \<in> confirmed_in ops \<and> snd (snd x) = fst (snd x))
     \<and> (dirty a \<longleftrightarrow> (received_lsn a, confirmed_flush_lsn a, confirmed_flush_lsn a)
                       \<noteq> last ((lsn_zero, lsn_zero, lsn_zero) # out))"

lemma ack_inv_new: "ack_inv [] [] (ack_new now mn mx)"
  by (simp add: ack_inv_def ack_new_def received_in_def confirmed_in_def)

lemma ack_inv_last:
  assumes "ack_inv ops out a"
  shows "fst (last ((lsn_zero, lsn_zero, lsn_zero) # out)) \<le> received_lsn a"
    "fst (snd (last ((lsn_zero, lsn_zero, lsn_zero) # out))) \<le> confirmed_flush_lsn a"
proof -
  have "out \<noteq> [] \<Longrightarrow> last out \<in> set out" by simp
  then show "fst (last ((lsn_zero, lsn_zero, lsn_zero) # out)) \<le> received_lsn a"
    "fst (snd (last ((lsn_zero, lsn_zero, lsn_zero) # out))) \<le> confirmed_flush_lsn a"
    using assms by (auto simp: ack_inv_def split_beta high_ge)
qed

lemma ack_inv_step:
  assumes inv: "ack_inv ops out a" and step: "ack_step op (out, a) = (out', a')"
  shows "ack_inv (ops @ [op]) out' a'"
proof (cases op)
  case (Received l)
  have "(l, x, y) \<noteq> last ((lsn_zero, lsn_zero, lsn_zero) # out)" if "received_lsn a < l" for x y
    using ack_inv_last(1) [OF inv] that by (metis fst_conv not_less)
  moreover have "out' = out" "a' = advance_received l a" using step Received by simp_all
  ultimately show ?thesis
    using inv Received
    by (auto simp: ack_inv_def in_snoc advance_received_def is_ahead_of_less high_insert simp del: last.simps)
next
  case (Confirmed l)
  have "(x, l, y) \<noteq> last ((lsn_zero, lsn_zero, lsn_zero) # out)" if "confirmed_flush_lsn a < l" for x y
    using ack_inv_last(2) [OF inv] that by (metis fst_conv snd_conv not_less)
  moreover have "out' = out" "a' = advance_confirmed l a" using step Confirmed by simp_all
  ultimately show ?thesis
    using inv Confirmed
    by (auto simp: ack_inv_def in_snoc advance_confirmed_def is_ahead_of_less high_insert simp del: last.simps)
next
  case (SendStatus now)
  have o: "out' = out @ [(received_lsn a, confirmed_flush_lsn a, confirmed_flush_lsn a)]"
    "a' = a\<lparr>last_ack_time := now, dirty := False\<rparr>"
    using step SendStatus by (simp_all add: build_status_update_def)
  from inv have "received_lsn a = high (received_in ops)" "confirmed_flush_lsn a = high (confirmed_in ops)"
    "sorted (map fst out)" "sorted (map (fst \<circ> snd) out)"
    and m: "x \<in> set out \<Longrightarrow> fst x \<in> received_in ops \<and> fst (snd x) \<in> confirmed_in ops \<and> snd (snd x) = fst (snd x)" for x
    by (simp_all add: ack_inv_def)
  moreover have "x \<in> set out \<Longrightarrow> fst x \<le> high (received_in ops) \<and> fst (snd x) \<le> high (confirmed_in ops)" for x
    using m by (simp add: high_ge)
  ultimately show ?thesis
    unfolding o SendStatus by (simp add: ack_inv_def in_snoc sorted_append high_in)
qed

lemma ack_history:
  "fold ack_step ops ([], ack_new now mn mx) = (out, a) \<Longrightarrow>
     ack_inv ops out a \<and> min_interval a = mn \<and> max_interval a = mx"
proof (induction ops arbitrary: out a rule: rev_induct)
  case (snoc op ops)
  obtain out1 a1 where r: "fold ack_step ops ([], ack_new now mn mx) = (out1, a1)" by fastforce
  then have st: "ack_step op (out1, a1) = (out, a)" using snoc.prems by simp
  have "min_interval a = min_interval a1 \<and> max_interval a = max_interval a1"
    using st by (cases op) (auto simp: advance_received_def advance_confirmed_def build_status_update_def)
  with snoc.IH [OF r] ack_inv_step [OF _ st] show ?case by simp
qed (use ack_inv_new in \<open>auto simp: ack_new_def\<close>)

text \<open>
  C19. What the server is told to discard is durable. After any sequence of received LSNs, LSNs
  confirmed durable and status updates, the next status update reports as flushed and applied the
  highest LSN confirmed so far and as written the highest received; the reports sent form
  non-decreasing sequences, and each flushed position in them was confirmed before. An update is
  due exactly when the heartbeat interval is over, or something not yet reported happened and the
  minimal interval is over.
\<close>
theorem ack_reports_durable:
  assumes "fold ack_step ops ([], ack_new t0 mn mx) = (out, a)"
  shows "fst (build_status_update now a) = (Max (received_in ops), Max (confirmed_in ops), Max (confirmed_in ops))
    \<and> sorted (map fst out) \<and> sorted (map (fst \<circ> snd) out)
    \<and> (\<forall>(w, f, ap) \<in> set out. w \<in> received_in ops \<and> f \<in> confirmed_in ops \<and> ap = f)
    \<and> (should_ack now a \<longleftrightarrow>
         mx \<le> now - last_ack_time a
         \<or> fst (build_status_update now a) \<noteq> last ((lsn_zero, lsn_zero, lsn_zero) # out)
           \<and> mn \<le> now - last_ack_time a)"
  using ack_history [OF assms]
  by (auto simp: ack_inv_def high_def split_beta build_status_update_def should_ack_def Let_def simp del: last.simps)

theorem ack_reports_durable_witness:
  "let (out, a) = fold ack_step [Received (Lsn 9), Confirmed (Lsn 5), SendStatus 3, Confirmed (Lsn 4), Received (Lsn 12)]
       ([], ack_new 0 10 100)
   in out = [(Lsn 9, Lsn 5, Lsn 5)] \<and> fst (build_status_update 20 a) = (Lsn 12, Lsn 5, Lsn 5) \<and> should_ack 20 a"
proof -
  let ?ops = "[Received (Lsn 9), Confirmed (Lsn 5), SendStatus 3, Confirmed (Lsn 4), Received (Lsn 12)]"
  obtain out a where r: "fold ack_step ?ops ([], ack_new 0 10 100) = (out, a)" by fastforce
  have v: "out = [(Lsn 9, Lsn 5, Lsn 5)]" "last_ack_time a = 3"
    using r by (auto simp: ack_new_def advance_received_def advance_confirmed_def build_status_update_def
        is_ahead_of_def lsn_zero_def)
  have sets: "received_in ?ops = {lsn_zero, Lsn 9, Lsn 12}" "confirmed_in ?ops = {lsn_zero, Lsn 5, Lsn 4}"
    by (auto simp: received_in_def confirmed_in_def)
  have "Max (received_in ?ops) = Lsn 12" "Max (confirmed_in ?ops) = Lsn 5"
    unfolding sets by (simp_all add: lsn_zero_def max_def)
  with ack_reports_durable [OF r, of 20] v
  have "out = [(Lsn 9, Lsn 5, Lsn 5)] \<and> fst (build_status_update 20 a) = (Lsn 12, Lsn 5, Lsn 5) \<and> should_ack 20 a"
    by simp
  then show ?thesis unfolding r by simp
qed

subsection \<open>Runs of the stream\<close>

fun stream_run ::
    "'m relation_dm \<Rightarrow> 'm ReplicationStream \<Rightarrow> (u64 \<times> bytes) list
     \<Rightarrow> (ChangeEvent option, string) rresult list \<times> 'm ReplicationStream" where
  "stream_run D s [] = ([], s)"
| "stream_run D s ((lsn, data) # msgs) =
     (let (r, s) = process_message D s lsn data; (rs, s) = stream_run D s msgs in (r # rs, s))"

text \<open>The position after some results: the LSN of the last message that decoded.\<close>

fun position :: "lsn \<Rightarrow> (u64 \<times> 'x) list \<Rightarrow> ('a, 'e) rresult list \<Rightarrow> lsn" where
  "position l ((lsn, _) # msgs) (r # rs) = position (case r of Ok _ \<Rightarrow> Lsn lsn | _ \<Rightarrow> l) msgs rs"
| "position l _ _ = l"

lemma stream_run_decode:
  "stream_run D s msgs = (rs, s') \<Longrightarrow>
     rs = decode_stream D (rs_decoder s) msgs
     \<and> last_processed_lsn s' = position (last_processed_lsn s) msgs rs"
proof (induction D s msgs arbitrary: rs s' rule: stream_run.induct)
  case (2 D s lsn data msgs)
  obtain r d where d: "decode D (rs_decoder s) lsn data = (r, d)" by fastforce
  obtain s1 where p: "process_message D s lsn data = (r, s1)" "rs_decoder s1 = d"
    "last_processed_lsn s1 = (case r of Ok _ \<Rightarrow> Lsn lsn | _ \<Rightarrow> last_processed_lsn s)"
    by (cases r) (auto simp: process_message_def d)
  obtain rs1 s2 where q: "stream_run D s1 msgs = (rs1, s2)" by fastforce
  have "rs1 = decode_stream D (rs_decoder s1) msgs \<and> last_processed_lsn s2 = position (last_processed_lsn s1) msgs rs1"
    using "2.IH" [OF p(1) [symmetric] refl] q by simp
  then show ?case using "2.prems" p q d by auto
qed simp

text \<open>
  The stream returns what the protocol says and knows where to resume. Fed the encoding of
  well-formed messages, it returns exactly the events the protocol gives them, in order, and
  afterwards its position is the LSN of the last message that was decoded without an error, or
  the start LSN if there is none: a message that failed does not move the position past it.
\<close>
theorem stream_events_and_position:
  assumes "relation_map D" and "list_all (\<lambda>(lsn, msg). pg_ok msg) msgs"
    and "stream_run D (stream_start (stream_new D start)) (map (\<lambda>(lsn, msg). (lsn, pg_encode msg)) msgs) = (rs, s)"
  shows "rs = decoded_stream Map.empty msgs \<and> last_processed_lsn s = position start msgs rs"
proof -
  have "rs_decoder (stream_start (stream_new D start)) = decoder_new D"
    "last_processed_lsn (stream_start (stream_new D start)) = start"
    by (simp_all add: stream_start_def stream_new_def)
  moreover have "position l (map (\<lambda>(lsn, msg). (lsn, pg_encode msg)) ms) rs = position l ms rs" for l ms rs
    by (induction l ms rs rule: position.induct) auto
  ultimately show ?thesis
    using stream_run_decode [OF assms(3)] relation_map.decode_stream_new [OF assms(1,2)]
    by simp
qed

theorem stream_events_and_position_witness:
  "last_processed_lsn (snd (stream_run alist_dashmap (stream_start (stream_new alist_dashmap (Lsn 3)))
      [(5, pg_encode demo_rel), (8, pg_encode (MInsert 99 []))])) = Lsn 5"
proof -
  let ?msgs = "[(5 :: u64, demo_rel), (8, MInsert 99 [])]"
  have ok: "list_all (\<lambda>(lsn, msg). pg_ok msg) ?msgs"
    using demo_rel_ok by (simp add: ok_tuple_def)
  obtain rs s where r: "stream_run alist_dashmap (stream_start (stream_new alist_dashmap (Lsn 3)))
      (map (\<lambda>(lsn, msg). (lsn, pg_encode msg)) ?msgs) = (rs, s)" by fastforce
  from stream_events_and_position [OF alist_rel.relation_map_axioms ok r]
  have "last_processed_lsn s = Lsn 5" by (simp add: demo_rel_def unknown_relation_def)
  with r show ?thesis by simp
qed

subsection \<open>The token bucket\<close>

lemma as_secs_zero [simp]: "as_secs_f64 0 = Fin 0"
proof -
  have "rnd (of_nat 1000000000) = Fin (of_nat 1000000000)" by (rule rnd_nat) simp
  then show ?thesis by (simp add: as_secs_f64_def rnd_def)
qed

fun acquire_n :: "nat \<Rightarrow> nanos \<Rightarrow> ReplicationThrottle \<Rightarrow> bool list" where
  "acquire_n 0 now t = []"
| "acquire_n (Suc n) now t = (let (b, t) = try_acquire now t in b # acquire_n n now t)"

lemma try_acquire_at_once:
  assumes "rate t = Fin r" and "tokens t = Fin (of_nat n)" and "n \<le> unat (burst t)" and "unat (burst t) \<le> 2 ^ 53"
    and "last_refill t = now"
  shows "try_acquire now t = (if 0 < n then (True, t\<lparr>tokens := Fin (of_nat (n - 1))\<rparr>) else (False, t))"
proof -
  have exact: "rnd (of_nat n) = Fin (of_nat n)" "rnd (of_nat (n - 1)) = Fin (of_nat (n - 1))"
    using assms(3,4) by (auto intro!: rnd_nat)
  have b: "f64_of_u64 (burst t) = Fin (of_nat (unat (burst t)))" by (rule f64_of_u64_exact [OF assms(4)])
  have "\<not> (of_nat (unat (burst t)) :: rat) < of_nat n" using assms(3) by (simp only: of_nat_less_iff not_less)
  moreover have "f64_mul (as_secs_f64 (now - last_refill t)) (rate t) = Fin 0"
    using assms(1,5) by (simp add: rnd_def)
  moreover have "f64_add (Fin (of_nat n)) (Fin 0) = Fin (of_nat n)" by (simp add: exact(1))
  ultimately have ref: "refill now t = t"
    using assms(2,5) by (simp only: refill_def Let_def f64_min_def b f64_lt.simps) simp
  show ?thesis
  proof (cases n)
    case (Suc m)
    have "f64_le (Fin 1) (Fin (of_nat n))" by (cases m) (simp_all add: f64_le_def Suc)
    moreover have "f64_sub (Fin (of_nat n)) (Fin 1) = Fin (of_nat (n - 1))"
      using exact(2) by (simp add: f64_sub_def Suc)
    ultimately show ?thesis using ref assms(2) by (simp add: try_acquire_def Suc)
  next
    case 0
    then show ?thesis using ref assms(2) by (simp add: try_acquire_def f64_le_def)
  qed
qed

lemma acquire_n_at_once:
  assumes "rate t = Fin r" and "tokens t = Fin (of_nat n)" and "n \<le> unat (burst t)" and "unat (burst t) \<le> 2 ^ 53"
    and "last_refill t = now"
  shows "acquire_n k now t = replicate (min k n) True @ replicate (k - n) False"
  using assms(2,3) assms(1,4,5)
proof (induction k arbitrary: n t)
  case (Suc k)
  note step = try_acquire_at_once [OF Suc.prems(3,1,2,4,5)]
  show ?case
  proof (cases n)
    case 0
    then show ?thesis using Suc.IH [OF Suc.prems] step by simp
  next
    case (Suc m)
    then show ?thesis using Suc.IH [of "t\<lparr>tokens := Fin (of_nat m)\<rparr>" m] Suc.prems step by simp
  qed
qed simp

text \<open>
  The token bucket admits its burst and no more: from a new throttle with a finite rate, of
  \<open>k\<close> requests at the instant of creation exactly the first \<open>burst\<close> are admitted and all others are
  told to back off, for every burst size up to \<open>2 ^ 53\<close>, beyond which \<open>f64\<close> no longer counts.
\<close>
theorem throttle_admits_burst:
  assumes "unat b \<le> 2 ^ 53"
  shows "acquire_n k now (throttle_new now (Fin r) b) =
     replicate (min k (unat b)) True @ replicate (k - unat b) False"
  by (rule acquire_n_at_once [where r = r]) (use assms f64_of_u64_exact [OF assms] in \<open>simp_all add: throttle_new_def\<close>)

theorem throttle_admits_burst_witness:
  "acquire_n 3 0 (throttle_new 0 (Fin 100) 2) = [True, True, False]"
proof -
  have "acquire_n 3 0 (throttle_new 0 (Fin 100) 2) = replicate 2 True @ replicate 1 False"
    using throttle_admits_burst [of 2 3 0 100] by simp
  then show ?thesis by (simp only: numeral_2_eq_2 One_nat_def replicate.simps append.simps)
qed

text \<open>A throttle with rate zero that has run dry makes \<open>backoff_duration\<close> panic.\<close>

lemma backoff_zero_rate_panics:
  "rate t = Fin 0 \<Longrightarrow> tokens t = Fin x \<Longrightarrow> x < 1 \<Longrightarrow> backoff_duration t = Panic"
  by (auto simp: backoff_duration_def f64_le_def f64_sub_def rnd_def Let_def from_secs_f64_def inf_sign_def)

end
