(* ===== verification/Flow_Control.thy ===== *)
theory Flow_Control
  imports F64 Config
begin

text \<open>
  Flow control of the daemon: the backpressure gate and the credits of a consumer
  (\<open>src/core/src/backpressure\<close>) and the memory budget (\<open>src/core/src/memory/budget.rs\<close>). They are
  shared between tasks, so besides the operations as single-threaded code sees them, the theory
  has the atomic accesses they consist of, as step relations over any number of threads.
\<close>

subsection \<open>The gate\<close>

datatype PauseReason = RingBufferFull | MemoryBudgetExceeded | WalLagHardCap | ManualPause

record BackpressureGate =
  gate_open :: bool
  gate_reason :: "PauseReason option"
  gate_close_count :: u64

definition gate_new :: BackpressureGate where
  "gate_new = \<lparr>gate_open = True, gate_reason = None, gate_close_count = 0\<rparr>"

definition gate_is_open :: "BackpressureGate \<Rightarrow> bool" where
  "gate_is_open g = gate_open g"

definition gate_close :: "PauseReason \<Rightarrow> BackpressureGate \<Rightarrow> BackpressureGate" where
  "gate_close r g =
     (let g = g\<lparr>gate_open := False\<rparr>;
          g = g\<lparr>gate_close_count := gate_close_count g + 1\<rparr>
      in g\<lparr>gate_reason := Some r\<rparr>)"

definition open_gate :: "BackpressureGate \<Rightarrow> BackpressureGate" where
  "open_gate g = (let g = g\<lparr>gate_open := True\<rparr> in g\<lparr>gate_reason := None\<rparr>)"

definition pause_reason :: "BackpressureGate \<Rightarrow> PauseReason option" where
  "pause_reason g = gate_reason g"

text \<open>
  The accesses of \<open>close\<close> and \<open>open_gate\<close> as separate steps; the second component of a
  configuration says where each thread is.
\<close>

datatype gate_pc = GateIdle | CloseCount PauseReason | CloseReason PauseReason | OpenReason

type_synonym gate_conf = "BackpressureGate \<times> (nat \<Rightarrow> gate_pc)"

inductive gate_step :: "nat set \<Rightarrow> gate_conf \<Rightarrow> gate_conf \<Rightarrow> bool" for T where
  close1: "i \<in> T \<Longrightarrow> pc i = GateIdle \<Longrightarrow> gate_step T (g, pc) (g\<lparr>gate_open := False\<rparr>, pc(i := CloseCount r))"
| close2: "i \<in> T \<Longrightarrow> pc i = CloseCount r \<Longrightarrow>
    gate_step T (g, pc) (g\<lparr>gate_close_count := gate_close_count g + 1\<rparr>, pc(i := CloseReason r))"
| close3: "i \<in> T \<Longrightarrow> pc i = CloseReason r \<Longrightarrow>
    gate_step T (g, pc) (g\<lparr>gate_reason := Some r\<rparr>, pc(i := GateIdle))"
| open1: "i \<in> T \<Longrightarrow> pc i = GateIdle \<Longrightarrow> gate_step T (g, pc) (g\<lparr>gate_open := True\<rparr>, pc(i := OpenReason))"
| open2: "i \<in> T \<Longrightarrow> pc i = OpenReason \<Longrightarrow> gate_step T (g, pc) (g\<lparr>gate_reason := None\<rparr>, pc(i := GateIdle))"

inductive_cases gate_stepE: "gate_step T (g, pc) c"

definition gate_init :: gate_conf where
  "gate_init = (gate_new, \<lambda>_. GateIdle)"

subsection \<open>Credits\<close>

record CreditThrottle =
  credits :: u32
  ct_window :: u32

definition credit_new :: "u32 \<Rightarrow> CreditThrottle" where
  "credit_new w = \<lparr>credits = w, ct_window = w\<rparr>"

text \<open>Without interference the compare-and-exchange loop runs once.\<close>

definition try_consume :: "CreditThrottle \<Rightarrow> bool \<times> CreditThrottle" where
  "try_consume t =
     (let current = credits t
      in if current = 0 then (False, t) else (True, t\<lparr>credits := current - 1\<rparr>))"

definition replenish :: "u32 \<Rightarrow> CreditThrottle \<Rightarrow> CreditThrottle" where
  "replenish amount t = (let amount = min amount (ct_window t) in t\<lparr>credits := credits t + amount\<rparr>)"

definition credit_reset :: "CreditThrottle \<Rightarrow> CreditThrottle" where
  "credit_reset t = t\<lparr>credits := ct_window t\<rparr>"

text \<open>
  The loop of \<open>try_consume\<close> in any number of threads: a thread loads the counter, gives up when it
  is zero, and otherwise tries to exchange it, which fails when it has changed and may also fail
  spuriously. A configuration counts the successful exchanges and the credits granted.
\<close>

datatype credit_pc = CreditIdle | Loaded u32

record credit_conf =
  cc_throttle :: CreditThrottle
  cc_pc :: "nat \<Rightarrow> credit_pc"
  cc_consumed :: nat
  cc_granted :: nat

inductive credit_step :: "credit_conf \<Rightarrow> credit_conf \<Rightarrow> bool" where
  load: "cc_pc c i = CreditIdle \<Longrightarrow> credits (cc_throttle c) \<noteq> 0 \<Longrightarrow>
    credit_step c (c\<lparr>cc_pc := (cc_pc c)(i := Loaded (credits (cc_throttle c)))\<rparr>)"
| refuse: "cc_pc c i = CreditIdle \<Longrightarrow> credits (cc_throttle c) = 0 \<Longrightarrow> credit_step c c"
| exchange: "cc_pc c i = Loaded v \<Longrightarrow> credits (cc_throttle c) = v \<Longrightarrow>
    credit_step c (c\<lparr>cc_pc := (cc_pc c)(i := CreditIdle),
      cc_throttle := (cc_throttle c)\<lparr>credits := v - 1\<rparr>, cc_consumed := cc_consumed c + 1\<rparr>)"
| retry: "cc_pc c i = Loaded v \<Longrightarrow> credit_step c (c\<lparr>cc_pc := (cc_pc c)(i := CreditIdle)\<rparr>)"
| grant: "credit_step c (c\<lparr>cc_throttle := replenish amount (cc_throttle c),
      cc_granted := cc_granted c + unat (min amount (ct_window (cc_throttle c)))\<rparr>)"

definition credit_init :: "u32 \<Rightarrow> credit_conf" where
  "credit_init w = \<lparr>cc_throttle = credit_new w, cc_pc = (\<lambda>_. CreditIdle), cc_consumed = 0, cc_granted = 0\<rparr>"

subsection \<open>The memory budget\<close>

record MemoryBudget =
  mb_budget_bytes :: usize
  mb_warn_threshold :: f64
  mb_used :: usize

definition budget_new :: "usize \<Rightarrow> f64 \<Rightarrow> MemoryBudget" where
  "budget_new b w = \<lparr>mb_budget_bytes = b, mb_warn_threshold = f64_clamp w (Fin 0) (Fin 1), mb_used = 0\<rparr>"

definition budget_from_config :: "MemoryConfig \<Rightarrow> MemoryBudget" where
  "budget_from_config cfg = budget_new (mc_budget_bytes cfg) (mc_warn_threshold cfg)"

definition mem_allocate :: "usize \<Rightarrow> MemoryBudget \<Rightarrow> MemoryBudget" where
  "mem_allocate n m = m\<lparr>mb_used := mb_used m + n\<rparr>"

definition mem_deallocate :: "usize \<Rightarrow> MemoryBudget \<Rightarrow> MemoryBudget" where
  "mem_deallocate n m = m\<lparr>mb_used := mb_used m - n\<rparr>"

definition usage_ratio :: "MemoryBudget \<Rightarrow> f64" where
  "usage_ratio m = f64_div (f64_of_u64 (mb_used m)) (f64_of_u64 (mb_budget_bytes m))"

definition is_exceeded :: "MemoryBudget \<Rightarrow> bool" where
  "is_exceeded m \<longleftrightarrow> mb_used m > mb_budget_bytes m"

definition is_warning :: "MemoryBudget \<Rightarrow> bool" where
  "is_warning m \<longleftrightarrow> f64_lt (mb_warn_threshold m) (usage_ratio m)"

definition mem_remaining :: "MemoryBudget \<Rightarrow> usize" where
  "mem_remaining m = (if mb_used m \<le> mb_budget_bytes m then mb_budget_bytes m - mb_used m else 0)"

subsection \<open>Properties of the gate\<close>

fun gate_ok :: "BackpressureGate \<Rightarrow> gate_pc \<Rightarrow> bool" where
  "gate_ok g GateIdle \<longleftrightarrow> (gate_open g \<longleftrightarrow> gate_reason g = None)"
| "gate_ok g OpenReason \<longleftrightarrow> gate_open g"
| "gate_ok g _ \<longleftrightarrow> \<not> gate_open g"

lemma gate_single_step: "gate_step {t} (g, pc) (g', pc') \<Longrightarrow> gate_ok g (pc t) \<Longrightarrow> gate_ok g' (pc' t)"
  by (elim gate_stepE) auto

lemma gate_single_reach: "(gate_step {t})\<^sup>*\<^sup>* gate_init c \<Longrightarrow> gate_ok (fst c) (snd c t)"
proof (induction rule: rtranclp_induct)
  case base
  show ?case by (simp add: gate_init_def gate_new_def)
next
  case (step c c')
  then show ?case using gate_single_step [of t "fst c" "snd c" "fst c'" "snd c'"] by simp
qed

lemma gate_close_steps:
  assumes "i \<in> T" and "pc i = GateIdle"
  shows "(gate_step T)\<^sup>*\<^sup>* (g, pc) (gate_close r g, pc)"
proof -
  let ?g1 = "g\<lparr>gate_open := False\<rparr>" and ?p1 = "pc(i := CloseCount r)"
  let ?g2 = "?g1\<lparr>gate_close_count := gate_close_count ?g1 + 1\<rparr>" and ?p2 = "?p1(i := CloseReason r)"
  have "gate_step T (g, pc) (?g1, ?p1)" using assms by (rule close1)
  moreover have "gate_step T (?g1, ?p1) (?g2, ?p2)" using assms(1) by (rule close2) simp
  moreover have "gate_step T (?g2, ?p2) (?g2\<lparr>gate_reason := Some r\<rparr>, ?p2(i := GateIdle))"
    using assms(1) by (rule close3) simp
  moreover have "?p2(i := GateIdle) = pc" using assms(2) by auto
  ultimately show ?thesis
    by (metis (no_types, lifting) converse_rtranclp_into_rtranclp gate_close_def rtranclp.rtrancl_refl)
qed

text \<open>The race: one thread opens between the first and the last access of another that closes.\<close>

lemma gate_race:
  "(gate_step {0, 1})\<^sup>*\<^sup>* gate_init
     (\<lparr>gate_open = True, gate_reason = Some r, gate_close_count = 1\<rparr>, \<lambda>_. GateIdle)"
proof -
  let ?c1 = "(gate_new\<lparr>gate_open := False\<rparr>, (\<lambda>_. GateIdle)(0 := CloseCount r)) :: gate_conf"
  let ?c2 = "(fst ?c1\<lparr>gate_close_count := gate_close_count (fst ?c1) + 1\<rparr>, (snd ?c1)(0 := CloseReason r))"
  let ?c3 = "(fst ?c2\<lparr>gate_open := True\<rparr>, (snd ?c2)(1 := OpenReason))"
  let ?c4 = "(fst ?c3\<lparr>gate_reason := None\<rparr>, (snd ?c3)(1 := GateIdle))"
  let ?c5 = "(fst ?c4\<lparr>gate_reason := Some r\<rparr>, (snd ?c4)(0 := GateIdle))"
  have "gate_step {0, 1} gate_init ?c1" unfolding gate_init_def by (rule close1) simp_all
  moreover have "gate_step {0, 1} ?c1 ?c2" unfolding fst_conv snd_conv by (rule close2) simp_all
  moreover have "gate_step {0, 1} ?c2 ?c3" unfolding fst_conv snd_conv by (rule open1) simp_all
  moreover have "gate_step {0, 1} ?c3 ?c4" unfolding fst_conv snd_conv by (rule open2) simp_all
  moreover have "gate_step {0, 1} ?c4 ?c5" unfolding fst_conv snd_conv by (rule close3) simp_all
  ultimately have "(gate_step {0, 1})\<^sup>*\<^sup>* gate_init ?c5"
    by (meson converse_rtranclp_into_rtranclp rtranclp.rtrancl_refl)
  moreover have "?c5 = (\<lparr>gate_open = True, gate_reason = Some r, gate_close_count = 1\<rparr>, \<lambda>_. GateIdle)"
    by (auto simp: gate_new_def)
  ultimately show ?thesis by simp
qed

text \<open>
  C22. The gate says why it is closed as long as one thread operates it: whenever that thread is
  between operations, the gate is closed exactly when it has a pause reason. Two threads can
  break this for good: a run of one \<open>close\<close> and one \<open>open_gate\<close> ends with both threads idle, the
  gate open, and a pause reason reported.
\<close>
theorem gate_reason_consistent:
  "((gate_step {t})\<^sup>*\<^sup>* gate_init (g, pc) \<and> pc t = GateIdle
      \<longrightarrow> (gate_is_open g \<longleftrightarrow> pause_reason g = None))
   \<and> (\<exists>g'. (gate_step {0, 1})\<^sup>*\<^sup>* gate_init (g', \<lambda>_. GateIdle) \<and> gate_is_open g' \<and> pause_reason g' = Some r)"
proof
  show "(gate_step {t})\<^sup>*\<^sup>* gate_init (g, pc) \<and> pc t = GateIdle
      \<longrightarrow> (gate_is_open g \<longleftrightarrow> pause_reason g = None)"
    using gate_single_reach [of t "(g, pc)"] by (auto simp: gate_is_open_def pause_reason_def)
  show "\<exists>g'. (gate_step {0, 1})\<^sup>*\<^sup>* gate_init (g', \<lambda>_. GateIdle) \<and> gate_is_open g' \<and> pause_reason g' = Some r"
    using gate_race [of r] by (intro exI conjI) (auto simp: gate_is_open_def pause_reason_def)
qed

theorem gate_reason_consistent_witness:
  "\<not> gate_is_open (gate_close WalLagHardCap gate_new) \<longleftrightarrow> pause_reason (gate_close WalLagHardCap gate_new) \<noteq> None"
proof -
  have "(gate_step {0})\<^sup>*\<^sup>* gate_init (gate_close WalLagHardCap gate_new, \<lambda>_. GateIdle)"
    unfolding gate_init_def by (rule gate_close_steps) simp_all
  with gate_reason_consistent [of 0 "gate_close WalLagHardCap gate_new" "\<lambda>_. GateIdle" ManualPause]
  show ?thesis by simp
qed

subsection \<open>Properties of the credits\<close>

definition credit_inv :: "u32 \<Rightarrow> credit_conf \<Rightarrow> bool" where
  "credit_inv w c \<longleftrightarrow>
     ct_window (cc_throttle c) = w \<and> (\<forall>i v. cc_pc c i = Loaded v \<longrightarrow> v \<noteq> 0)
     \<and> (unat w + cc_granted c < 2 ^ 32 \<longrightarrow>
         unat (credits (cc_throttle c)) + cc_consumed c = unat w + cc_granted c)"

lemma unat_add_u32: "unat a + unat b < 2 ^ 32 \<Longrightarrow> unat (a + b :: u32) = unat a + unat b"
  by (simp add: unat_word_ariths)

lemma unat_minus_1_u32: "v \<noteq> 0 \<Longrightarrow> unat (v - 1 :: u32) = unat v - 1 \<and> 0 < unat v"
  by (metis unat_eq_0 unat_minus_one neq0_conv)

lemma credit_inv_step: "credit_step c c' \<Longrightarrow> credit_inv w c \<Longrightarrow> credit_inv w c'"
proof (induction rule: credit_step.induct)
  case (exchange c i v)
  then have "v \<noteq> 0" by (auto simp: credit_inv_def)
  with exchange unat_minus_1_u32 [of v] show ?case by (auto simp: credit_inv_def)
next
  case (grant c amount)
  let ?t = "cc_throttle c" and ?a = "min amount (ct_window (cc_throttle c))"
  show ?case
  proof (cases "unat w + (cc_granted c + unat ?a) < 2 ^ 32")
    case True
    then have "unat (credits ?t) + cc_consumed c = unat w + cc_granted c" using grant by (simp add: credit_inv_def)
    moreover from this have "unat (credits ?t + ?a) = unat (credits ?t) + unat ?a"
      using True by (intro unat_add_u32) linarith
    ultimately show ?thesis using grant by (auto simp: credit_inv_def replenish_def Let_def)
  next
    case False
    then show ?thesis using grant by (auto simp: credit_inv_def replenish_def Let_def)
  qed
qed (auto simp: credit_inv_def)

lemma credit_inv_reach: "credit_step\<^sup>*\<^sup>* (credit_init w) c \<Longrightarrow> credit_inv w c"
proof (induction rule: rtranclp_induct)
  case base
  show ?case by (simp add: credit_inv_def credit_init_def credit_new_def)
qed (rule credit_inv_step)

text \<open>
  C23. No event is delivered without a credit, whatever the threads do: in every reachable state
  of any number of concurrent \<open>try_consume\<close> loops, with failing and spuriously failing exchanges,
  and of concurrent \<open>replenish\<close> calls, the credits left plus the successful consumptions are the
  window plus the credits granted, as long as these fit the 32-bit counter. So at most that many
  consumptions succeed.
\<close>
theorem credits_conserved:
  assumes "credit_step\<^sup>*\<^sup>* (credit_init w) c" and "unat w + cc_granted c < 2 ^ 32"
  shows "unat (credits (cc_throttle c)) + cc_consumed c = unat w + cc_granted c
    \<and> cc_consumed c \<le> unat w + cc_granted c"
  using credit_inv_reach [OF assms(1)] assms(2) by (auto simp: credit_inv_def)

definition credit_demo :: credit_conf where
  "credit_demo = \<lparr>cc_throttle = \<lparr>credits = 1, ct_window = 2\<rparr>, cc_pc = (\<lambda>_. CreditIdle)(1 := Loaded 2),
     cc_consumed = 1, cc_granted = 0\<rparr>"

text \<open>Two threads load the same value; one exchange succeeds and the other must retry.\<close>

lemma credit_demo_reach: "credit_step\<^sup>*\<^sup>* (credit_init 2) credit_demo"
proof -
  let ?c0 = "credit_init 2"
  let ?c1 = "?c0\<lparr>cc_pc := (cc_pc ?c0)(0 := Loaded (credits (cc_throttle ?c0)))\<rparr>"
  let ?c2 = "?c1\<lparr>cc_pc := (cc_pc ?c1)(1 := Loaded (credits (cc_throttle ?c1)))\<rparr>"
  let ?c3 = "?c2\<lparr>cc_pc := (cc_pc ?c2)(0 := CreditIdle), cc_throttle := (cc_throttle ?c2)\<lparr>credits := 2 - 1\<rparr>,
      cc_consumed := cc_consumed ?c2 + 1\<rparr>"
  have "credit_step ?c0 ?c1" by (rule load) (simp_all add: credit_init_def credit_new_def)
  moreover have "credit_step ?c1 ?c2" by (rule load) (simp_all add: credit_init_def credit_new_def)
  moreover have "credit_step ?c2 ?c3" by (rule exchange) (simp_all add: credit_init_def credit_new_def)
  moreover have "?c3 = credit_demo" by (auto simp: credit_demo_def credit_init_def credit_new_def)
  ultimately show ?thesis by (metis (no_types, lifting) converse_rtranclp_into_rtranclp rtranclp.rtrancl_refl)
qed

theorem credits_conserved_witness:
  "credit_step\<^sup>*\<^sup>* (credit_init 2) credit_demo
   \<and> unat (credits (cc_throttle credit_demo)) + cc_consumed credit_demo = 2"
  using credits_conserved [OF credit_demo_reach] credit_demo_reach by (simp add: credit_demo_def)

text \<open>
  The bound on one grant does not bound the credits: a grant on top of a full window exceeds the
  window, and the counter wraps, so that a grant can take all credits away.
\<close>

lemma replenish_exceeds_window:
  "unat w + unat w < 2 ^ 32 \<Longrightarrow> unat (credits (replenish w (credit_new w))) = 2 * unat w"
  "credits (replenish 0x80000000 (credit_new 0x80000000)) = 0"
proof -
  assume "unat w + unat w < 2 ^ 32"
  from unat_add_u32 [OF this] show "unat (credits (replenish w (credit_new w))) = 2 * unat w"
    unfolding replenish_def credit_new_def Let_def CreditThrottle.simps min.idem by linarith
qed (simp add: replenish_def credit_new_def)

subsection \<open>Properties of the memory budget\<close>

datatype mem_op = Alloc usize | Dealloc usize

fun mem_step :: "mem_op \<Rightarrow> MemoryBudget \<Rightarrow> MemoryBudget" where
  "mem_step (Alloc n) m = mem_allocate n m"
| "mem_step (Dealloc n) m = mem_deallocate n m"

text \<open>The bytes held, if no more is given back than was taken and the sum fits a \<open>usize\<close>.\<close>

fun mem_held :: "mem_op list \<Rightarrow> nat \<Rightarrow> nat option" where
  "mem_held [] h = Some h"
| "mem_held (Alloc n # ops) h = (if h + unat n < 2 ^ 64 then mem_held ops (h + unat n) else None)"
| "mem_held (Dealloc n # ops) h = (if unat n \<le> h then mem_held ops (h - unat n) else None)"

lemma mem_held_used:
  "mem_held ops (unat (mb_used m)) = Some h \<Longrightarrow>
     unat (mb_used (fold mem_step ops m)) = h
     \<and> mb_budget_bytes (fold mem_step ops m) = mb_budget_bytes m
     \<and> mb_warn_threshold (fold mem_step ops m) = mb_warn_threshold m"
proof (induction ops arbitrary: m)
  case (Cons op ops)
  show ?case
  proof (cases op)
    case (Alloc n)
    then have "unat (mb_used (mem_allocate n m)) = unat (mb_used m) + unat n"
      using Cons.prems by (auto simp: mem_allocate_def unat_word_ariths split: if_splits)
    then show ?thesis using Cons.IH [of "mem_allocate n m"] Cons.prems Alloc
      by (auto simp: mem_allocate_def split: if_splits)
  next
    case (Dealloc n)
    then have "unat (mb_used (mem_deallocate n m)) = unat (mb_used m) - unat n"
      using Cons.prems by (auto simp: mem_deallocate_def unat_sub_if' split: if_splits)
    then show ?thesis using Cons.IH [of "mem_deallocate n m"] Cons.prems Dealloc
      by (auto simp: mem_deallocate_def split: if_splits)
  qed
qed simp

lemma exceeded_ratio:
  assumes "is_exceeded m" and "mb_budget_bytes m \<noteq> 0" and "x < 1"
  shows "f64_lt (Fin x) (usage_ratio m)"
proof -
  let ?b = "mb_budget_bytes m" and ?u = "mb_used m"
  have pos: "0 < unat ?b" "unat ?b \<le> unat ?u" "0 < unat ?u"
    using assms(1,2) by (auto simp: is_exceeded_def word_less_nat_alt unat_gt_0)
  obtain b where b: "f64_of_u64 ?b = Fin b" "9999 / 10000 * of_nat (unat ?b) \<le> b"
    using f64_of_u64_near [OF pos(1)] by blast
  obtain u where u: "f64_of_u64 ?u = Fin u" using f64_of_u64_near [OF pos(3)] by blast
  have "(1 :: rat) \<le> of_nat (unat ?b)" using pos(1) of_nat_mono [of 1 "unat ?b"] by simp
  then have b0: "0 < b" using b(2) by linarith
  have "\<not> f64_lt (f64_of_u64 ?u) (f64_of_u64 ?b)"
    unfolding f64_of_u64_def by (rule rnd_mono) (rule of_nat_mono [OF pos(2)])
  then have "b \<le> u" by (simp add: b u)
  then have "1 \<le> u / b" using b0 by simp
  then have "\<not> f64_lt (rnd (u / b)) (rnd 1)" by (rule rnd_mono)
  moreover have "rnd 1 = Fin 1" using rnd_nat [of 1] by simp
  ultimately have "\<not> f64_lt (usage_ratio m) (Fin 1)" using b0 by (simp add: usage_ratio_def b(1) u)
  moreover have "usage_ratio m = rnd (u / b)" using b0 by (simp add: usage_ratio_def b(1) u)
  ultimately show ?thesis using assms(3) by (cases "rnd (u / b)") (auto simp: rnd_def Let_def split: if_splits)
qed

text \<open>
  The budget counts exactly: after any sequence of allocations and deallocations that never
  gives back more than is held and fits a \<open>usize\<close>, the recorded usage is the number of bytes held,
  \<open>is_exceeded\<close> compares that number with the budget, \<open>remaining\<close> is what is left of it, and when
  the budget is exceeded a threshold below 1 also warns, whatever the rounding of the ratio.
\<close>
theorem memory_accounting:
  assumes "mem_held ops 0 = Some h" and "m = fold mem_step ops (budget_new b (Fin x))"
  shows "unat (mb_used m) = h \<and> (is_exceeded m \<longleftrightarrow> unat b < h) \<and> unat (mem_remaining m) = unat b - h
    \<and> (is_exceeded m \<and> b \<noteq> 0 \<and> x < 1 \<longrightarrow> is_warning m)"
proof -
  have u: "unat (mb_used m) = h" "mb_budget_bytes m = b"
    and w: "mb_warn_threshold m = Fin (min 1 (max 0 x))"
    using mem_held_used [of ops "budget_new b (Fin x)" h] assms
    by (auto simp: budget_new_def f64_clamp_def Let_def)
  have "is_exceeded m \<and> b \<noteq> 0 \<and> x < 1 \<longrightarrow> is_warning m"
    using exceeded_ratio [of m "min 1 (max 0 x)"] u(2) by (auto simp: is_warning_def w)
  then show ?thesis
    using u by (auto simp: is_exceeded_def mem_remaining_def word_less_nat_alt word_le_nat_alt unat_sub)
qed

theorem memory_accounting_witness:
  "let m = fold mem_step [Alloc 700, Alloc 500, Dealloc 100] (budget_new 1000 (Fin (1 / 2)))
   in unat (mb_used m) = 1100 \<and> is_exceeded m \<and> mem_remaining m = 0 \<and> is_warning m"
  using memory_accounting [of "[Alloc 700, Alloc 500, Dealloc 100]" 1100
      "fold mem_step [Alloc 700, Alloc 500, Dealloc 100] (budget_new 1000 (Fin (1 / 2)))" 1000 "1 / 2"]
  by (simp add: Let_def unat_eq_0)

end
