(* ===== verification/Wal.thy ===== *)
theory Wal
  imports Lsn "HOL-Library.AList"
begin

text \<open>
  The write-ahead log, \<open>src/core/src/storage/wal/batch.rs\<close>. The file system behind \<open>std::fs\<close> is the
  parameter \<open>F\<close>: every call may fail, and a failed \<open>write_all\<close> may have written a part. Paths are
  directory and file name; the handle of the open segment is its path. The code has no reader, so
  what the log holds is defined by a reader for the documented record format.
\<close>

subsection \<open>Files\<close>

record 'f fs_ops =
  fs_create_dir_all :: "'f \<Rightarrow> string \<Rightarrow> (unit, string) rresult \<times> 'f"
  fs_open_append :: "'f \<Rightarrow> string \<Rightarrow> string \<Rightarrow> (unit, string) rresult \<times> 'f"
  fs_write_all :: "'f \<Rightarrow> string \<Rightarrow> string \<Rightarrow> bytes \<Rightarrow> (unit, string) rresult \<times> 'f"
  fs_sync_all :: "'f \<Rightarrow> string \<Rightarrow> string \<Rightarrow> (unit, string) rresult \<times> 'f"
  fs_read_dir :: "'f \<Rightarrow> string \<Rightarrow> ((string, string) rresult list, string) rresult"
  fs_remove_file :: "'f \<Rightarrow> string \<Rightarrow> string \<Rightarrow> (unit, string) rresult \<times> 'f"

text \<open>\<open>{:08}\<close>, \<open>Path::extension\<close> and \<open>Path::file_stem\<close> of a file name.\<close>

definition pad8 :: "string \<Rightarrow> string" where
  "pad8 s = replicate (8 - length s) CHR ''0'' @ s"

definition split_last_dot :: "string \<Rightarrow> (string \<times> string) option" where
  "split_last_dot name =
     (case split_once CHR ''.'' (rev name) of
        Some (e, st) \<Rightarrow> if st = [] then None else Some (rev st, rev e)
      | None \<Rightarrow> None)"

definition path_extension :: "string \<Rightarrow> string option" where
  "path_extension name = map_option snd (split_last_dot name)"

definition path_stem :: "string \<Rightarrow> string" where
  "path_stem name = (case split_last_dot name of Some (st, _) \<Rightarrow> st | None \<Rightarrow> name)"

subsection \<open>The writer\<close>

record WalWriter =
  wal_dir :: string
  current_file :: "string option"
  segment :: u64
  segment_bytes :: usize
  max_segment_bytes :: usize
  last_lsn :: lsn

definition segment_name :: "u64 \<Rightarrow> string" where
  "segment_name n = ''wal_'' @ pad8 (dec_str (unat n)) @ ''.log''"

definition wal_new :: "'f fs_ops \<Rightarrow> 'f \<Rightarrow> string \<Rightarrow> usize \<Rightarrow> (WalWriter, string) rresult \<times> 'f" where
  "wal_new F f dir mx =
     (case fs_create_dir_all F f dir of
        (Ok _, f) \<Rightarrow> (Ok \<lparr>wal_dir = dir, current_file = None, segment = 0, segment_bytes = 0,
                          max_segment_bytes = mx, last_lsn = lsn_zero\<rparr>, f)
      | (Err e, f) \<Rightarrow> (Err e, f)
      | (Panic, f) \<Rightarrow> (Panic, f))"

definition wal_rotate :: "'f fs_ops \<Rightarrow> 'f \<Rightarrow> WalWriter \<Rightarrow> (unit, string) rresult \<times> WalWriter \<times> 'f" where
  "wal_rotate F f w =
     (let w = w\<lparr>segment := segment w + 1\<rparr>; name = segment_name (segment w)
      in case fs_open_append F f (wal_dir w) name of
           (Ok _, f) \<Rightarrow> (Ok (), w\<lparr>current_file := Some name, segment_bytes := 0\<rparr>, f)
         | (Err e, f) \<Rightarrow> (Err e, w, f)
         | (Panic, f) \<Rightarrow> (Panic, w, f))"

text \<open>The three writes of a record; the first failure ends it.\<close>

fun write_parts :: "'f fs_ops \<Rightarrow> string \<Rightarrow> string \<Rightarrow> bytes list \<Rightarrow> 'f \<Rightarrow> (unit, string) rresult \<times> 'f" where
  "write_parts F dir name [] f = (Ok (), f)"
| "write_parts F dir name (p # ps) f =
     (case fs_write_all F f dir name p of
        (Ok _, f) \<Rightarrow> write_parts F dir name ps f
      | (Err e, f) \<Rightarrow> (Err e, f)
      | (Panic, f) \<Rightarrow> (Panic, f))"

definition record_len :: "bytes \<Rightarrow> u32" where
  "record_len payload = ucast (8 + of_nat (length payload) :: usize)"

definition write_record ::
    "'f fs_ops \<Rightarrow> 'f \<Rightarrow> WalWriter \<Rightarrow> lsn \<Rightarrow> bytes \<Rightarrow> (unit, string) rresult \<times> WalWriter \<times> 'f" where
  "write_record F f w lsn payload =
     (case current_file w of
        None \<Rightarrow> (Panic, w, f)
      | Some name \<Rightarrow>
          (case write_parts F (wal_dir w) name
                  [to_be_bytes (record_len payload), lsn_to_be_bytes lsn, payload] f of
             (Ok _, f) \<Rightarrow>
               (Ok (), w\<lparr>segment_bytes := segment_bytes w + (4 + 8 + of_nat (length payload)),
                         last_lsn := lsn\<rparr>, f)
           | (Err e, f) \<Rightarrow> (Err e, w, f)
           | (Panic, f) \<Rightarrow> (Panic, w, f)))"

definition wal_append ::
    "'f fs_ops \<Rightarrow> 'f \<Rightarrow> WalWriter \<Rightarrow> lsn \<Rightarrow> bytes \<Rightarrow> (unit, string) rresult \<times> WalWriter \<times> 'f" where
  "wal_append F f w lsn payload =
     (if current_file w = None \<or> segment_bytes w \<ge> max_segment_bytes w
      then case wal_rotate F f w of
             (Ok _, w, f) \<Rightarrow> write_record F f w lsn payload
           | (Err e, w, f) \<Rightarrow> (Err e, w, f)
           | (Panic, w, f) \<Rightarrow> (Panic, w, f)
      else write_record F f w lsn payload)"

definition wal_sync :: "'f fs_ops \<Rightarrow> 'f \<Rightarrow> WalWriter \<Rightarrow> (unit, string) rresult \<times> 'f" where
  "wal_sync F f w =
     (case current_file w of
        Some name \<Rightarrow> fs_sync_all F f (wal_dir w) name
      | None \<Rightarrow> (Ok (), f))"

subsection \<open>Collecting segments\<close>

text \<open>Whether a directory entry is a segment the collector removes.\<close>

definition is_old_segment :: "WalWriter \<Rightarrow> string \<Rightarrow> bool" where
  "is_old_segment w name =
     (if path_extension name = Some ''log'' then
        (case parse_uint 10 (2 ^ 64) (trim_start_matches ''wal_'' (path_stem name)) of
           Some n \<Rightarrow> (of_nat n :: u64) + 2 < segment w
         | None \<Rightarrow> False)
      else False)"

fun gc_entries ::
    "'f fs_ops \<Rightarrow> WalWriter \<Rightarrow> (string, string) rresult list \<Rightarrow> usize \<Rightarrow> 'f \<Rightarrow> (usize, string) rresult \<times> 'f" where
  "gc_entries F w [] removed f = (Ok removed, f)"
| "gc_entries F w (Ok name # es) removed f =
     (if is_old_segment w name then
        (case fs_remove_file F f (wal_dir w) name of
           (Ok _, f) \<Rightarrow> gc_entries F w es (removed + 1) f
         | (Err e, f) \<Rightarrow> (Err e, f)
         | (Panic, f) \<Rightarrow> (Panic, f))
      else gc_entries F w es removed f)"
| "gc_entries F w (Err e # es) removed f = (Err e, f)"
| "gc_entries F w (Panic # es) removed f = (Panic, f)"

definition gc_segments :: "'f fs_ops \<Rightarrow> 'f \<Rightarrow> WalWriter \<Rightarrow> lsn \<Rightarrow> (usize, string) rresult \<times> 'f" where
  "gc_segments F f w watermark_lsn =
     (case fs_read_dir F f (wal_dir w) of
        Ok entries \<Rightarrow> gc_entries F w entries 0 f
      | Err e \<Rightarrow> (Err e, f)
      | Panic \<Rightarrow> (Panic, f))"

subsection \<open>What the log holds\<close>

definition wal_record :: "lsn \<times> bytes \<Rightarrow> bytes" where
  "wal_record r = to_be_bytes (record_len (snd r)) @ lsn_to_be_bytes (fst r) @ snd r"

text \<open>A reader of the documented format, which stops at the first incomplete record.\<close>

function read_records :: "bytes \<Rightarrow> (lsn \<times> bytes) list" where
  "read_records bs =
     (if length bs < 12 then []
      else let n = unat (from_be_bytes (take 4 bs) :: u32)
           in if n < 8 \<or> length bs < 4 + n then []
              else (lsn_from_be_bytes (take 8 (drop 4 bs)), take (n - 8) (drop 12 bs))
                     # read_records (drop (4 + n) bs))"
  by pat_completeness auto
termination by (relation "measure length") auto

declare read_records.simps [simp del]

subsection \<open>Segment names\<close>

lemma parse_digits_zeros: "0 < bd \<Longrightarrow> parse_digits 10 bd 0 (replicate k CHR ''0'' @ s) = parse_digits 10 bd 0 s"
  by (induction k) (simp_all add: to_digit_def)

lemma pad8_digits: "set (pad8 (dec_str n)) \<subseteq> upper_digit ` {..<10}"
proof -
  have z: "CHR ''0'' = upper_digit 0" by (simp add: upper_digit_def)
  have "CHR ''0'' \<in> upper_digit ` {..<10}" unfolding z by (rule imageI) simp
  moreover have "set (dec_str n) \<subseteq> upper_digit ` {..<10}" unfolding dec_str_def by (rule set_radix_str) simp
  moreover have "set (pad8 (dec_str n)) \<subseteq> insert CHR ''0'' (set (dec_str n))" by (auto simp: pad8_def)
  ultimately show ?thesis by blast
qed

lemma pad8_neq_Nil [simp]: "pad8 (dec_str n) \<noteq> []"
  by (simp add: pad8_def dec_str_def)

lemma hd_pad8: "hd (pad8 (dec_str n)) \<notin> {CHR ''+'', CHR ''-'', CHR ''w''}"
proof -
  have "hd (pad8 (dec_str n)) \<in> upper_digit ` {..<10}" using pad8_digits [of n] hd_in_set [OF pad8_neq_Nil [of n]] by (rule subsetD)
  then obtain d where d: "d < 10" "hd (pad8 (dec_str n)) = upper_digit d" by auto
  have "\<forall>d < 10. upper_digit d \<notin> {CHR ''+'', CHR ''-'', CHR ''w''}" by code_simp
  then show ?thesis using d by simp
qed

lemma pad8_parse:
  assumes "n < 2 ^ 64"
  shows "parse_uint 10 (2 ^ 64) (pad8 (dec_str n)) = Some n"
proof -
  have "parse_uint 10 (2 ^ 64) (pad8 (dec_str n)) = parse_digits 10 (2 ^ 64) 0 (pad8 (dec_str n))"
    using hd_pad8 [of n] by (cases "pad8 (dec_str n)") (simp_all add: parse_uint_def)
  also have "\<dots> = Some n"
    unfolding pad8_def by (subst parse_digits_zeros) (use assms in \<open>simp_all add: dec_str_def parse_digits_radix_str\<close>)
  finally show ?thesis .
qed

lemma segment_name_inj: "segment_name a = segment_name b \<longleftrightarrow> a = b"
proof
  assume "segment_name a = segment_name b"
  then have "pad8 (dec_str (unat a)) = pad8 (dec_str (unat b))" by (simp add: segment_name_def)
  moreover have "unat a < 2 ^ 64" "unat b < 2 ^ 64" using unat_less [of a] unat_less [of b] by simp_all
  ultimately have "Some (unat a) = Some (unat b)"
    using pad8_parse [of "unat a"] pad8_parse [of "unat b"] by (simp only:)
  then show "a = b" by (simp add: word_unat_eq_iff)
qed simp

lemma segment_name_old: "is_old_segment w (segment_name n) \<longleftrightarrow> n + 2 < segment w"
proof -
  let ?d = "pad8 (dec_str (unat n))"
  have sp: "split_last_dot (segment_name n) = Some (''wal_'' @ ?d, ''log'')"
    by (simp add: split_last_dot_def segment_name_def)
  have "\<not> starts_with ?d ''wal_''" using hd_pad8 [of "unat n"] starts_with_hd [of ?d "''wal_''"] by auto
  then have "strip_seqs [''wal_''] k ?d = ?d" for k by (cases k) simp_all
  moreover have "strip_seqs [''wal_''] (Suc k) (''wal_'' @ ?d) = strip_seqs [''wal_''] k ?d" for k
    by (simp add: starts_with_def)
  moreover have "length (''wal_'' @ ?d) = Suc (3 + length ?d)" by simp
  ultimately have "trim_start_matches ''wal_'' (''wal_'' @ ?d) = ?d"
    unfolding trim_start_matches_def by (simp only: list.distinct if_False)
  moreover have "parse_uint 10 (2 ^ 64) ?d = Some (unat n)"
    by (rule pad8_parse) (use unat_less [of n] in simp)
  ultimately show ?thesis
    by (simp add: is_old_segment_def path_extension_def path_stem_def sp)
qed

subsection \<open>Reading records back\<close>

definition wal_ok :: "lsn \<times> bytes \<Rightarrow> bool" where
  "wal_ok r \<longleftrightarrow> 8 + length (snd r) < 2 ^ 32"

lemma record_len_unat:
  assumes "8 + length p < 2 ^ 32"
  shows "unat (record_len p) = 8 + length p"
proof -
  have eq: "8 + of_nat (length p) = (of_nat (8 + length p) :: usize)" by simp
  have "8 + length p < 2 ^ 64" using assms by (rule less_trans) simp
  then have "unat (of_nat (8 + length p) :: usize) = 8 + length p"
    using unat_of_nat [of "8 + length p", where 'a = 64] by (simp del: of_nat_add)
  then have "unat (record_len p) = take_bit 32 (8 + length p)"
    unfolding record_len_def eq by (simp only: unsigned_ucast_eq) simp
  then show ?thesis using assms by (simp add: take_bit_eq_mod)
qed

lemma read_record:
  assumes "wal_ok r"
  shows "read_records (wal_record r @ bs) = r # read_records bs"
proof -
  have l: "length (to_be_bytes (record_len (snd r))) = 4" "length (lsn_to_be_bytes (fst r)) = 8" by simp_all
  have n: "unat (from_be_bytes (to_be_bytes (record_len (snd r))) :: u32) = 8 + length (snd r)"
    using record_len_unat [of "snd r"] assms by (simp add: wal_ok_def from_to_be_bytes)
  let ?x = "wal_record r @ bs"
  have len: "length ?x = 12 + length (snd r) + length bs" by (simp add: wal_record_def)
  have t: "take 4 ?x = to_be_bytes (record_len (snd r))" "take 8 (drop 4 ?x) = lsn_to_be_bytes (fst r)"
    "take (8 + length (snd r) - 8) (drop 12 ?x) = snd r" "drop (4 + (8 + length (snd r))) ?x = bs"
    by (simp_all add: wal_record_def)
  have "\<not> length ?x < 12" "\<not> (8 + length (snd r) < 8 \<or> length ?x < 4 + (8 + length (snd r)))"
    using len by simp_all
  then show ?thesis
    by (subst read_records.simps) (simp only: if_False Let_def t n lsn_from_to_be_bytes prod.collapse)
qed

lemma read_records_Nil: "read_records [] = []"
  by (subst read_records.simps) simp

lemma read_all: "list_all wal_ok rs \<Longrightarrow> read_records (concat (map wal_record rs)) = rs"
  by (induction rs) (simp_all add: read_record read_records_Nil)

subsection \<open>The contract of the file system\<close>

text \<open>
  \<open>content f d n\<close> is the content of a file. Opening for append creates a missing file, a
  successful write appends, a failed one may have appended a part, listing a directory names
  existing files only, and a failed open or removal changes nothing.
\<close>

locale append_fs =
  fixes F :: "'f fs_ops"
    and content :: "'f \<Rightarrow> string \<Rightarrow> string \<Rightarrow> bytes option"
  assumes create_dir: "fs_create_dir_all F f d = (r, f') \<Longrightarrow> content f' = content f"
    and open_ok: "fs_open_append F f d n = (Ok u, f') \<Longrightarrow>
      content f' = (content f)(d := (content f d)(n := Some (case content f d n of Some b \<Rightarrow> b | None \<Rightarrow> [])))"
    and open_err: "fs_open_append F f d n = (Err e, f') \<Longrightarrow> content f' = content f"
    and write_ok: "content f d n = Some b \<Longrightarrow> fs_write_all F f d n p = (Ok u, f') \<Longrightarrow>
      content f' = (content f)(d := (content f d)(n := Some (b @ p)))"
    and write_err: "content f d n = Some b \<Longrightarrow> fs_write_all F f d n p = (Err e, f') \<Longrightarrow>
      \<exists>k. content f' = (content f)(d := (content f d)(n := Some (b @ take k p)))"
    and read_dir: "fs_read_dir F f d = Ok es \<Longrightarrow> Ok n \<in> set es \<Longrightarrow> content f d n \<noteq> None"
    and remove_ok: "fs_remove_file F f d n = (Ok u, f') \<Longrightarrow>
      content f' = (content f)(d := (content f d)(n := None))"
    and remove_err: "fs_remove_file F f d n = (Err e, f') \<Longrightarrow> content f' = content f"
    and no_panic: "fst (fs_create_dir_all F f d) \<noteq> Panic" "fst (fs_open_append F f d n) \<noteq> Panic"
      "fst (fs_write_all F f d n p) \<noteq> Panic" "fst (fs_remove_file F f d n) \<noteq> Panic"

text \<open>Appending a list of records, all of which succeed.\<close>

fun wal_appends :: "'f fs_ops \<Rightarrow> 'f \<Rightarrow> WalWriter \<Rightarrow> (lsn \<times> bytes) list \<Rightarrow> (WalWriter \<times> 'f) option" where
  "wal_appends F f w [] = Some (w, f)"
| "wal_appends F f w ((l, p) # rs) =
     (case wal_append F f w l p of (Ok _, w, f) \<Rightarrow> wal_appends F f w rs | _ \<Rightarrow> None)"

text \<open>The segments of a log: the first holds the oldest records.\<close>

definition segments :: "('f \<Rightarrow> string \<Rightarrow> string \<Rightarrow> bytes option) \<Rightarrow> 'f \<Rightarrow> WalWriter \<Rightarrow> (lsn \<times> bytes) list list" where
  "segments content f w =
     map (\<lambda>k. case content f (wal_dir w) (segment_name (of_nat k)) of Some b \<Rightarrow> read_records b | None \<Rightarrow> [])
       [1..<Suc (unat (segment w))]"

definition wal_inv ::
    "('f \<Rightarrow> string \<Rightarrow> string \<Rightarrow> bytes option) \<Rightarrow> 'f \<Rightarrow> WalWriter \<Rightarrow> (lsn \<times> bytes) list list \<Rightarrow> bool" where
  "wal_inv content f w rss \<longleftrightarrow>
     length rss = unat (segment w)
     \<and> (\<forall>k < length rss. content f (wal_dir w) (segment_name (of_nat (Suc k))) = Some (concat (map wal_record (rss ! k))))
     \<and> (\<forall>n > segment w. content f (wal_dir w) (segment_name n) = None)
     \<and> current_file w = (if rss = [] then None else Some (segment_name (segment w)))
     \<and> list_all (list_all wal_ok) rss"

lemma segment_name_of_nat:
  assumes "a < 2 ^ 64" "b < 2 ^ 64"
  shows "segment_name (of_nat a) = segment_name (of_nat b) \<longleftrightarrow> a = b"
  using assms by (simp add: segment_name_inj word_unat_eq_iff unat_of_nat)

lemma of_nat_unat_eq: "unat (x :: u64) = n \<Longrightarrow> x = of_nat n"
  by auto

lemma wal_inv_segments:
  assumes "wal_inv content f w rss"
  shows "segments content f w = rss"
proof (rule nth_equalityI)
  show "length (segments content f w) = length rss" using assms by (simp add: segments_def wal_inv_def)
  fix i
  assume "i < length (segments content f w)"
  then have "i < length rss" using assms by (simp add: segments_def wal_inv_def del: upt_Suc)
  then show "segments content f w ! i = rss ! i"
    using assms by (simp add: segments_def wal_inv_def list_all_length read_all nth_append del: upt_Suc)
qed

lemma segments_update:
  assumes I: "wal_inv content f w rss" and j: "j < length rss"
    and c: "content f' (wal_dir w) = (content f (wal_dir w))(segment_name (of_nat (Suc j)) := Some b)"
    and w': "wal_dir w' = wal_dir w" "segment w' = segment w"
  shows "segments content f' w' = rss[j := read_records b]"
proof (rule nth_equalityI)
  have len: "length rss = unat (segment w)" using I by (simp add: wal_inv_def)
  then show "length (segments content f' w') = length (rss[j := read_records b])"
    using w' by (simp add: segments_def del: upt_Suc)
  fix i
  assume "i < length (segments content f' w')"
  then have i: "i < length rss" using w' len by (simp add: segments_def del: upt_Suc)
  have "segments content f' w' ! i =
      (case content f' (wal_dir w) (segment_name (of_nat (Suc i))) of Some b \<Rightarrow> read_records b | None \<Rightarrow> [])"
    using i len w' by (simp add: segments_def del: upt_Suc)
  moreover have "segments content f w ! i =
      (case content f (wal_dir w) (segment_name (of_nat (Suc i))) of Some b \<Rightarrow> read_records b | None \<Rightarrow> [])"
    using i len by (simp add: segments_def del: upt_Suc)
  moreover have "segment_name (of_nat (Suc i)) = segment_name (of_nat (Suc j)) \<longleftrightarrow> i = j"
    using i j len unat_less [of "segment w"] by (subst segment_name_of_nat) simp_all
  ultimately show "segments content f' w' ! i = rss[j := read_records b] ! i"
    using wal_inv_segments [OF I] i by (auto simp: c nth_list_update simp del: of_nat_Suc)
qed

lemma read_torn:
  assumes "wal_ok r"
  shows "read_records (take k (wal_record r)) \<in> {[], [r]}"
proof (cases "length (wal_record r) \<le> k")
  case True
  then show ?thesis using read_record [OF assms, of "[]"] by (simp add: read_records_Nil)
next
  case False
  have n: "unat (from_be_bytes (to_be_bytes (record_len (snd r))) :: u32) = 8 + length (snd r)"
    using record_len_unat [of "snd r"] assms by (simp add: wal_ok_def from_to_be_bytes)
  have "k < 12 + length (snd r)" using False by (simp add: wal_record_def)
  then have l: "length (take k (wal_record r)) < 4 + (8 + length (snd r))" by simp
  have "take 4 (take k (wal_record r)) = to_be_bytes (record_len (snd r))" if "\<not> k < 12"
    using that by (simp add: wal_record_def take_append)
  then show ?thesis
    using l by (subst read_records.simps) (simp add: n Let_def)
qed

lemma read_all_then: "list_all wal_ok rs \<Longrightarrow> read_records (concat (map wal_record rs) @ bs) = rs @ read_records bs"
  by (induction rs) (simp_all add: read_record)

context append_fs
begin

lemma write_parts_ok:
  assumes "write_parts F d n ps f = (Ok u, f')" and "content f d n = Some b"
  shows "content f' = (content f)(d := (content f d)(n := Some (b @ concat ps)))"
  using assms
proof (induction ps arbitrary: f b)
  case (Cons p ps)
  then obtain u1 f1 where w: "fs_write_all F f d n p = (Ok u1, f1)" "write_parts F d n ps f1 = (Ok u, f')"
    by (auto split: prod.splits rresult.splits)
  have c1: "content f1 = (content f)(d := (content f d)(n := Some (b @ p)))"
    by (rule write_ok [OF Cons.prems(2) w(1)])
  then have "content f1 d n = Some (b @ p)" by simp
  from Cons.IH [OF w(2) this] show ?case by (simp add: c1 fun_upd_def fun_eq_iff)
qed (simp add: fun_upd_idem)

lemma rotate_inv:
  assumes I: "wal_inv content f w rss" and r: "wal_rotate F f w = (Ok u, w', f')"
    and b: "unat (segment w) + 1 < 2 ^ 64"
  shows "wal_inv content f' w' (rss @ [[]]) \<and> wal_dir w' = wal_dir w"
proof -
  let ?n = "segment_name (segment w + 1)"
  obtain u1 where o: "fs_open_append F f (wal_dir w) ?n = (Ok u1, f')"
    and w': "w' = w\<lparr>segment := segment w + 1, current_file := Some ?n, segment_bytes := 0\<rparr>"
    using r by (auto simp: wal_rotate_def Let_def split: prod.splits rresult.splits)
  have s: "unat (segment w + 1) = Suc (unat (segment w))" and gt: "segment w < segment w + 1"
    and len: "length rss = unat (segment w)"
    using b I by (simp_all add: unat_word_ariths word_less_nat_alt wal_inv_def)
  have ls: "segment w + 1 = of_nat (Suc (length rss))" by (rule of_nat_unat_eq) (simp only: s len)
  have n: "content f (wal_dir w) ?n = None" using I gt by (simp add: wal_inv_def)
  have c: "content f' = (content f)(wal_dir w := (content f (wal_dir w))(?n := Some []))"
    using open_ok [OF o] n by simp
  have "content f' (wal_dir w) (segment_name (of_nat (Suc k))) = Some (concat (map wal_record ((rss @ [[]]) ! k)))"
    if "k < length (rss @ [[]])" for k
  proof (cases "k = length rss")
    case True
    then show ?thesis by (simp only: c ls) (simp add: nth_append)
  next
    case False
    then have k: "k < length rss" using that by simp
    then have "segment_name (of_nat (Suc k)) \<noteq> ?n" unfolding ls using b len by (subst segment_name_of_nat) simp_all
    then show ?thesis using I k by (simp add: c wal_inv_def nth_append)
  qed
  moreover have "content f' (wal_dir w) (segment_name m) = None" if "segment w + 1 < m" for m
    using that gt I by (auto simp: c wal_inv_def segment_name_inj)
  ultimately show ?thesis using I s by (simp add: w' wal_inv_def)
qed

lemma write_record_inv:
  assumes I: "wal_inv content f w (rss @ [rs])" and r: "write_record F f w l p = (Ok u, w', f')"
    and ok: "wal_ok (l, p)"
  shows "wal_inv content f' w' (rss @ [rs @ [(l, p)]]) \<and> wal_dir w' = wal_dir w"
proof -
  let ?n = "segment_name (segment w)" and ?b = "concat (map wal_record rs)"
  have cur: "current_file w = Some ?n" and len: "unat (segment w) = Suc (length rss)"
    using I by (simp_all add: wal_inv_def)
  have ls: "segment w = of_nat (Suc (length rss))" by (rule of_nat_unat_eq) (rule len)
  have b: "Suc (length rss) < 2 ^ 64" using len unat_less [of "segment w"] by simp
  obtain u1 where o: "write_parts F (wal_dir w) ?n [to_be_bytes (record_len p), lsn_to_be_bytes l, p] f = (Ok u1, f')"
    and w': "w' = w\<lparr>segment_bytes := segment_bytes w + (4 + 8 + of_nat (length p)), last_lsn := l\<rparr>"
    using r cur by (auto simp: write_record_def split: prod.splits rresult.splits)
  have "\<forall>k < length (rss @ [rs]). content f (wal_dir w) (segment_name (of_nat (Suc k))) = Some (concat (map wal_record ((rss @ [rs]) ! k)))"
    using I unfolding wal_inv_def by blast
  then have "content f (wal_dir w) ?n = Some ?b" unfolding ls by (metis length_append_singleton lessI nth_append_length)
  from write_parts_ok [OF o this]
  have c: "content f' = (content f)(wal_dir w := (content f (wal_dir w))(?n := Some (?b @ wal_record (l, p))))"
    by (simp add: wal_record_def)
  have "content f' (wal_dir w) (segment_name (of_nat (Suc k))) =
      Some (concat (map wal_record ((rss @ [rs @ [(l, p)]]) ! k)))" if "k < Suc (length rss)" for k
  proof (cases "k = length rss")
    case True
    then show ?thesis by (simp only: c ls) simp
  next
    case False
    then have k: "k < length rss" using that by simp
    then have "segment_name (of_nat (Suc k)) \<noteq> ?n" unfolding ls using b by (subst segment_name_of_nat) simp_all
    then show ?thesis using I k by (simp add: c wal_inv_def nth_append)
  qed
  moreover have "content f' (wal_dir w) (segment_name m) = None" if "segment w < m" for m
    using that I by (auto simp: c wal_inv_def segment_name_inj)
  ultimately show ?thesis using I ok by (simp add: w' wal_inv_def)
qed

lemma append_inv:
  assumes I: "wal_inv content f w rss" and r: "wal_append F f w l p = (Ok u, w', f')"
    and ok: "wal_ok (l, p)" and b: "unat (segment w) + 1 < 2 ^ 64"
  shows "\<exists>rss'. wal_inv content f' w' rss' \<and> concat rss' = concat rss @ [(l, p)]
    \<and> wal_dir w' = wal_dir w \<and> length rss' \<le> Suc (length rss)"
proof (cases "current_file w = None \<or> segment_bytes w \<ge> max_segment_bytes w")
  case True
  then obtain u1 w1 f1 where ro: "wal_rotate F f w = (Ok u1, w1, f1)" and wr: "write_record F f1 w1 l p = (Ok u, w', f')"
    using r by (auto simp: wal_append_def split: prod.splits rresult.splits)
  from rotate_inv [OF I ro b] have "wal_inv content f1 w1 (rss @ [[]])" "wal_dir w1 = wal_dir w" by simp_all
  with write_record_inv [OF _ wr ok, of rss "[]"] show ?thesis by (intro exI [of _ "rss @ [[(l, p)]]"]) simp
next
  case False
  then have "rss \<noteq> []" using I by (auto simp: wal_inv_def)
  then obtain rss1 rs where rss: "rss = rss1 @ [rs]" by (metis append_butlast_last_id)
  have wr: "write_record F f w l p = (Ok u, w', f')" using False r by (simp only: wal_append_def if_False)
  from write_record_inv [OF I [unfolded rss] wr ok] show ?thesis
    by (intro exI [of _ "rss1 @ [rs @ [(l, p)]]"]) (simp add: rss)
qed

lemma appends_inv:
  assumes "wal_inv content f w rss" and "wal_appends F f w rs = Some (w', f')"
    and "list_all wal_ok rs" and "unat (segment w) + length rs < 2 ^ 64"
  shows "\<exists>rss'. wal_inv content f' w' rss' \<and> concat rss' = concat rss @ rs"
  using assms
proof (induction rs arbitrary: f w rss)
  case (Cons r rs)
  obtain l p where lp: "r = (l, p)" by (cases r)
  obtain u w1 f1 where a: "wal_append F f w l p = (Ok u, w1, f1)" "wal_appends F f1 w1 rs = Some (w', f')"
    using Cons.prems(2) by (auto simp: lp split: prod.splits rresult.splits)
  from append_inv [OF Cons.prems(1) a(1)] Cons.prems(3,4) obtain rss1
    where I: "wal_inv content f1 w1 rss1" "concat rss1 = concat rss @ [(l, p)]" "length rss1 \<le> Suc (length rss)"
    by (auto simp: lp)
  have "unat (segment w1) + length rs < 2 ^ 64"
    using I(1,3) Cons.prems(1,4) by (simp add: wal_inv_def)
  from Cons.IH [OF I(1) a(2) _ this] Cons.prems(3) I(2) show ?case by (auto simp: lp)
qed auto

lemma write_parts_err:
  assumes "write_parts F d n ps f = (Err e, f')" and "content f d n = Some b"
  shows "\<exists>k. content f' = (content f)(d := (content f d)(n := Some (b @ take k (concat ps))))"
  using assms
proof (induction ps arbitrary: f b)
  case (Cons p ps)
  show ?case
  proof (cases "fst (fs_write_all F f d n p)")
    case (Ok u1)
    then obtain f1 where w: "fs_write_all F f d n p = (Ok u1, f1)" by (cases "fs_write_all F f d n p") auto
    have c1: "content f1 = (content f)(d := (content f d)(n := Some (b @ p)))"
      by (rule write_ok [OF Cons.prems(2) w])
    have "write_parts F d n ps f1 = (Err e, f')" using Cons.prems(1) w by simp
    moreover have "content f1 d n = Some (b @ p)" using c1 by simp
    ultimately obtain k where
      "content f' = (content f1)(d := (content f1 d)(n := Some ((b @ p) @ take k (concat ps))))"
      using Cons.IH by blast
    then show ?thesis by (intro exI [of _ "length p + k"]) (simp add: c1 fun_upd_def fun_eq_iff)
  next
    case (Err e1)
    then obtain f1 where w: "fs_write_all F f d n p = (Err e1, f1)" by (cases "fs_write_all F f d n p") auto
    have "f1 = f'" using Cons.prems(1) w by simp
    with write_err [OF Cons.prems(2) w] obtain k where
      k: "content f' = (content f)(d := (content f d)(n := Some (b @ take k p)))" by blast
    have "take k p = take (min k (length p)) (concat (p # ps))" by (simp add: min_def)
    with k show ?thesis by (intro exI [of _ "min k (length p)"]) (simp only:)
  qed (use no_panic(3) in blast)
qed simp

lemma write_record_err:
  assumes I: "wal_inv content f w (rss @ [rs])" and r: "write_record F f w l p = (Err e, w', f')"
    and ok: "wal_ok (l, p)"
  shows "concat (segments content f' w') \<in> {concat rss @ rs, concat rss @ rs @ [(l, p)]}"
proof -
  let ?n = "segment_name (segment w)"
  have cur: "current_file w = Some ?n" and len: "unat (segment w) = Suc (length rss)"
    using I by (simp_all add: wal_inv_def)
  have ls: "segment w = of_nat (Suc (length rss))" by (rule of_nat_unat_eq) (rule len)
  have o: "write_parts F (wal_dir w) ?n [to_be_bytes (record_len p), lsn_to_be_bytes l, p] f = (Err e, f')"
    and w': "w' = w"
    using r cur by (auto simp: write_record_def split: prod.splits rresult.splits)
  have "\<forall>k < length (rss @ [rs]). content f (wal_dir w) (segment_name (of_nat (Suc k))) = Some (concat (map wal_record ((rss @ [rs]) ! k)))"
    using I unfolding wal_inv_def by blast
  then have "content f (wal_dir w) ?n = Some (concat (map wal_record rs))"
    unfolding ls by (metis length_append_singleton lessI nth_append_length)
  from write_parts_err [OF o this] obtain k where
    "content f' (wal_dir w) = (content f (wal_dir w))(?n := Some (concat (map wal_record rs) @ take k (wal_record (l, p))))"
    by (auto simp: wal_record_def)
  from segments_update [OF I _ this [unfolded ls], of w'] w'
  have "segments content f' w' = rss @ [read_records (concat (map wal_record rs) @ take k (wal_record (l, p)))]"
    by simp
  moreover have "list_all wal_ok rs" using I by (simp add: wal_inv_def)
  ultimately show ?thesis using read_torn [OF ok, of k] by (auto simp: read_all_then)
qed

lemma append_err:
  assumes I: "wal_inv content f w rss" and r: "wal_append F f w l p = (Err e, w', f')"
    and ok: "wal_ok (l, p)" and b: "unat (segment w) + 1 < 2 ^ 64"
  shows "concat (segments content f' w') \<in> {concat rss, concat rss @ [(l, p)]}"
proof (cases "current_file w = None \<or> segment_bytes w \<ge> max_segment_bytes w")
  case True
  show ?thesis
  proof (cases "fst (wal_rotate F f w)")
    case (Ok u1)
    then obtain w1 f1 where ro: "wal_rotate F f w = (Ok u1, w1, f1)" by (cases "wal_rotate F f w") auto
    then have wr: "write_record F f1 w1 l p = (Err e, w', f')" using r True by (simp add: wal_append_def)
    from rotate_inv [OF I ro b] have "wal_inv content f1 w1 (rss @ [[]])" by simp
    from write_record_err [OF this wr ok] show ?thesis by simp
  next
    case (Err e1)
    then have "wal_rotate F f w = (Err e, w', f')" using r True
      by (auto simp: wal_append_def split: prod.splits rresult.splits)
    then have o: "fs_open_append F f (wal_dir w) (segment_name (segment w + 1)) = (Err e, f')"
      and w': "w' = w\<lparr>segment := segment w + 1\<rparr>"
      by (auto simp: wal_rotate_def Let_def split: prod.splits rresult.splits)
    have s: "unat (segment w + 1) = Suc (unat (segment w))" and gt: "segment w < segment w + 1"
      using b by (simp_all add: unat_word_ariths word_less_nat_alt)
    have ls: "segment w + 1 = of_nat (Suc (unat (segment w)))" by (rule of_nat_unat_eq) (rule s)
    have "content f (wal_dir w) (segment_name (segment w + 1)) = None" using I gt by (simp add: wal_inv_def)
    then have "segments content f' w' = segments content f w @ [[]]"
      by (simp add: segments_def w' s open_err [OF o] ls [symmetric] del: of_nat_Suc)
    then show ?thesis by (simp add: wal_inv_segments [OF I])
  next
    case Panic
    then show ?thesis using r True by (auto simp: wal_append_def split: prod.splits rresult.splits)
  qed
next
  case False
  then have "rss \<noteq> []" using I by (auto simp: wal_inv_def)
  then obtain rss1 rs where rss: "rss = rss1 @ [rs]" by (metis append_butlast_last_id)
  have "write_record F f w l p = (Err e, w', f')" using False r by (simp only: wal_append_def if_False)
  from write_record_err [OF I [unfolded rss] this ok] show ?thesis by (simp add: rss)
qed

lemma restart_first_segment:
  assumes I: "wal_inv content f w (rs # rss)"
    and new: "wal_new F f (wal_dir w) mx = (Ok w1, f1)"
    and r: "wal_append F f1 w1 l p = (Ok u, w2, f2)" and ok: "wal_ok (l, p)"
  shows "segments content f2 w = (rs @ [(l, p)]) # rss"
proof -
  let ?n = "segment_name 1" and ?b = "concat (map wal_record rs)"
  have c1: "content f1 = content f"
    using new create_dir by (auto simp: wal_new_def split: prod.splits rresult.splits)
  have w1: "current_file w1 = None" "segment w1 = 0" "wal_dir w1 = wal_dir w"
    using new by (auto simp: wal_new_def split: prod.splits rresult.splits)
  then obtain u3 w3 f3 where ro: "wal_rotate F f1 w1 = (Ok u3, w3, f3)" and wr: "write_record F f3 w3 l p = (Ok u, w2, f2)"
    using r by (auto simp: wal_append_def split: prod.splits rresult.splits)
  have o: "fs_open_append F f1 (wal_dir w) ?n = (Ok (), f3)" and w3: "current_file w3 = Some ?n" "wal_dir w3 = wal_dir w"
    using ro w1 by (auto simp: wal_rotate_def Let_def split: prod.splits rresult.splits)
  have "content f (wal_dir w) ?n = Some ?b" using I by (auto simp: wal_inv_def dest!: spec [of _ 0])
  then have c3: "content f3 = content f" using open_ok [OF o] by (simp add: c1 fun_upd_idem)
  have "write_parts F (wal_dir w) ?n [to_be_bytes (record_len p), lsn_to_be_bytes l, p] f3 = (Ok (), f2)"
    using wr w3 by (auto simp: write_record_def split: prod.splits rresult.splits)
  from write_parts_ok [OF this, of ?b] \<open>content f (wal_dir w) ?n = Some ?b\<close>
  have "content f2 (wal_dir w) = (content f (wal_dir w))(segment_name (of_nat (Suc 0)) := Some (?b @ wal_record (l, p)))"
    by (simp add: c3 wal_record_def)
  from segments_update [OF I _ this, of w] have "segments content f2 w = read_records (?b @ wal_record (l, p)) # rss"
    by simp
  moreover have "list_all wal_ok rs" using I by (simp add: wal_inv_def)
  ultimately show ?thesis
    using read_record [OF ok, of "[]"] by (simp add: read_all_then read_records_Nil)
qed

lemma gc_entries_content:
  assumes "gc_entries F w es n f = (r, f')"
  shows "content f' d name = content f d name \<or>
    d = wal_dir w \<and> is_old_segment w name \<and> content f' d name = None"
  using assms
proof (induction es arbitrary: n f)
  case (Cons e es)
  show ?case
  proof (cases "\<exists>x. e = Ok x \<and> is_old_segment w x")
    case True
    then obtain x where x: "e = Ok x" "is_old_segment w x" by blast
    obtain r1 f1 where rm: "fs_remove_file F f (wal_dir w) x = (r1, f1)" by (cases "fs_remove_file F f (wal_dir w) x")
    show ?thesis
    proof (cases r1)
      case (Ok u)
      have c: "content f1 = (content f)(wal_dir w := (content f (wal_dir w))(x := None))"
        by (rule remove_ok [OF rm [unfolded Ok]])
      have "gc_entries F w es (n + 1) f1 = (r, f')" using Cons.prems x rm Ok by simp
      from Cons.IH [OF this] show ?thesis using x(2) by (auto simp: c split: if_splits)
    next
      case (Err y)
      then have "f' = f1" using Cons.prems x rm by simp
      then show ?thesis using remove_err [OF rm [unfolded Err]] by simp
    qed (use no_panic(4) [of f "wal_dir w" x] rm in simp)
  next
    case False
    then show ?thesis using Cons by (cases e) auto
  qed
qed simp

lemma gc_entries_removes:
  assumes "gc_entries F w es n f = (Ok r, f')" and "Ok name \<in> set es" and "is_old_segment w name"
  shows "content f' (wal_dir w) name = None"
  using assms
proof (induction es arbitrary: n f)
  case (Cons e es)
  show ?case
  proof (cases "e = Ok name")
    case True
    obtain r1 f1 where rm: "fs_remove_file F f (wal_dir w) name = (r1, f1)"
      by (cases "fs_remove_file F f (wal_dir w) name")
    then obtain u where u: "r1 = Ok u" using Cons.prems True by (cases r1) simp_all
    then have "content f1 (wal_dir w) name = None" using remove_ok rm by simp
    moreover have "gc_entries F w es (n + 1) f1 = (Ok r, f')" using Cons.prems True rm u by simp
    ultimately show ?thesis using gc_entries_content [of w es "n + 1" f1 "Ok r" f' "wal_dir w" name] by auto
  next
    case False
    then have m: "Ok name \<in> set es" using Cons.prems(2) by simp
    obtain n1 f1 where "gc_entries F w es n1 f1 = (Ok r, f')"
      using Cons.prems(1) by (cases e) (auto split: if_splits prod.splits rresult.splits)
    then show ?thesis using Cons.IH m Cons.prems(3) by blast
  qed
qed simp

end

subsection \<open>A file system in memory\<close>

type_synonym mem_files = "((string \<times> string) \<times> bytes) list"

definition mem_fs :: "mem_files fs_ops" where
  "mem_fs = \<lparr>fs_create_dir_all = \<lambda>f d. (Ok (), f),
     fs_open_append = \<lambda>f d n. (Ok (), if map_of f (d, n) = None then ((d, n), []) # f else f),
     fs_write_all = \<lambda>f d n p.
       (case map_of f (d, n) of Some b \<Rightarrow> (Ok (), AList.update (d, n) (b @ p) f) | None \<Rightarrow> (Err ''closed'', f)),
     fs_sync_all = \<lambda>f d n. (Ok (), f),
     fs_read_dir = \<lambda>f d. Ok [Ok (snd k). (k, b) \<leftarrow> f, fst k = d],
     fs_remove_file = \<lambda>f d n.
       (if map_of f (d, n) = None then (Err ''missing'', f) else (Ok (), AList.delete (d, n) f))\<rparr>"

definition mem_file :: "mem_files \<Rightarrow> string \<Rightarrow> string \<Rightarrow> bytes option" where
  "mem_file f d n = map_of f (d, n)"

interpretation mem_files: append_fs mem_fs mem_file
proof
  fix f d n p r u e b es and f' :: mem_files
  show "fs_create_dir_all mem_fs f d = (r, f') \<Longrightarrow> mem_file f' = mem_file f" by (simp add: mem_fs_def)
  show "fs_open_append mem_fs f d n = (Ok u, f') \<Longrightarrow>
      mem_file f' = (mem_file f)(d := (mem_file f d)(n := Some (case mem_file f d n of Some b \<Rightarrow> b | None \<Rightarrow> [])))"
    by (auto simp: mem_fs_def mem_file_def fun_eq_iff split: option.splits if_splits)
  show "fs_open_append mem_fs f d n = (Err e, f') \<Longrightarrow> mem_file f' = mem_file f" by (simp add: mem_fs_def)
  show "mem_file f d n = Some b \<Longrightarrow> fs_write_all mem_fs f d n p = (Ok u, f') \<Longrightarrow>
      mem_file f' = (mem_file f)(d := (mem_file f d)(n := Some (b @ p)))"
    by (auto simp: mem_fs_def mem_file_def fun_eq_iff update_conv)
  show "mem_file f d n = Some b \<Longrightarrow> fs_write_all mem_fs f d n p = (Err e, f') \<Longrightarrow>
      \<exists>k. mem_file f' = (mem_file f)(d := (mem_file f d)(n := Some (b @ take k p)))"
    by (simp add: mem_fs_def mem_file_def)
  show "fs_read_dir mem_fs f d = Ok es \<Longrightarrow> Ok n \<in> set es \<Longrightarrow> mem_file f d n \<noteq> None"
    by (auto simp: mem_fs_def mem_file_def map_of_eq_None_iff split: if_splits) (metis fst_conv imageI)
  show "fs_remove_file mem_fs f d n = (Ok u, f') \<Longrightarrow>
      mem_file f' = (mem_file f)(d := (mem_file f d)(n := None))"
    by (auto simp: mem_fs_def mem_file_def fun_eq_iff delete_conv split: if_splits)
  show "fs_remove_file mem_fs f d n = (Err e, f') \<Longrightarrow> mem_file f' = mem_file f"
    by (auto simp: mem_fs_def split: if_splits)
qed (simp_all add: mem_fs_def split: option.splits)

definition demo_records :: "(lsn \<times> bytes) list" where
  "demo_records = [(Lsn 1, [10]), (Lsn 2, [20])]"

definition demo_log :: "WalWriter \<times> mem_files" where
  "demo_log = the (wal_appends mem_fs [] \<lparr>wal_dir = ''d'', current_file = None, segment = 0,
     segment_bytes = 0, max_segment_bytes = 0, last_lsn = lsn_zero\<rparr> demo_records)"

subsection \<open>Properties\<close>

lemma wal_inv_new:
  assumes "append_fs F content" and "wal_new F f dir mx = (Ok w, f0)"
    and "\<And>n. content f dir (segment_name n) = None"
  shows "wal_inv content f0 w []" and "segment w = 0" and "wal_dir w = dir"
  using assms append_fs.create_dir [OF assms(1)]
  by (auto simp: wal_new_def wal_inv_def split: prod.splits rresult.splits)

lemma wal_inv_appends:
  assumes "append_fs F content" and "wal_new F f dir mx = (Ok w, f0)"
    and "\<And>n. content f dir (segment_name n) = None"
    and "wal_appends F f0 w rs = Some (w', f')" and "list_all wal_ok rs" and "length rs < 2 ^ 64"
  obtains rss where "wal_inv content f' w' rss" "concat rss = rs"
  using append_fs.appends_inv [OF assms(1) wal_inv_new(1) [OF assms(1-3)] assms(4,5)]
    wal_inv_new(2) [OF assms(1-3)] assms(6) by auto

text \<open>
  C8. The write-ahead log can be replayed. In a directory without segments, when a sequence of
  records has been appended, over any number of rotations, reading the segments in order gives
  exactly these records in this order; and when the next append then fails, whichever part of it
  reached the disk, reading still gives all of them, followed at most by the record that failed.
  A record is below 4 GiB and there are fewer than 2^64 - 1 of them.
\<close>

theorem wal_replays:
  assumes "append_fs F content" and "wal_new F f dir mx = (Ok w, f0)"
    and "\<And>n. content f dir (segment_name n) = None"
    and "wal_appends F f0 w rs = Some (w', f')" and "list_all wal_ok rs" and "length rs < 2 ^ 64"
  shows "concat (segments content f' w') = rs \<and>
    (\<forall>l p e w2 f2. wal_append F f' w' l p = (Err e, w2, f2) \<and> wal_ok (l, p) \<and> unat (segment w') + 1 < 2 ^ 64 \<longrightarrow>
       concat (segments content f2 w2) \<in> {rs, rs @ [(l, p)]})"
proof -
  obtain rss where I: "wal_inv content f' w' rss" and c: "concat rss = rs" using wal_inv_appends [OF assms] .
  show ?thesis using append_fs.append_err [OF assms(1) I] wal_inv_segments [OF I] c by auto
qed

theorem wal_replays_witness:
  "concat (segments mem_file (snd demo_log) (fst demo_log)) = demo_records"
proof -
  let ?w = "\<lparr>wal_dir = ''d'', current_file = None, segment = 0, segment_bytes = 0,
     max_segment_bytes = 0, last_lsn = lsn_zero\<rparr>"
  have "wal_new mem_fs [] ''d'' 0 = (Ok ?w, [])" by (simp add: wal_new_def mem_fs_def)
  moreover have "wal_appends mem_fs [] ?w demo_records \<noteq> None" by code_simp
  then have "wal_appends mem_fs [] ?w demo_records = Some (fst demo_log, snd demo_log)"
    by (auto simp: demo_log_def)
  ultimately show ?thesis
    using wal_replays [OF mem_files.append_fs_axioms, of "[]" "''d''" 0 ?w "[]" demo_records]
    by (simp add: mem_file_def demo_records_def wal_ok_def)
qed

text \<open>
  Collecting segments touches nothing but old segments: a file the collector changes is one it
  removes, and it lies in the log directory under the name of a segment at least three behind
  the current one. When it succeeds, every such segment the directory lists is gone, whatever
  the watermark it was given: records above the watermark go with it.
\<close>

theorem gc_removes_by_age:
  assumes "append_fs F content" and "gc_segments F f w watermark = (r, f')"
  shows "(content f' d name = content f d name \<or>
      d = wal_dir w \<and> content f' d name = None \<and> (\<forall>n. name = segment_name n \<longrightarrow> n + 2 < segment w)) \<and>
    (\<forall>k es n. r = Ok k \<and> fs_read_dir F f (wal_dir w) = Ok es \<and> Ok (segment_name n) \<in> set es \<and> n + 2 < segment w \<longrightarrow>
       content f' (wal_dir w) (segment_name n) = None)"
proof (cases "fs_read_dir F f (wal_dir w)")
  case (Ok es)
  then have g: "gc_entries F w es 0 f = (r, f')" using assms(2) by (simp add: gc_segments_def)
  show ?thesis
    using append_fs.gc_entries_content [OF assms(1) g, of d name]
      append_fs.gc_entries_removes [OF assms(1), of w es 0 f _ f'] g Ok
    by (auto simp: segment_name_old)
qed (use assms(2) in \<open>auto simp: gc_segments_def\<close>)

definition gc_writer :: WalWriter where
  "gc_writer = \<lparr>wal_dir = ''d'', current_file = Some (segment_name 4), segment = 4,
     segment_bytes = 0, max_segment_bytes = 0, last_lsn = Lsn 9\<rparr>"

definition gc_files :: mem_files where
  "gc_files = [((''d'', segment_name 1), wal_record (Lsn 5, [])), ((''d'', segment_name 4), [])]"

theorem gc_removes_by_age_witness:
  "mem_file gc_files ''d'' (segment_name 1) = Some (wal_record (Lsn 5, [])) \<and>
   mem_file (snd (gc_segments mem_fs gc_files gc_writer lsn_zero)) ''d'' (segment_name 1) = None"
proof -
  let ?g = "gc_segments mem_fs gc_files gc_writer lsn_zero"
  have es: "fs_read_dir mem_fs gc_files ''d'' = Ok [Ok (segment_name 1), Ok (segment_name 4)]"
    by (simp add: mem_fs_def gc_files_def)
  have d: "wal_dir gc_writer = ''d''" "segment gc_writer = 4" by (simp_all add: gc_writer_def)
  have ok: "fst ?g = Ok 1"
    by (simp add: gc_segments_def d es segment_name_old) (simp add: mem_fs_def gc_files_def segment_name_inj segment_name_old d)
  have "\<forall>k es n. fst ?g = Ok k \<and> fs_read_dir mem_fs gc_files (wal_dir gc_writer) = Ok es \<and>
      Ok (segment_name n) \<in> set es \<and> n + 2 < segment gc_writer \<longrightarrow>
      mem_file (snd ?g) (wal_dir gc_writer) (segment_name n) = None"
    by (rule gc_removes_by_age [OF mem_files.append_fs_axioms, THEN conjunct2]) (rule prod.collapse [symmetric])
  then have "mem_file (snd ?g) ''d'' (segment_name 1) = None"
    by (elim allE [of _ 1] allE [of _ "[Ok (segment_name 1), Ok (segment_name 4)]"])
      (simp add: d es ok)
  then show ?thesis by (simp add: mem_file_def gc_files_def)
qed

text \<open>
  C37. A restarted writer does not continue the log but starts at its first segment again: the
  next record is appended there, so reading the segments in order gives it before every record
  the log holds in later segments.
\<close>

theorem restart_reorders:
  assumes "append_fs F content" and "wal_new F f dir mx = (Ok w, f0)"
    and "\<And>n. content f dir (segment_name n) = None"
    and "wal_appends F f0 w rs = Some (w', f')" and "list_all wal_ok rs" and "length rs < 2 ^ 64" and "rs \<noteq> []"
    and "wal_new F f' (wal_dir w') mx = (Ok w1, f1)" and "wal_append F f1 w1 l p = (Ok u, w2, f2)"
    and "wal_ok (l, p)"
  shows "segments content f2 w' = (hd (segments content f' w') @ [(l, p)]) # tl (segments content f' w')"
proof -
  obtain rss where I: "wal_inv content f' w' rss" and c: "concat rss = rs" using wal_inv_appends [OF assms(1-6)] .
  then obtain r rss1 where r: "rss = r # rss1" using assms(7) by (cases rss) auto
  show ?thesis
    using append_fs.restart_first_segment [OF assms(1) I [unfolded r] assms(8-10)] wal_inv_segments [OF I] r by simp
qed

definition restart_demo :: mem_files where
  "restart_demo = (case wal_new mem_fs (snd demo_log) ''d'' 0 of
     (Ok w, f) \<Rightarrow> snd (snd (wal_append mem_fs f w (Lsn 3) [30])) | (_, f) \<Rightarrow> f)"

theorem restart_reorders_witness:
  "concat (segments mem_file restart_demo (fst demo_log)) = [(Lsn 1, [10]), (Lsn 3, [30]), (Lsn 2, [20])]"
proof -
  let ?w = "\<lparr>wal_dir = ''d'', current_file = None, segment = 0, segment_bytes = 0,
     max_segment_bytes = 0, last_lsn = lsn_zero\<rparr>"
  let ?a = "wal_append mem_fs (snd demo_log) ?w (Lsn 3) [30]"
  have n: "wal_new mem_fs f ''d'' 0 = (Ok ?w, f)" for f by (simp add: wal_new_def mem_fs_def)
  have "wal_appends mem_fs [] ?w demo_records \<noteq> None" by code_simp
  then have a: "wal_appends mem_fs [] ?w demo_records = Some (fst demo_log, snd demo_log)"
    by (auto simp: demo_log_def)
  have d: "wal_dir (fst demo_log) = ''d''" by code_simp
  have n2: "wal_new mem_fs (snd demo_log) (wal_dir (fst demo_log)) 0 = (Ok ?w, snd demo_log)" by (simp only: d n)
  have "fst ?a = Ok ()" by code_simp
  then have r: "?a = (Ok (), fst (snd ?a), restart_demo)" by (simp add: restart_demo_def n prod_eq_iff)
  have "segments mem_file (snd demo_log) (fst demo_log) = [[(Lsn 1, [10])], [(Lsn 2, [20])]]" by code_simp
  then show ?thesis
    using restart_reorders [OF mem_files.append_fs_axioms n _ a _ _ _ n2 r]
    by (simp add: mem_file_def demo_records_def wal_ok_def)
qed

end
