(* ===== verification/Webhook.thy ===== *)
theory Webhook
  imports Schema Event Config F64
begin

text \<open>
  The webhook egress, \<open>src/http/src/egress/webhook\<close>: batcher, circuit breaker, dead letter queue,
  retry policy, dispatcher and connection pool. \<open>reqwest\<close> is the parameter \<open>H\<close>: building a client
  may fail, and sending a request gives the status or an error. Clock readings are arguments.
\<close>

subsection \<open>The batcher\<close>

record WebhookBatcher =
  max_batch_size :: usize
  max_linger :: nanos
  wb_buffer :: "ChangeEvent list"

text \<open>A capacity of more than \<open>isize::MAX\<close> bytes panics; \<open>sz\<close> is the size of an element.\<close>

definition with_capacity :: "nat \<Rightarrow> usize \<Rightarrow> ('a list, 'e) rresult" where
  "with_capacity sz n = (if unat n * sz > 2 ^ 63 - 1 then Panic else Ok [])"

definition batcher_new :: "nat \<Rightarrow> usize \<Rightarrow> nanos \<Rightarrow> (WebhookBatcher, 'e) rresult" where
  "batcher_new sz n linger = and_then (with_capacity sz n)
     (\<lambda>buf. Ok \<lparr>max_batch_size = n, max_linger = linger, wb_buffer = buf\<rparr>)"

definition millis :: "u64 \<Rightarrow> nanos" where
  "millis ms = unat ms * 1000000"

definition batcher_from_target :: "nat \<Rightarrow> WebhookTarget \<Rightarrow> (WebhookBatcher, 'e) rresult" where
  "batcher_from_target sz target = batcher_new sz (wt_batch_size target) (millis (wt_linger_ms target))"

definition batcher_push :: "ChangeEvent \<Rightarrow> WebhookBatcher \<Rightarrow> WebhookBatcher" where
  "batcher_push event b = b\<lparr>wb_buffer := wb_buffer b @ [event]\<rparr>"

definition batcher_is_full :: "WebhookBatcher \<Rightarrow> bool" where
  "batcher_is_full b \<longleftrightarrow> of_nat (length (wb_buffer b)) \<ge> max_batch_size b"

definition batcher_drain :: "nat \<Rightarrow> WebhookBatcher \<Rightarrow> (ChangeEvent list \<times> WebhookBatcher, 'e) rresult" where
  "batcher_drain sz b = and_then (with_capacity sz (max_batch_size b))
     (\<lambda>buf. Ok (wb_buffer b, b\<lparr>wb_buffer := buf\<rparr>))"

subsection \<open>The circuit breaker\<close>

datatype CircuitState = Closed | Open | HalfOpen

record CircuitBreaker =
  cb_state :: CircuitState
  failure_count :: u32
  failure_threshold :: u32
  recovery_timeout :: nanos
  opened_at :: "nanos option"

definition breaker_new :: "u32 \<Rightarrow> nanos \<Rightarrow> CircuitBreaker" where
  "breaker_new threshold timeout =
     \<lparr>cb_state = Closed, failure_count = 0, failure_threshold = threshold,
      recovery_timeout = timeout, opened_at = None\<rparr>"

definition allow_request :: "nanos \<Rightarrow> CircuitBreaker \<Rightarrow> bool \<times> CircuitBreaker" where
  "allow_request now b =
     (case cb_state b of
        Closed \<Rightarrow> (True, b)
      | Open \<Rightarrow>
          (case opened_at b of
             Some t \<Rightarrow> if now - t \<ge> recovery_timeout b then (True, b\<lparr>cb_state := HalfOpen\<rparr>) else (False, b)
           | None \<Rightarrow> (False, b))
      | HalfOpen \<Rightarrow> (False, b))"

definition on_success :: "CircuitBreaker \<Rightarrow> CircuitBreaker" where
  "on_success b =
     (case cb_state b of
        HalfOpen \<Rightarrow> b\<lparr>cb_state := Closed, failure_count := 0, opened_at := None\<rparr>
      | _ \<Rightarrow> b\<lparr>failure_count := 0\<rparr>)"

definition on_failure :: "nanos \<Rightarrow> CircuitBreaker \<Rightarrow> CircuitBreaker" where
  "on_failure now b =
     (let b = b\<lparr>failure_count := failure_count b + 1\<rparr>
      in case cb_state b of
           Closed \<Rightarrow> if failure_count b \<ge> failure_threshold b
                     then b\<lparr>cb_state := Open, opened_at := Some now\<rparr> else b
         | HalfOpen \<Rightarrow> b\<lparr>cb_state := Open, opened_at := Some now\<rparr>
         | Open \<Rightarrow> b)"

subsection \<open>The dead letter queue\<close>

record DlqEntry =
  dlq_event :: ChangeEvent
  dlq_error :: string
  dlq_attempts :: u32
  timestamp_us :: u64

record DeadLetterQueue =
  dlq_queue :: "DlqEntry list"
  max_size :: usize
  total_entries :: u64

definition dlq_new :: "nat \<Rightarrow> usize \<Rightarrow> (DeadLetterQueue, 'e) rresult" where
  "dlq_new sz n = and_then (with_capacity sz n)
     (\<lambda>q. Ok \<lparr>dlq_queue = q, max_size = n, total_entries = 0\<rparr>)"

text \<open>\<open>now\<close> is the time since the epoch; a clock before it gives zero.\<close>

definition dlq_push :: "nanos \<Rightarrow> ChangeEvent \<Rightarrow> string \<Rightarrow> u32 \<Rightarrow> DeadLetterQueue \<Rightarrow> DeadLetterQueue" where
  "dlq_push now event error attempts q =
     (let queue = (if of_nat (length (dlq_queue q)) \<ge> max_size q then drop 1 (dlq_queue q) else dlq_queue q);
          entry = \<lparr>dlq_event = event, dlq_error = error, dlq_attempts = attempts,
                   timestamp_us = of_nat (now div 1000)\<rparr>
      in q\<lparr>dlq_queue := queue @ [entry], total_entries := total_entries q + 1\<rparr>)"

definition drain_all :: "DeadLetterQueue \<Rightarrow> DlqEntry list \<times> DeadLetterQueue" where
  "drain_all q = (dlq_queue q, q\<lparr>dlq_queue := []\<rparr>)"

subsection \<open>The retry policy\<close>

record RetryPolicy =
  max_attempts :: u32
  initial_backoff :: nanos
  max_backoff :: nanos
  multiplier :: f64

definition retry_new :: "u32 \<Rightarrow> nanos \<Rightarrow> RetryPolicy" where
  "retry_new n initial =
     \<lparr>max_attempts = n, initial_backoff = initial, max_backoff = 60 * 1000000000, multiplier = Fin 2\<rparr>"

definition retry_from_target :: "WebhookTarget \<Rightarrow> RetryPolicy" where
  "retry_from_target target = retry_new (retry_max_attempts target) (millis 500)"

text \<open>\<open>Duration::mul_f64\<close>\<close>

definition mul_f64 :: "nanos \<Rightarrow> f64 \<Rightarrow> (nanos, 'e) rresult" where
  "mul_f64 d x = from_secs_f64 (f64_mul x (as_secs_f64 d))"

definition backoff_for :: "RetryPolicy \<Rightarrow> u32 \<Rightarrow> (nanos, 'e) rresult" where
  "backoff_for p attempt = and_then (mul_f64 (initial_backoff p) (f64_powi (multiplier p) attempt))
     (\<lambda>backoff. Ok (min backoff (max_backoff p)))"

definition should_retry :: "RetryPolicy \<Rightarrow> u32 \<Rightarrow> bool" where
  "should_retry p attempt \<longleftrightarrow> attempt + 1 < max_attempts p"

subsection \<open>The dispatcher and the connection pool\<close>

record http_settings =
  hs_timeout :: nanos
  hs_pool_max_idle :: usize
  hs_pool_idle_timeout :: "nanos option"
  hs_tcp_keepalive :: "nanos option"

record http_request =
  hr_url :: string
  hr_headers :: "(string \<times> string) list"
  hr_body :: string

record ('h, 'n) http_ops =
  http_build :: "http_settings \<Rightarrow> ('h, string) rresult"
  http_post :: "'h \<Rightarrow> 'n \<Rightarrow> http_request \<Rightarrow> (u16, string) rresult \<times> 'n"

record 'h WebhookDispatcher =
  wd_client :: 'h
  wd_url :: string
  wd_signing_secret :: "string option"

definition dispatcher_new :: "('h, 'n) http_ops \<Rightarrow> string \<Rightarrow> nanos \<Rightarrow> string option \<Rightarrow> ('h WebhookDispatcher, string) rresult" where
  "dispatcher_new H url timeout secret =
     (case http_build H \<lparr>hs_timeout = timeout, hs_pool_max_idle = 10, hs_pool_idle_timeout = None,
                         hs_tcp_keepalive = None\<rparr> of
        Ok client \<Rightarrow> Ok \<lparr>wd_client = client, wd_url = url, wd_signing_secret = secret\<rparr>
      | _ \<Rightarrow> Panic)"

definition dispatcher_from_target :: "('h, 'n) http_ops \<Rightarrow> WebhookTarget \<Rightarrow> ('h WebhookDispatcher, string) rresult" where
  "dispatcher_from_target H target =
     dispatcher_new H (wt_url target) (30 * 1000000000) (signing_secret target)"

definition payload_item :: "ChangeEvent \<Rightarrow> string" where
  "payload_item event =
     ''{\"lsn\":'' @ dec_str (unat (ev_lsn event)) @ '',\"xid\":'' @ dec_str (unat (ev_xid event)) @
     '',\"op\":\"'' @ as_str (ev_op event) @ ''\",\"table\":\"'' @ qualified_name (ev_table event) @
     ''\",\"ts\":'' @ int_str (sint (ev_commit_timestamp_us event)) @ ''}''"

definition build_payload :: "ChangeEvent list \<Rightarrow> (string, 'e) rresult" where
  "build_payload events = Ok (''['' @ join_with '','' (map payload_item events) @ '']'')"

definition compute_hmac :: "string \<Rightarrow> string \<Rightarrow> string" where
  "compute_hmac secret payload =
     ''sha256='' @ hex_lower (unat (foldl fnv_step fnv_basis (as_bytes secret @ as_bytes payload)))"

definition dispatch ::
    "('h, 'n) http_ops \<Rightarrow> 'h WebhookDispatcher \<Rightarrow> 'n \<Rightarrow> ChangeEvent list \<Rightarrow> (u16, string) rresult \<times> 'n" where
  "dispatch H d net events =
     (case build_payload events of
        Ok payload \<Rightarrow>
          let headers = [(''Content-Type'', ''application/json''),
                         (''X-Nendi-Events'', dec_str (length events))];
              headers = (case wd_signing_secret d of
                           Some secret \<Rightarrow> headers @ [(''X-Nendi-Signature'', compute_hmac secret payload)]
                         | None \<Rightarrow> headers)
          in (case http_post H (wd_client d) net
                     \<lparr>hr_url = wd_url d, hr_headers = headers, hr_body = payload\<rparr> of
                (Ok status, net) \<Rightarrow>
                  if status \<ge> 400 then (Err (''webhook returned HTTP '' @ dec_str (unat status)), net)
                  else (Ok status, net)
              | (Err e, net) \<Rightarrow> (Err e, net)
              | (Panic, net) \<Rightarrow> (Panic, net))
      | Err e \<Rightarrow> (Err e, net)
      | Panic \<Rightarrow> (Panic, net))"

record 'h ConnectionPool =
  cp_client :: 'h
  pool_size :: usize

definition pool_new :: "('h, 'n) http_ops \<Rightarrow> usize \<Rightarrow> nanos \<Rightarrow> ('h ConnectionPool, string) rresult" where
  "pool_new H n timeout =
     (case http_build H \<lparr>hs_timeout = timeout, hs_pool_max_idle = n,
                         hs_pool_idle_timeout = Some (90 * 1000000000), hs_tcp_keepalive = Some (30 * 1000000000)\<rparr> of
        Ok client \<Rightarrow> Ok \<lparr>cp_client = client, pool_size = n\<rparr>
      | _ \<Rightarrow> Panic)"

subsection \<open>The breaker as a three-state machine\<close>

text \<open>
  What the breaker promises: closed with a number of consecutive failures, tripped since a time,
  or waiting for the outcome of one probe. The counter has no width and exists only when closed.
\<close>

datatype breaker_spec = Healthy nat | Tripped nanos | Probing

datatype breaker_op = Request nanos | Succeeded | Failed nanos

fun spec_step :: "nat \<Rightarrow> nanos \<Rightarrow> breaker_op \<Rightarrow> breaker_spec \<Rightarrow> bool list \<times> breaker_spec" where
  "spec_step thr timeout (Request t) (Healthy k) = ([True], Healthy k)"
| "spec_step thr timeout (Request t) (Tripped t0) =
     (if t - t0 \<ge> timeout then ([True], Probing) else ([False], Tripped t0))"
| "spec_step thr timeout (Request t) Probing = ([False], Probing)"
| "spec_step thr timeout Succeeded (Tripped t0) = ([], Tripped t0)"
| "spec_step thr timeout Succeeded _ = ([], Healthy 0)"
| "spec_step thr timeout (Failed t) (Healthy k) = ([], if k + 1 \<ge> thr then Tripped t else Healthy (k + 1))"
| "spec_step thr timeout (Failed t) (Tripped t0) = ([], Tripped t0)"
| "spec_step thr timeout (Failed t) Probing = ([], Tripped t)"

fun breaker_step :: "breaker_op \<Rightarrow> CircuitBreaker \<Rightarrow> bool list \<times> CircuitBreaker" where
  "breaker_step (Request t) b = (let (r, b) = allow_request t b in ([r], b))"
| "breaker_step Succeeded b = ([], on_success b)"
| "breaker_step (Failed t) b = ([], on_failure t b)"

text \<open>The answers of a machine to a history, and where it ends.\<close>

fun answers :: "('op \<Rightarrow> 's \<Rightarrow> 'a list \<times> 's) \<Rightarrow> 'op list \<Rightarrow> 's \<Rightarrow> 'a list \<times> 's" where
  "answers step [] s = ([], s)"
| "answers step (op # ops) s =
     (let (r, s) = step op s; (rs, s) = answers step ops s in (r @ rs, s))"

lemma answers_append:
  "answers step (xs @ ys) s =
     (let (r, s) = answers step xs s; (rs, s) = answers step ys s in (r @ rs, s))"
  by (induction xs arbitrary: s) (simp_all add: split_beta Let_def)

definition breaker_abs :: "CircuitBreaker \<Rightarrow> breaker_spec" where
  "breaker_abs b = (case cb_state b of
     Closed \<Rightarrow> Healthy (unat (failure_count b)) | Open \<Rightarrow> Tripped (the (opened_at b)) | HalfOpen \<Rightarrow> Probing)"

definition breaker_inv :: "CircuitBreaker \<Rightarrow> bool" where
  "breaker_inv b \<longleftrightarrow> (cb_state b = Closed \<longrightarrow> unat (failure_count b) < max 1 (unat (failure_threshold b)))
     \<and> (cb_state b = Open \<longrightarrow> opened_at b \<noteq> None)"

lemma breaker_config:
  "failure_threshold (snd (breaker_step op b)) = failure_threshold b"
  "recovery_timeout (snd (breaker_step op b)) = recovery_timeout b"
  by (cases op; auto simp: allow_request_def on_success_def on_failure_def Let_def
      split: CircuitState.splits option.splits)+

lemma unat_suc32:
  assumes "unat (c :: u32) < max 1 (unat (t :: u32))"
  shows "unat (c + 1) = unat c + 1"
proof -
  have "unat c + 1 < 2 ^ 32" using assms unat_less [of t] by (auto simp: max_def split: if_splits)
  then show ?thesis by (simp add: unat_word_ariths)
qed

lemma breaker_step_refines:
  assumes "breaker_inv b"
  shows "breaker_inv (snd (breaker_step op b))"
    and "spec_step (unat (failure_threshold b)) (recovery_timeout b) op (breaker_abs b) =
      (fst (breaker_step op b), breaker_abs (snd (breaker_step op b)))"
proof -
  have "breaker_inv (snd (breaker_step op b)) \<and>
    spec_step (unat (failure_threshold b)) (recovery_timeout b) op (breaker_abs b) =
      (fst (breaker_step op b), breaker_abs (snd (breaker_step op b)))"
  proof (cases op)
    case (Failed t)
    show ?thesis
    proof (cases "cb_state b")
      case Closed
      then have "unat (failure_count b + 1) = unat (failure_count b) + 1"
        using assms unat_suc32 by (simp add: breaker_inv_def)
      then show ?thesis using Failed Closed
        by (simp add: on_failure_def breaker_inv_def breaker_abs_def Let_def word_le_nat_alt)
    qed (use Failed assms in \<open>simp_all add: on_failure_def breaker_inv_def breaker_abs_def Let_def\<close>)
  qed (use assms in \<open>auto simp: allow_request_def on_success_def breaker_inv_def breaker_abs_def split: CircuitState.splits\<close>)
  then show "breaker_inv (snd (breaker_step op b))"
    "spec_step (unat (failure_threshold b)) (recovery_timeout b) op (breaker_abs b) =
      (fst (breaker_step op b), breaker_abs (snd (breaker_step op b)))" by simp_all
qed

lemma breaker_run_refines:
  assumes "breaker_inv b"
  shows "answers (spec_step (unat (failure_threshold b)) (recovery_timeout b)) ops (breaker_abs b) =
    (fst (answers breaker_step ops b), breaker_abs (snd (answers breaker_step ops b)))"
  using assms
proof (induction ops arbitrary: b)
  case (Cons op ops)
  note s = breaker_step_refines [OF Cons.prems]
  from Cons.IH [OF s(1)] show ?case by (simp add: s(2) breaker_config split_beta Let_def)
qed simp

text \<open>
  C12. The circuit breaker is the three-state machine it promises to be: for any history of
  requests, successes and failures, its answers and its state are those of a machine that
  counts consecutive failures only while closed, with an unbounded counter. The counter the
  code keeps while open, which may wrap around, is never seen.
\<close>

theorem breaker_refines_spec:
  "answers (spec_step (unat threshold) timeout) ops (Healthy 0) =
     (fst (answers breaker_step ops (breaker_new threshold timeout)),
      breaker_abs (snd (answers breaker_step ops (breaker_new threshold timeout))))"
  using breaker_run_refines [of "breaker_new threshold timeout" ops]
  by (simp add: breaker_new_def breaker_inv_def breaker_abs_def)

definition is_request :: "breaker_op \<Rightarrow> bool" where
  "is_request op \<longleftrightarrow> (case op of Request _ \<Rightarrow> True | _ \<Rightarrow> False)"

lemma tripped_rejects:
  assumes "\<And>t. Request t \<in> set ops \<Longrightarrow> t - t0 < timeout"
  shows "answers (spec_step thr timeout) ops (Tripped t0) =
    (replicate (length (filter is_request ops)) False, Tripped t0)"
  using assms
proof (induction ops)
  case (Cons op ops)
  have "\<not> timeout \<le> t - t0" if "op = Request t" for t
    using Cons.prems [of t] that by auto
  then show ?case using Cons by (cases op) (simp_all add: is_request_def)
qed simp

lemma probing_rejects:
  "answers (spec_step thr timeout) (map Request ts) Probing = (replicate (length ts) False, Probing)"
  by (induction ts) simp_all

text \<open>
  C25. A tripped breaker recovers by one probe. Once it is open since some time, it rejects every
  request until the recovery timeout has passed, whatever outcomes are reported meanwhile; the
  first request after that is let through, and every further one is rejected until the outcome
  of this probe is reported.
\<close>

theorem breaker_probes_once:
  assumes "cb_state (snd (answers breaker_step ops (breaker_new threshold timeout))) = Open"
    and "opened_at (snd (answers breaker_step ops (breaker_new threshold timeout))) = Some t0"
    and "\<And>t. Request t \<in> set early \<Longrightarrow> t - t0 < timeout" and "timeout \<le> t - t0"
  shows "fst (answers breaker_step (ops @ early @ [Request t] @ map Request ts) (breaker_new threshold timeout)) =
    fst (answers breaker_step ops (breaker_new threshold timeout)) @
      replicate (length (filter is_request early)) False @ [True] @ replicate (length ts) False"
proof -
  let ?b = "breaker_new threshold timeout" and ?s = "spec_step (unat threshold) timeout"
  have ref: "answers ?s xs (Healthy 0) = (fst (answers breaker_step xs ?b), breaker_abs (snd (answers breaker_step xs ?b)))"
    for xs
    using breaker_run_refines [of ?b xs] by (simp add: breaker_new_def breaker_inv_def breaker_abs_def)
  have "snd (answers ?s ops (Healthy 0)) = Tripped t0" using assms(1,2) by (simp add: ref breaker_abs_def)
  then have o: "answers ?s ops (Healthy 0) = (fst (answers breaker_step ops ?b), Tripped t0)"
    by (simp add: ref)
  have "fst (answers ?s (ops @ early @ [Request t] @ map Request ts) (Healthy 0)) =
      fst (answers breaker_step ops ?b) @
        replicate (length (filter is_request early)) False @ [True] @ replicate (length ts) False"
    using tripped_rejects [OF assms(3)] probing_rejects assms(4)
    by (simp add: answers_append o split_beta Let_def)
  then show ?thesis by (simp only: ref fst_conv)
qed

theorem breaker_probes_once_witness:
  "fst (answers breaker_step [Failed 5, Request 7, Request 15, Request 16] (breaker_new 1 10)) = [False, True, False]"
proof -
  have "cb_state (snd (answers breaker_step [Failed 5] (breaker_new 1 10))) = Open"
    "opened_at (snd (answers breaker_step [Failed 5] (breaker_new 1 10))) = Some 5"
    "fst (answers breaker_step [Failed 5] (breaker_new 1 10)) = []"
    by (simp_all add: breaker_new_def on_failure_def Let_def)
  then show ?thesis
    using breaker_probes_once [of "[Failed 5]" 1 10 5 "[Request 7]" 15 "[16]"]
    by (simp add: is_request_def)
qed

subsection \<open>The dead letter queue keeps the newest entries\<close>

datatype dlq_op = DlqPush nanos ChangeEvent string u32 | DlqDrain

fun dlq_step :: "dlq_op \<Rightarrow> DeadLetterQueue \<Rightarrow> DlqEntry list \<times> DeadLetterQueue" where
  "dlq_step (DlqPush now event error attempts) q = ([], dlq_push now event error attempts q)"
| "dlq_step DlqDrain q = drain_all q"

text \<open>The entries pushed since the last drain.\<close>

definition dlq_entry :: "nanos \<Rightarrow> ChangeEvent \<Rightarrow> string \<Rightarrow> u32 \<Rightarrow> DlqEntry" where
  "dlq_entry now event error attempts =
     \<lparr>dlq_event = event, dlq_error = error, dlq_attempts = attempts, timestamp_us = of_nat (now div 1000)\<rparr>"

fun dlq_pending :: "dlq_op list \<Rightarrow> DlqEntry list \<Rightarrow> DlqEntry list" where
  "dlq_pending [] es = es"
| "dlq_pending (DlqPush now event error attempts # ops) es = dlq_pending ops (es @ [dlq_entry now event error attempts])"
| "dlq_pending (DlqDrain # ops) es = dlq_pending ops []"

definition newest :: "nat \<Rightarrow> 'a list \<Rightarrow> 'a list" where
  "newest n xs = drop (length xs - n) xs"

text \<open>What the drains of a history return when the queue keeps \<open>n\<close> entries.\<close>

fun dlq_drained :: "nat \<Rightarrow> dlq_op list \<Rightarrow> DlqEntry list \<Rightarrow> DlqEntry list" where
  "dlq_drained n [] es = []"
| "dlq_drained n (DlqPush now event error attempts # ops) es = dlq_drained n ops (es @ [dlq_entry now event error attempts])"
| "dlq_drained n (DlqDrain # ops) es = newest n es @ dlq_drained n ops []"

lemma newest_snoc: "newest (Suc n) (xs @ [x]) = newest n xs @ [x]"
  by (simp add: newest_def)

lemma newest_drop: "0 < n \<Longrightarrow> newest (n - 1) xs = (if n \<le> length (newest n xs) then drop 1 (newest n xs) else newest n xs)"
  by (cases "n \<le> length xs") (auto simp: newest_def Suc_diff_le)

lemma dlq_push_newest:
  assumes "dlq_queue q = newest (max 1 (unat (max_size q))) es"
  shows "dlq_queue (dlq_push now event error attempts q) =
    newest (max 1 (unat (max_size q))) (es @ [dlq_entry now event error attempts])"
proof -
  let ?n = "max 1 (unat (max_size q))"
  have len: "length (dlq_queue q) \<le> ?n" using assms by (simp add: newest_def)
  then have "length (dlq_queue q) < 2 ^ 64" using unat_less [of "max_size q"] by (auto simp: max_def split: if_splits)
  then have full: "max_size q \<le> of_nat (length (dlq_queue q)) \<longleftrightarrow> unat (max_size q) \<le> length (dlq_queue q)"
    by (simp add: word_le_nat_alt unat_of_nat)
  have "(if unat (max_size q) \<le> length (dlq_queue q) then drop 1 (dlq_queue q) else dlq_queue q) = newest (?n - 1) es"
    using newest_drop [of ?n es] assms by (cases "max_size q = 0") (auto simp: max_def newest_def split: if_splits)
  moreover have "newest ?n (es @ [x]) = newest (?n - 1) es @ [x]" for x :: DlqEntry
    using newest_snoc [of "?n - 1" es x] by simp
  ultimately show ?thesis by (simp add: dlq_push_def Let_def full dlq_entry_def)
qed

text \<open>
  C26. The dead letter queue keeps the newest failures. After any history of pushes and drains it
  holds the last \<open>max_size\<close> entries pushed since the last drain, oldest first; every drain returned
  what the queue held then; and the counter is the number of pushes modulo \<open>2^64\<close>. A queue of size
  zero keeps one entry.
\<close>

theorem dlq_keeps_newest:
  assumes "dlq_new sz n = Ok q"
  shows "dlq_queue (snd (answers dlq_step ops q)) = newest (max 1 (unat n)) (dlq_pending ops [])
    \<and> fst (answers dlq_step ops q) = dlq_drained (max 1 (unat n)) ops []
    \<and> total_entries (snd (answers dlq_step ops q)) = of_nat (length (filter (\<lambda>op. op \<noteq> DlqDrain) ops))"
proof -
  let ?n = "max 1 (unat n)"
  have gen: "dlq_queue (snd (answers dlq_step ops q)) = newest ?n (dlq_pending ops es)
      \<and> fst (answers dlq_step ops q) = dlq_drained ?n ops es
      \<and> total_entries (snd (answers dlq_step ops q)) = total_entries q + of_nat (length (filter (\<lambda>op. op \<noteq> DlqDrain) ops))"
    if "dlq_queue q = newest ?n es" "max_size q = n" for q es
    using that
  proof (induction ops arbitrary: q es)
    case (Cons op ops)
    show ?case
    proof (cases op)
      case (DlqPush now event error attempts)
      have "dlq_queue (dlq_push now event error attempts q) = newest ?n (es @ [dlq_entry now event error attempts])"
        using dlq_push_newest [of q es] Cons.prems by simp
      moreover have "max_size (dlq_push now event error attempts q) = n"
        "total_entries (dlq_push now event error attempts q) = total_entries q + 1"
        using Cons.prems(2) by (simp_all add: dlq_push_def Let_def)
      ultimately show ?thesis using Cons.IH by (simp add: DlqPush split_beta Let_def)
    next
      case DlqDrain
      then show ?thesis using Cons.IH [of "q\<lparr>dlq_queue := []\<rparr>" "[]"] Cons.prems
        by (simp add: drain_all_def newest_def split_beta Let_def)
    qed
  qed simp
  from assms have "dlq_queue q = newest ?n []" "max_size q = n" "total_entries q = 0"
    by (auto simp: dlq_new_def with_capacity_def newest_def split: if_splits)
  with gen [of q "[]"] show ?thesis by simp
qed

definition hook_event :: "string \<Rightarrow> ChangeEvent" where
  "hook_event table = \<lparr>ev_lsn = 7, ev_xid = 3, ev_op = Insert, ev_table = \<lparr>tid_schema = ''s'', tid_table = table\<rparr>,
     ev_schema_fingerprint = 0, ev_after = None, ev_before = None, ev_commit_timestamp_us = 0\<rparr>"

theorem dlq_keeps_newest_witness:
  "map dlq_attempts (dlq_queue (snd (answers dlq_step
     [DlqPush 0 (hook_event ''t'') [] 1, DlqPush 0 (hook_event ''t'') [] 2, DlqPush 0 (hook_event ''t'') [] 3]
     \<lparr>dlq_queue = [], max_size = 2, total_entries = 0\<rparr>))) = [2, 3]"
proof -
  have "dlq_new 1 2 = Ok \<lparr>dlq_queue = [], max_size = 2, total_entries = 0\<rparr>"
    by (simp add: dlq_new_def with_capacity_def)
  from dlq_keeps_newest [OF this, THEN conjunct1] show ?thesis
    by (simp only:) (simp add: newest_def dlq_entry_def)
qed

subsection \<open>Backoff\<close>

lemma as_secs_half: "as_secs_f64 (millis 500) = Fin (1 / 2)"
proof -
  have d: "rnd 1000000000 = Fin 1000000000" "rnd 500000000 = Fin 500000000"
    using rnd_nat [of 1000000000] rnd_nat [of 500000000] by simp_all
  have "rnd (1 / 2) = Fin (1 / 2)" using rnd_pow2 [of "- 1"] by (simp add: pow2_def)
  then show ?thesis by (simp add: as_secs_f64_def millis_def d rnd_def [of 0])
qed

lemma half_two_to: "f64_mul (two_to n) (Fin (1 / 2)) = (if n < 1024 then Fin (2 ^ n / 2) else PInf)"
proof (cases "n < 1024")
  case True
  have "(2 :: rat) ^ n * (1 / 2) = pow2 (int n - 1)" using pow2_add [of "int n" "- 1"] by (simp add: pow2_def)
  then show ?thesis using True rnd_pow2 [of "int n - 1"] by (simp add: two_to_def)
qed (simp add: two_to_def inf_sign_def)

lemma from_secs_half:
  "from_secs_f64 (Fin (2 ^ n / 2)) = (if n \<le> 64 then Ok (500000000 * 2 ^ n) else Panic)"
proof -
  have "(2 :: rat) ^ n / 2 * 1000000000 = of_int (500000000 * 2 ^ n)" by simp
  then have r: "round_even ((2 :: rat) ^ n / 2 * 1000000000) = 500000000 * 2 ^ n" by (simp only: round_even_of_int)
  have "(500000000 * 2 ^ n :: int) < 2 ^ 64 * 1000000000 \<longleftrightarrow> (2 :: int) ^ n < 2 ^ 65" by simp
  also have "\<dots> \<longleftrightarrow> n \<le> 64" by (subst power_strict_increasing_iff) auto
  finally show ?thesis unfolding from_secs_f64_def f64.case r
    by (simp add: nat_mult_distrib nat_power_eq)
qed

lemma backoff_exact:
  assumes "unat attempt < 2 ^ 31"
  shows "backoff_for (retry_from_target target) attempt =
    (if unat attempt \<le> 64 then Ok (min (500000000 * 2 ^ unat attempt) 60000000000) else Panic)"
proof -
  have "int (unat attempt) < 2 ^ 31" by (subst of_nat_less_numeral_power_cancel_iff) (rule assms)
  then have "signed_take_bit 31 (uint attempt) = uint attempt"
    by (intro signed_take_bit_int_eq_self order_trans [OF _ uint_ge_0]) simp_all
  then have "sint attempt = int (unat attempt)" by (simp add: sint_uint)
  then have "f64_powi (Fin 2) attempt = two_to (unat attempt)" using powi_two [of attempt] by simp
  then have "backoff_for (retry_from_target target) attempt =
      and_then (from_secs_f64 (f64_mul (two_to (unat attempt)) (Fin (1 / 2)))) (\<lambda>d. Ok (min d 60000000000))"
    by (simp add: backoff_for_def retry_from_target_def retry_new_def mul_f64_def as_secs_half)
  then show ?thesis
    using half_two_to [of "unat attempt"] from_secs_half [of "unat attempt"]
    by (auto simp: from_secs_f64_def split: if_splits)
qed

text \<open>
  C31. The backoff of a webhook target doubles from half a second and is capped at one minute, for
  every attempt a policy of at most 66 attempts may retry, whatever the rounding of the
  floating-point steps. From attempt 65 on the product no longer fits a \<open>Duration\<close> and the
  computation panics before the cap applies.
\<close>

theorem backoff_doubles_then_panics:
  assumes "unat attempt < 2 ^ 31"
  shows "(backoff_for (retry_from_target target) attempt =
      (if unat attempt \<le> 64 then Ok (min (500000000 * 2 ^ unat attempt) 60000000000) else Panic)) \<and>
    (should_retry (retry_from_target target) attempt \<and> unat (retry_max_attempts target) \<le> 66 \<longrightarrow>
      backoff_for (retry_from_target target) attempt \<noteq> Panic)"
proof -
  have "unat attempt \<le> 64"
    if "should_retry (retry_from_target target) attempt" "unat (retry_max_attempts target) \<le> 66"
  proof -
    have "unat (attempt + 1) = unat attempt + 1" using assms by (simp add: unat_word_ariths)
    then show ?thesis using that
      by (simp add: should_retry_def retry_from_target_def retry_new_def word_less_nat_alt)
  qed
  then show ?thesis by (simp add: backoff_exact [OF assms])
qed

definition hook_target :: WebhookTarget where
  "hook_target = \<lparr>wt_url = ''http://h'', wt_tables = [], wt_batch_size = 10, wt_linger_ms = 5,
     circuit_breaker_threshold = 5, retry_max_attempts = 100, signing_secret = Some ''k''\<rparr>"

theorem backoff_doubles_then_panics_witness:
  "backoff_for (retry_from_target hook_target) 3 = Ok 4000000000 \<and>
   backoff_for (retry_from_target hook_target) 10 = Ok 60000000000 \<and>
   backoff_for (retry_from_target hook_target) 65 = Panic \<and> should_retry (retry_from_target hook_target) 65"
  using backoff_doubles_then_panics [of 3 hook_target] backoff_doubles_then_panics [of 10 hook_target]
    backoff_doubles_then_panics [of 65 hook_target]
  by (simp add: should_retry_def retry_from_target_def retry_new_def hook_target_def)

subsection \<open>The signature\<close>

definition fnv_unstep :: "u64 \<Rightarrow> u8 \<Rightarrow> u64" where
  "fnv_unstep hash b = xor (hash * 0xce965057aff6957b) (ucast b)"

lemma fnv_unstep_step: "fnv_unstep (fnv_step h b) b = h"
proof -
  have "fnv_prime * 0xce965057aff6957b = 1" by (simp add: fnv_prime_def)
  then show ?thesis by (simp add: fnv_unstep_def fnv_step_def mult.assoc xor.assoc)
qed

lemma fnv_unfold: "foldr (\<lambda>b h. fnv_unstep h b) bs (foldl fnv_step h bs) = h"
  by (induction bs arbitrary: h rule: rev_induct) (simp_all add: fnv_unstep_step)

text \<open>
  A forger, which sees a payload and its signature but not the secret: it reads the hash, undoes
  the payload and hashes another payload.
\<close>

definition forge :: "string \<Rightarrow> string \<Rightarrow> string \<Rightarrow> string" where
  "forge payload signature payload' =
     (case parse_digits 16 (2 ^ 64) 0 (drop 7 signature) of
        Some n \<Rightarrow> ''sha256='' @ hex_lower (unat (foldl fnv_step
          (foldr (\<lambda>b h. fnv_unstep h b) (as_bytes payload) (of_nat n)) (as_bytes payload')))
      | None \<Rightarrow> [])"

text \<open>
  C38. The webhook signature does not authenticate: from one payload and its signature the
  signature of any other payload can be computed without the secret.
\<close>

theorem signature_forgeable:
  "forge payload (compute_hmac secret payload) payload' = compute_hmac secret payload'"
proof -
  let ?h = "foldl fnv_step fnv_basis (as_bytes secret)"
  let ?g = "foldl fnv_step ?h (as_bytes payload)"
  have "parse_digits 16 (2 ^ 64) 0 (hex_lower (unat ?g)) = Some (unat ?g)"
    unfolding hex_lower_def
    by (rule parse_digits_radix) (use unat_less [of ?g] in \<open>simp_all add: to_digit_lower\<close>)
  then show ?thesis by (simp add: forge_def compute_hmac_def fnv_unfold)
qed

subsection \<open>The payload\<close>

text \<open>
  The part of JSON the payload needs, printed without blanks: integers, strings with the escapes
  JSON demands, objects and arrays.
\<close>

datatype json_val = JNum int | JStr string

definition json_char :: "char \<Rightarrow> string" where
  "json_char c =
     (if c = CHR 0x22 \<or> c = CHR 0x5c then [CHR 0x5c, c]
      else if (of_char c :: nat) < 32
      then [CHR 0x5c] @ ''u00'' @ [lower_digit (of_char c div 16), lower_digit (of_char c mod 16)]
      else [c])"

definition json_string :: "string \<Rightarrow> string" where
  "json_string s = [CHR 0x22] @ concat (map json_char s) @ [CHR 0x22]"

fun json_val_text :: "json_val \<Rightarrow> string" where
  "json_val_text (JNum i) = int_str i"
| "json_val_text (JStr s) = json_string s"

definition json_object :: "(string \<times> json_val) list \<Rightarrow> string" where
  "json_object fs = ''{'' @ join_with '','' (map (\<lambda>(k, v). json_string k @ '':'' @ json_val_text v) fs) @ ''}''"

definition json_array :: "(string \<times> json_val) list list \<Rightarrow> string" where
  "json_array objects = ''['' @ join_with '','' (map json_object objects) @ '']''"

text \<open>What the payload says of an event: its position, transaction, operation, table and time, but not its rows.\<close>

definition op_word :: "OpType \<Rightarrow> string" where
  "op_word op = (case op of Insert \<Rightarrow> ''insert'' | Update \<Rightarrow> ''update'' | Delete \<Rightarrow> ''delete'' | Truncate \<Rightarrow> ''truncate'')"

definition event_json :: "ChangeEvent \<Rightarrow> (string \<times> json_val) list" where
  "event_json e =
     [(''lsn'', JNum (uint (ev_lsn e))), (''xid'', JNum (uint (ev_xid e))), (''op'', JStr (op_word (ev_op e))),
      (''table'', JStr (tid_schema (ev_table e) @ ''.'' @ tid_table (ev_table e))),
      (''ts'', JNum (sint (ev_commit_timestamp_us e)))]"

text \<open>A table name that JSON writes as it is: no quotation mark, backslash or control character.\<close>

definition plain_char :: "char \<Rightarrow> bool" where
  "plain_char c \<longleftrightarrow> c \<noteq> CHR 0x22 \<and> c \<noteq> CHR 0x5c \<and> 32 \<le> (of_char c :: nat)"

definition plain_table :: "ChangeEvent \<Rightarrow> bool" where
  "plain_table e \<longleftrightarrow> list_all plain_char (tid_schema (ev_table e)) \<and> list_all plain_char (tid_table (ev_table e))"

lemma json_string_plain: "list_all plain_char s \<Longrightarrow> json_string s = [CHR 0x22] @ s @ [CHR 0x22]"
proof -
  assume "list_all plain_char s"
  then have "concat (map json_char s) = s" by (induction s) (auto simp: json_char_def plain_char_def)
  then show ?thesis by (simp add: json_string_def)
qed

lemma int_str_uint: "int_str (uint w) = dec_str (unat w)"
  by (simp add: int_str_def)

lemma payload_item_json:
  assumes "plain_table e"
  shows "payload_item e = json_object (event_json e)"
proof -
  have keys: "list_all plain_char ''lsn''" "list_all plain_char ''xid''" "list_all plain_char ''op''"
    "list_all plain_char ''table''" "list_all plain_char ''ts''" "list_all plain_char (op_word (ev_op e))"
    by (simp_all add: plain_char_def op_word_def split: OpType.split)
  have table: "list_all plain_char (tid_schema (ev_table e) @ ''.'' @ tid_table (ev_table e))"
    using assms by (simp add: plain_table_def) (simp add: plain_char_def)
  have op: "as_str (ev_op e) = op_word (ev_op e)" by (simp add: as_str_def op_word_def)
  have "json_object (event_json e) = ''{'' @ ([CHR 0x22] @ ''lsn'' @ [CHR 0x22]) @ '':'' @ dec_str (unat (ev_lsn e)) @ '','' @
      ([CHR 0x22] @ ''xid'' @ [CHR 0x22]) @ '':'' @ dec_str (unat (ev_xid e)) @ '','' @
      ([CHR 0x22] @ ''op'' @ [CHR 0x22]) @ '':'' @ ([CHR 0x22] @ op_word (ev_op e) @ [CHR 0x22]) @ '','' @
      ([CHR 0x22] @ ''table'' @ [CHR 0x22]) @ '':'' @
      ([CHR 0x22] @ (tid_schema (ev_table e) @ ''.'' @ tid_table (ev_table e)) @ [CHR 0x22]) @ '','' @
      ([CHR 0x22] @ ''ts'' @ [CHR 0x22]) @ '':'' @ int_str (sint (ev_commit_timestamp_us e)) @ ''}''"
    unfolding json_object_def event_json_def list.map prod.case json_val_text.simps join_with.simps
      keys [THEN json_string_plain] table [THEN json_string_plain] int_str_uint by simp
  then show ?thesis by (simp add: payload_item_def qualified_name_def op)
qed

text \<open>
  C24. Dispatching a batch posts it once, as JSON. When it returns a status, this is the answer
  below 400 to one request to the target's address, marked as JSON, with the number of events of
  the batch and, if the target has a secret, the signature of the body; and the body is the JSON
  array with one object for each event of the batch in order, giving its LSN, transaction id,
  operation, table and commit time, as long as no table name needs an escape. The rows of the
  events are not sent.
\<close>

theorem dispatch_delivers_batch:
  assumes "dispatch H d net events = (Ok status, net')" and "list_all plain_table events"
  shows "\<exists>req. http_post H (wd_client d) net req = (Ok status, net') \<and> status < 400 \<and> hr_url req = wd_url d
    \<and> map_of (hr_headers req) ''Content-Type'' = Some ''application/json''
    \<and> map_of (hr_headers req) ''X-Nendi-Events'' = Some (dec_str (length events))
    \<and> map_of (hr_headers req) ''X-Nendi-Signature'' =
        map_option (\<lambda>secret. compute_hmac secret (hr_body req)) (wd_signing_secret d)
    \<and> hr_body req = json_array (map event_json events)"
proof -
  let ?body = "json_array (map event_json events)"
  define headers where "headers = [(''Content-Type'', ''application/json''), (''X-Nendi-Events'', dec_str (length events))] @
    (case wd_signing_secret d of Some secret \<Rightarrow> [(''X-Nendi-Signature'', compute_hmac secret ?body)] | None \<Rightarrow> [])"
  let ?req = "\<lparr>hr_url = wd_url d, hr_headers = headers, hr_body = ?body\<rparr>"
  have "map payload_item events = map json_object (map event_json events)"
    using assms(2) by (simp add: payload_item_json list_all_iff)
  then have body: "build_payload events = Ok ?body" unfolding build_payload_def json_array_def by (simp only:)
  have "http_post H (wd_client d) net ?req = (Ok status, net') \<and> \<not> 400 \<le> status"
    using assms(1) by (simp add: dispatch_def body Let_def headers_def
        split: option.splits prod.splits rresult.splits if_splits)
  then show ?thesis by (intro exI [of _ ?req]) (auto simp: headers_def split: option.splits)
qed

definition hook_http :: "(unit, http_request list) http_ops" where
  "hook_http = \<lparr>http_build = \<lambda>_. Ok (), http_post = \<lambda>_ net req. (Ok 200, net @ [req])\<rparr>"

definition hook_dispatcher :: "unit WebhookDispatcher" where
  "hook_dispatcher = \<lparr>wd_client = (), wd_url = ''http://h'', wd_signing_secret = Some ''k''\<rparr>"

theorem dispatch_delivers_batch_witness:
  "\<exists>req. dispatch hook_http hook_dispatcher [] [hook_event ''t''] = (Ok 200, [req])
     \<and> hr_body req = ''[{\"lsn\":7,\"xid\":3,\"op\":\"insert\",\"table\":\"s.t\",\"ts\":0}]''"
proof -
  let ?r = "dispatch hook_http hook_dispatcher [] [hook_event ''t'']"
  have r: "?r = (Ok 200, snd ?r)" by (simp add: dispatch_def build_payload_def hook_http_def hook_dispatcher_def Let_def)
  have "list_all plain_table [hook_event ''t'']" by (simp add: plain_table_def plain_char_def hook_event_def)
  from dispatch_delivers_batch [OF r this] obtain req where
    req: "http_post hook_http (wd_client hook_dispatcher) [] req = (Ok 200, snd ?r)"
      "hr_body req = json_array (map event_json [hook_event ''t''])" by blast
  have "snd ?r = [req]" using req(1) by (simp add: hook_http_def)
  moreover have "json_array (map event_json [hook_event ''t'']) =
      ''[{\"lsn\":7,\"xid\":3,\"op\":\"insert\",\"table\":\"s.t\",\"ts\":0}]''"
    by (simp add: json_array_def json_object_def event_json_def hook_event_def json_string_def json_char_def op_word_def
        int_str_def dec_str_def radix_str.simps upper_digit_def)
  ultimately show ?thesis using r req(2) by (metis prod.collapse snd_conv)
qed

text \<open>
  The payload is not escaped: for any two events there is a single event, with a table name
  that holds quotation marks, whose payload is that of the two.
\<close>

theorem payload_injection:
  "\<exists>e. build_payload [e] = build_payload [a, b]"
proof -
  let ?t = "tid_table (ev_table a) @ ''\",\"ts\":'' @ int_str (sint (ev_commit_timestamp_us a)) @ ''},'' @
     ''{\"lsn\":'' @ dec_str (unat (ev_lsn b)) @ '',\"xid\":'' @ dec_str (unat (ev_xid b)) @
     '',\"op\":\"'' @ as_str (ev_op b) @ ''\",\"table\":\"'' @ qualified_name (ev_table b)"
  let ?e = "a\<lparr>ev_table := (ev_table a)\<lparr>tid_table := ?t\<rparr>, ev_commit_timestamp_us := ev_commit_timestamp_us b\<rparr>"
  have "payload_item ?e = payload_item a @ '','' @ payload_item b"
    by (simp add: payload_item_def qualified_name_def)
  then show ?thesis by (intro exI [of _ ?e]) (simp add: build_payload_def)
qed

end
