(* ===== verification/Egress.thy ===== *)
theory Egress
  imports Storage Offsets Config
begin

text \<open>
  The gRPC egress, \<open>src/http/src/egress/grpc\<close>: consumer streams, replay ranges, flow control and
  the server's settings. The channel of \<open>tokio::sync::mpsc\<close> is the parameter \<open>M\<close>; both its ends
  share the channel state, and a send that waits for room takes effect when it completes.
\<close>

subsection \<open>Consumer streams\<close>

datatype try_send = Sent | SendFull ChangeEvent | SendClosed ChangeEvent

record 'c mpsc_ops =
  mp_channel :: "usize \<Rightarrow> ('c, string) rresult"
  mp_send :: "'c \<Rightarrow> ChangeEvent \<Rightarrow> (unit, ChangeEvent) rresult \<times> 'c"
  mp_try_send :: "'c \<Rightarrow> ChangeEvent \<Rightarrow> try_send \<times> 'c"
  mp_recv :: "'c \<Rightarrow> ChangeEvent option \<times> 'c"

record 'c ConsumerStream =
  cs_consumer_id :: string
  cs_tx :: 'c
  last_sent_lsn :: lsn
  events_sent :: u64

definition consumer_new :: "'c mpsc_ops \<Rightarrow> string \<Rightarrow> usize \<Rightarrow> ('c ConsumerStream, string) rresult" where
  "consumer_new M consumer_id buffer_size = and_then (mp_channel M buffer_size)
     (\<lambda>c. Ok \<lparr>cs_consumer_id = consumer_id, cs_tx = c, last_sent_lsn = lsn_zero, events_sent = 0\<rparr>)"

definition sent_event :: "ChangeEvent \<Rightarrow> 'c \<Rightarrow> 'c ConsumerStream \<Rightarrow> 'c ConsumerStream" where
  "sent_event event c s = s\<lparr>cs_tx := c, last_sent_lsn := event_lsn event, events_sent := events_sent s + 1\<rparr>"

definition consumer_send ::
    "'c mpsc_ops \<Rightarrow> ChangeEvent \<Rightarrow> 'c ConsumerStream \<Rightarrow> (unit, ChangeEvent) rresult \<times> 'c ConsumerStream" where
  "consumer_send M event s =
     (case mp_send M (cs_tx s) event of
        (Ok _, c) \<Rightarrow> (Ok (), sent_event event c s)
      | (Err event, c) \<Rightarrow> (Err event, s\<lparr>cs_tx := c\<rparr>)
      | (Panic, c) \<Rightarrow> (Panic, s\<lparr>cs_tx := c\<rparr>))"

definition consumer_try_send ::
    "'c mpsc_ops \<Rightarrow> ChangeEvent \<Rightarrow> 'c ConsumerStream \<Rightarrow> (unit, ChangeEvent) rresult \<times> 'c ConsumerStream" where
  "consumer_try_send M event s =
     (case mp_try_send M (cs_tx s) event of
        (Sent, c) \<Rightarrow> (Ok (), sent_event event c s)
      | (SendFull event, c) \<Rightarrow> (Err event, s\<lparr>cs_tx := c\<rparr>)
      | (SendClosed event, c) \<Rightarrow> (Err event, s\<lparr>cs_tx := c\<rparr>))"

subsection \<open>Replay\<close>

record ReplayManager =
  rm_batch_size :: usize

record ReplayRange =
  rr_start_lsn :: lsn
  rr_end_lsn :: lsn

definition replay_new :: "usize \<Rightarrow> ReplayManager" where
  "replay_new n = \<lparr>rm_batch_size = n\<rparr>"

definition replay_range :: "ReplayManager \<Rightarrow> lsn \<Rightarrow> lsn \<Rightarrow> ReplayRange option" where
  "replay_range m committed head =
     (if committed \<ge> head then None
      else Some \<lparr>rr_start_lsn = lsn_saturating_add committed 1, rr_end_lsn = head\<rparr>)"

definition estimate_events :: "ReplayRange \<Rightarrow> u64" where
  "estimate_events r =
     (if get (rr_start_lsn r) \<le> get (rr_end_lsn r) then get (rr_end_lsn r) - get (rr_start_lsn r) else 0)"

subsection \<open>Flow control and settings\<close>

record GrpcBackpressure =
  max_pending :: usize
  pending :: usize

definition grpc_new :: "usize \<Rightarrow> GrpcBackpressure" where
  "grpc_new n = \<lparr>max_pending = n, pending = 0\<rparr>"

definition on_send :: "GrpcBackpressure \<Rightarrow> GrpcBackpressure" where
  "on_send g = g\<lparr>pending := pending g + 1\<rparr>"

definition on_ack :: "usize \<Rightarrow> GrpcBackpressure \<Rightarrow> GrpcBackpressure" where
  "on_ack count g = g\<lparr>pending := (if count \<le> pending g then pending g - count else 0)\<rparr>"

definition grpc_should_pause :: "GrpcBackpressure \<Rightarrow> bool" where
  "grpc_should_pause g \<longleftrightarrow> pending g \<ge> max_pending g"

record GrpcServer =
  bind_addr :: string
  gs_max_consumers :: usize

definition server_new :: "string \<Rightarrow> usize \<Rightarrow> GrpcServer" where
  "server_new addr n = \<lparr>bind_addr = addr, gs_max_consumers = n\<rparr>"

definition server_from_config :: "GrpcConfig \<Rightarrow> GrpcServer" where
  "server_from_config cfg = server_new (listen_addr cfg) (max_consumers cfg)"

subsection \<open>The contract of the channel\<close>

text \<open>A bounded queue: a send appends or hands the event back, a receive takes the oldest.\<close>

locale mpsc =
  fixes M :: "'c mpsc_ops"
    and queued :: "'c \<Rightarrow> ChangeEvent list"
  assumes channel: "mp_channel M n = Ok c \<Longrightarrow> queued c = []"
    and send_ok: "mp_send M c e = (Ok u, c') \<Longrightarrow> queued c' = queued c @ [e]"
    and send_err: "mp_send M c e = (Err x, c') \<Longrightarrow> x = e \<and> queued c' = queued c"
    and send_returns: "fst (mp_send M c e) \<noteq> Panic"
    and try_sent: "mp_try_send M c e = (Sent, c') \<Longrightarrow> queued c' = queued c @ [e]"
    and try_full: "mp_try_send M c e = (SendFull x, c') \<Longrightarrow> x = e \<and> queued c' = queued c"
    and try_closed: "mp_try_send M c e = (SendClosed x, c') \<Longrightarrow> x = e \<and> queued c' = queued c"
    and recv_some: "mp_recv M c = (Some x, c') \<Longrightarrow> queued c = x # queued c'"
    and recv_none: "mp_recv M c = (None, c') \<Longrightarrow> queued c' = queued c"

datatype stream_op = Send ChangeEvent | TrySend ChangeEvent | Recv

text \<open>A history of the stream, with the result of every send and what the consumer received.\<close>

type_synonym 'c stream_run = "(ChangeEvent \<times> (unit, ChangeEvent) rresult) list \<times> ChangeEvent list \<times> 'c ConsumerStream"

fun stream_op_step :: "'c mpsc_ops \<Rightarrow> stream_op \<Rightarrow> 'c stream_run \<Rightarrow> 'c stream_run" where
  "stream_op_step M (Send e) (hist, got, s) = (let (r, s) = consumer_send M e s in (hist @ [(e, r)], got, s))"
| "stream_op_step M (TrySend e) (hist, got, s) = (let (r, s) = consumer_try_send M e s in (hist @ [(e, r)], got, s))"
| "stream_op_step M Recv (hist, got, s) =
     (case mp_recv M (cs_tx s) of
        (Some e, c) \<Rightarrow> (hist, got @ [e], s\<lparr>cs_tx := c\<rparr>)
      | (None, c) \<Rightarrow> (hist, got, s\<lparr>cs_tx := c\<rparr>))"

definition accepted :: "(ChangeEvent \<times> (unit, ChangeEvent) rresult) list \<Rightarrow> ChangeEvent list" where
  "accepted hist = map fst (filter (\<lambda>(e, r). r = Ok ()) hist)"

lemma accepted_snoc: "accepted (hist @ [(e, r)]) = (if r = Ok () then accepted hist @ [e] else accepted hist)"
  by (simp add: accepted_def)

definition stream_inv :: "('c \<Rightarrow> ChangeEvent list) \<Rightarrow> 'c stream_run \<Rightarrow> bool" where
  "stream_inv queued run \<longleftrightarrow> (case run of (hist, got, s) \<Rightarrow>
     got @ queued (cs_tx s) = accepted hist
     \<and> last_sent_lsn s = (if accepted hist = [] then lsn_zero else event_lsn (last (accepted hist)))
     \<and> events_sent s = of_nat (length (accepted hist))
     \<and> (\<forall>(e, r) \<in> set hist. r = Ok () \<or> r = Err e))"

context mpsc
begin

lemma send_result:
  assumes "stream_inv queued (hist, got, s)"
    and "r = Ok () \<and> queued c = queued (cs_tx s) @ [e] \<and> s' = sent_event e c s \<or>
      r = Err e \<and> queued c = queued (cs_tx s) \<and> s' = s\<lparr>cs_tx := c\<rparr>"
  shows "stream_inv queued (hist @ [(e, r)], got, s')"
  using assms by (auto simp: stream_inv_def accepted_snoc sent_event_def)

lemma stream_step_inv:
  assumes "stream_inv queued run"
  shows "stream_inv queued (stream_op_step M op run)"
proof -
  obtain hist got s where run: "run = (hist, got, s)" by (cases run)
  show ?thesis
  proof (cases op)
    case (Send e)
    obtain r c where m: "mp_send M (cs_tx s) e = (r, c)" by (cases "mp_send M (cs_tx s) e")
    then show ?thesis
      using send_result [OF assms [unfolded run], of _ c e] send_ok [of "cs_tx s" e _ c] send_err [of "cs_tx s" e _ c]
        send_returns [of "cs_tx s" e] Send run
      by (cases r) (auto simp: consumer_send_def)
  next
    case (TrySend e)
    obtain r c where m: "mp_try_send M (cs_tx s) e = (r, c)" by (cases "mp_try_send M (cs_tx s) e")
    then show ?thesis
      using send_result [OF assms [unfolded run], of _ c e] try_sent [of "cs_tx s" e c] try_full [of "cs_tx s" e _ c]
        try_closed [of "cs_tx s" e _ c] TrySend run
      by (cases r) (auto simp: consumer_try_send_def)
  next
    case Recv
    obtain r c where m: "mp_recv M (cs_tx s) = (r, c)" by (cases "mp_recv M (cs_tx s)")
    then show ?thesis
      using recv_some [of "cs_tx s" _ c] recv_none [of "cs_tx s" c] Recv run assms
      by (cases r) (auto simp: stream_inv_def)
  qed
qed

lemma stream_run_inv: "stream_inv queued run \<Longrightarrow> stream_inv queued (fold (stream_op_step M) ops run)"
  by (induction ops arbitrary: run) (simp_all add: stream_step_inv)

end

subsection \<open>A channel in memory\<close>

definition list_channel :: "(nat \<times> ChangeEvent list) mpsc_ops" where
  "list_channel = \<lparr>mp_channel = \<lambda>n. if n = 0 then Panic else Ok (unat n, []),
     mp_send = \<lambda>(n, q) e. if length q < n then (Ok (), (n, q @ [e])) else (Err e, (n, q)),
     mp_try_send = \<lambda>(n, q) e. if length q < n then (Sent, (n, q @ [e])) else (SendFull e, (n, q)),
     mp_recv = \<lambda>(n, q). case q of [] \<Rightarrow> (None, (n, [])) | e # q \<Rightarrow> (Some e, (n, q))\<rparr>"

interpretation list_ch: mpsc list_channel snd
  by unfold_locales (auto simp: list_channel_def split: prod.splits if_splits list.splits)

subsection \<open>Properties\<close>

text \<open>
  C17. A consumer receives what was accepted for it, in order. For any history of blocking and
  non-blocking sends and receives, the events received, followed by those still in the channel,
  are exactly the events whose send succeeded, in the order of the sends; every other event was
  handed back to the sender; and the stream's last LSN and its count are those of the accepted
  events, the count modulo \<open>2^64\<close>.
\<close>

theorem consumer_stream_delivers:
  assumes "mpsc M queued" and "consumer_new M consumer_id n = Ok s"
    and "fold (stream_op_step M) ops ([], [], s) = (hist, got, s')"
  shows "got @ queued (cs_tx s') = accepted hist
    \<and> last_sent_lsn s' = (if accepted hist = [] then lsn_zero else event_lsn (last (accepted hist)))
    \<and> events_sent s' = of_nat (length (accepted hist))
    \<and> (\<forall>(e, r) \<in> set hist. r = Ok () \<or> r = Err e)"
proof -
  have "stream_inv queued ([], [], s)"
    using assms(2) mpsc.channel [OF assms(1)]
    by (auto simp: consumer_new_def stream_inv_def accepted_def and_then_Ok_iff)
  from mpsc.stream_run_inv [OF assms(1) this, of ops] show ?thesis by (simp add: assms(3) stream_inv_def)
qed

theorem consumer_stream_delivers_witness:
  "fst (snd (fold (stream_op_step list_channel)
     [TrySend (demo_event 1), Send (demo_event 2), Recv, TrySend (demo_event 3), Recv]
     ([], [], \<lparr>cs_consumer_id = ''c'', cs_tx = (1, []), last_sent_lsn = lsn_zero, events_sent = 0\<rparr>)))
   = [demo_event 1, demo_event 3]"
proof -
  let ?ops = "[TrySend (demo_event 1), Send (demo_event 2), Recv, TrySend (demo_event 3), Recv]"
  let ?s = "\<lparr>cs_consumer_id = ''c'', cs_tx = (1, []), last_sent_lsn = lsn_zero, events_sent = 0\<rparr>"
  have n: "consumer_new list_channel ''c'' 1 = Ok ?s" by (simp add: consumer_new_def list_channel_def)
  obtain hist got s' where r: "fold (stream_op_step list_channel) ?ops ([], [], ?s) = (hist, got, s')"
    by (metis prod_cases3)
  then have "accepted hist = [demo_event 1, demo_event 3]" "snd (cs_tx s') = []"
    by (auto simp: list_channel_def consumer_send_def consumer_try_send_def sent_event_def accepted_def)
  then show ?thesis using consumer_stream_delivers [OF list_ch.mpsc_axioms n r] r by simp
qed

lemma less_saturating_succ:
  assumes "committed < (head :: lsn)"
  shows "lsn_saturating_add committed 1 \<le> l \<longleftrightarrow> committed < l"
proof -
  have "unat (get committed) + 1 < 2 ^ 64"
    using assms unat_less [of "get head"] by (simp add: less_lsn_def word_less_nat_alt)
  then show ?thesis
    using unat_lsn_saturating_add [of committed 1]
    by (auto simp: less_lsn_def less_eq_lsn_def word_less_nat_alt word_le_nat_alt)
qed

text \<open>
  C14. Replay hands a consumer exactly what it has not committed. With a head LSN at or above every
  acknowledged event, a consumer that is not given a range has committed everything; otherwise
  the range starts where the offset manager resumes the consumer, never after the head, and a
  read from its start returns the acknowledged events above the committed LSN in key order,
  up to the limit.
\<close>

theorem replay_reads_uncommitted:
  assumes "rocksdb Rk content cfname"
    and "content (ts_db ts) (cf_name (ts_tenant_id ts)) = Some Map.empty"
    and "fold (write_step Rk) batches ([], ts) = (acked, ts')"
    and "list_all wire_ok acked" and "limit * sz < 2 ^ 63"
    and "list_all (\<lambda>e. event_lsn e \<le> head) acked"
    and "registry_get D (registry m) consumer = Some committed"
  shows "case replay_range rm committed head of
      None \<Rightarrow> list_all (\<lambda>e. event_lsn e \<le> committed) acked
    | Some r \<Rightarrow> rr_start_lsn r = resume_lsn D m consumer \<and> rr_start_lsn r \<le> head
        \<and> (iter_clean Rk ts' (rr_start_lsn r) \<longrightarrow> read_from Rk sz ts' (rr_start_lsn r) limit =
            Ok (take (max 1 limit) (filter (\<lambda>e. committed < event_lsn e) (sort_key make_key (latest acked)))))"
proof (cases "head \<le> committed")
  case True
  then show ?thesis using assms(6) by (auto simp: replay_range_def list_all_iff)
next
  case False
  then have lt: "committed < head" by simp
  let ?start = "lsn_saturating_add committed 1"
  have range: "replay_range rm committed head = Some \<lparr>rr_start_lsn = ?start, rr_end_lsn = head\<rparr>"
    using False by (simp add: replay_range_def)
  have "?start = resume_lsn D m consumer" by (simp add: resume_lsn_def assms(7))
  moreover have "?start \<le> head" using less_saturating_succ [OF lt] lt by simp
  moreover have "read_from Rk sz ts' ?start limit =
      Ok (take (max 1 limit) (filter (\<lambda>e. committed < event_lsn e) (sort_key make_key (latest acked))))"
    if "iter_clean Rk ts' ?start"
    using rocksdb.read_acked [OF assms(1-4) that assms(5)] by (simp add: event_entries_def less_saturating_succ [OF lt])
  ultimately show ?thesis unfolding range by simp
qed

definition replay_offsets :: "(string, lsn) alist OffsetManager" where
  "replay_offsets = snd (manager_commit alist_dashmap (manager_new alist_dashmap) ''c'' lsn_zero)"

theorem replay_reads_uncommitted_witness:
  "lsn_zero < event_lsn sample_event \<and>
   read_from mem_rocks 200 (snd (write_step mem_rocks sample_batch ([], mem_store default_tenant)))
     (resume_lsn alist_dashmap replay_offsets ''c'') 10 = Ok [sample_event]"
proof -
  let ?r = "write_step mem_rocks sample_batch ([], mem_store default_tenant)"
  have acked: "fold (write_step mem_rocks) [sample_batch] ([], mem_store default_tenant) = ([sample_event], snd ?r)"
    by (simp add: prod_eq_iff) (simp add: write_step_def write_batch_def mem_rocks_def mem_store_def
        mem_add_cf_def sample_batch_def)
  have clean: "iter_clean mem_rocks (snd ?r) l" for l
    by (rule mem_iter_clean)
      (simp add: write_step_def write_batch_def mem_rocks_def mem_store_def mem_add_cf_def
        sample_batch_def mem_put_def)
  have reg: "registry_get alist_dashmap (registry replay_offsets) ''c'' = Some lsn_zero"
    by (simp add: replay_offsets_def manager_commit_def manager_new_def registry_commit_def
        registry_new_def registry_get_def commit_check_def commit_insert_def)
  have lt: "lsn_zero < event_lsn sample_event"
    by (simp add: lsn_zero_def sample_event_def event_lsn_def less_lsn_def)
  then have "\<not> event_lsn sample_event \<le> lsn_zero" by (simp only: not_le)
  then show ?thesis
    using lt replay_reads_uncommitted [OF mem_rk.rocksdb_axioms mem_store_content acked _ _ _ reg,
        of 10 200 "event_lsn sample_event" "replay_new 10"] clean wire_ok_sample
    by (auto simp: replay_range_def)
qed

subsection \<open>Flow control\<close>

datatype flow_op = FlowSend | FlowAck usize

fun flow_step :: "flow_op \<Rightarrow> GrpcBackpressure \<Rightarrow> GrpcBackpressure" where
  "flow_step FlowSend g = (if grpc_should_pause g then g else on_send g)"
| "flow_step (FlowAck n) g = on_ack n g"

lemma flow_step_bounded:
  assumes "pending g \<le> max_pending g"
  shows "pending (flow_step op g) \<le> max_pending (flow_step op g)" "max_pending (flow_step op g) = max_pending g"
proof -
  show "pending (flow_step op g) \<le> max_pending (flow_step op g)"
  proof (cases op)
    case FlowSend
    then show ?thesis using assms inc_le [of "pending g" "max_pending g"]
      by (auto simp: on_send_def grpc_should_pause_def add.commute)
  next
    case (FlowAck k)
    have "pending g - k \<le> pending g" if "k \<le> pending g" using that by (rule word_sub_le)
    then show ?thesis using FlowAck assms by (auto simp: on_ack_def intro: order_trans)
  qed
  show "max_pending (flow_step op g) = max_pending g" by (cases op) (simp_all add: on_send_def on_ack_def)
qed

lemma flow_run_bounded:
  "pending g \<le> max_pending g \<Longrightarrow> pending (fold flow_step ops g) \<le> max_pending (fold flow_step ops g)
     \<and> max_pending (fold flow_step ops g) = max_pending g"
proof (induction ops arbitrary: g)
  case (Cons op ops)
  from Cons.IH [OF flow_step_bounded(1) [OF Cons.prems]] flow_step_bounded(2) [OF Cons.prems] show ?case
    by (metis fold_simps(2))
qed simp

text \<open>
  A sender that heeds the flow control never has more than the permitted number of events
  pending, whatever the consumer acknowledges; and the counter never wraps around.
\<close>

theorem pending_bounded:
  "pending (fold flow_step ops (grpc_new n)) \<le> n \<and> max_pending (fold flow_step ops (grpc_new n)) = n"
  using flow_run_bounded [of "grpc_new n" ops] by (auto simp: grpc_new_def)

end
