(* ===== verification/Daemon.thy ===== *)
theory Daemon
  imports Flow_Control Pipeline Offsets Config
begin

text \<open>
  The daemon process: \<open>src/cmd/nendi/src/main.rs\<close>, the lifecycle and runtime settings of
  \<open>src/core/src/daemon\<close>, the choice of an I/O backend of \<open>src/core/src/io\<close>, the metrics registry
  of \<open>src/core/src/metrics\<close> with the labels of \<open>src/shared/src/metrics\<close>, and the health endpoint
  of \<open>src/http/src/health\<close>. Prometheus is the parameter \<open>P\<close> and \<open>tracing_subscriber\<close> the parameter
  \<open>T\<close>; the process environment (the kernel version file, the processor count, environment variables,
  the installation of signal handlers and the signals that arrive, the Tokio builder) is given as
  arguments.
\<close>

subsection \<open>The I/O backend\<close>

definition epoll_name :: string where
  "epoll_name = ''epoll''"

definition epoll_supports_async_submit :: bool where
  "epoll_supports_async_submit = False"

definition uring_name :: string where
  "uring_name = ''io_uring''"

definition uring_supports_async_submit :: bool where
  "uring_supports_async_submit = True"

datatype IoBackend = EpollBackend | UringBackend

fun backend_name :: "IoBackend \<Rightarrow> string" where
  "backend_name EpollBackend = epoll_name"
| "backend_name UringBackend = uring_name"

fun supports_async_submit :: "IoBackend \<Rightarrow> bool" where
  "supports_async_submit EpollBackend = epoll_supports_async_submit"
| "supports_async_submit UringBackend = uring_supports_async_submit"

text \<open>\<open>split_whitespace().nth(n)\<close>\<close>

fun nth_word :: "nat \<Rightarrow> string \<Rightarrow> string option" where
  "nth_word 0 s = first_word s"
| "nth_word (Suc n) s = (case first_word s of None \<Rightarrow> None | Some w \<Rightarrow> nth_word n (drop (length w) (trim_start s)))"

definition parse_u32_or_0 :: "string \<Rightarrow> nat" where
  "parse_u32_or_0 s = (case parse_uint 10 (2 ^ 32) s of Some n \<Rightarrow> n | None \<Rightarrow> 0)"

definition is_uring_available :: "string option \<Rightarrow> bool" where
  "is_uring_available proc_version =
     (case proc_version of
        None \<Rightarrow> False
      | Some info \<Rightarrow>
          (case nth_word 2 info of
             None \<Rightarrow> False
           | Some version \<Rightarrow>
               let parts = split_on CHR ''.'' version
               in if length parts \<ge> 2
                  then let major = parse_u32_or_0 (parts ! 0); minor = parse_u32_or_0 (parts ! 1)
                       in major > 5 \<or> major = 5 \<and> minor \<ge> 6
                  else False))"

definition detect_backend :: "string option \<Rightarrow> IoBackend" where
  "detect_backend proc_version = (if is_uring_available proc_version then UringBackend else EpollBackend)"

subsection \<open>Health\<close>

record HealthEndpoint =
  he_ready :: bool
  he_live :: bool

definition health_new :: HealthEndpoint where
  "health_new = \<lparr>he_ready = False, he_live = True\<rparr>"

definition set_ready :: "HealthEndpoint \<Rightarrow> HealthEndpoint" where
  "set_ready h = h\<lparr>he_ready := True\<rparr>"

definition set_not_ready :: "HealthEndpoint \<Rightarrow> HealthEndpoint" where
  "set_not_ready h = h\<lparr>he_ready := False\<rparr>"

definition set_not_live :: "HealthEndpoint \<Rightarrow> HealthEndpoint" where
  "set_not_live h = h\<lparr>he_live := False\<rparr>"

definition bool_str :: "bool \<Rightarrow> string" where
  "bool_str b = (if b then ''true'' else ''false'')"

definition status_json :: "HealthEndpoint \<Rightarrow> string" where
  "status_json h = ''{\"ready\":'' @ bool_str (he_ready h) @ '',\"live\":'' @ bool_str (he_live h) @ ''}''"

subsection \<open>Lifecycle and runtime\<close>

datatype LifecycleState = Initializing | Running | ShuttingDown | Stopped

record Lifecycle =
  lc_state :: LifecycleState

definition lifecycle_new :: Lifecycle where
  "lifecycle_new = \<lparr>lc_state = Initializing\<rparr>"

definition transition :: "LifecycleState \<Rightarrow> Lifecycle \<Rightarrow> Lifecycle" where
  "transition new_state l = l\<lparr>lc_state := new_state\<rparr>"

text \<open>
  \<open>wait_for_shutdown\<close> races two futures. Both install their handler when they are first polled,
  which happens before either can be ready, and panic if that fails (\<open>ctrl_c_ok\<close> and \<open>term_ok\<close> say
  whether it succeeds). Then the first of the two signals to arrive ends the wait; without one,
  it has not returned (\<open>None\<close>).
\<close>

datatype os_signal = SIGINT | SIGTERM | OtherSignal

record signal_env =
  ctrl_c_ok :: bool
  term_ok :: bool
  arriving :: "os_signal list"

definition wait_for_shutdown :: "signal_env \<Rightarrow> (os_signal option, string) rresult" where
  "wait_for_shutdown env =
     (if \<not> ctrl_c_ok env \<or> \<not> term_ok env then Panic
      else Ok (find (\<lambda>s. s = SIGINT \<or> s = SIGTERM) (arriving env)))"

record RuntimeConfig =
  worker_threads :: usize
  thread_name :: string
  thread_stack_size :: usize

definition num_cpus :: "usize option \<Rightarrow> usize" where
  "num_cpus available_parallelism = (case available_parallelism of Some n \<Rightarrow> n | None \<Rightarrow> 4)"

definition runtime_default :: "usize option \<Rightarrow> RuntimeConfig" where
  "runtime_default cpus =
     \<lparr>worker_threads = num_cpus cpus, thread_name = ''nendi-worker'', thread_stack_size = 4 * 1024 * 1024\<rparr>"

definition build_runtime :: "(RuntimeConfig \<Rightarrow> ('rt, string) rresult) \<Rightarrow> RuntimeConfig \<Rightarrow> ('rt, string) rresult" where
  "build_runtime tokio cfg = and_then (tokio cfg) (\<lambda>rt. Ok rt)"

subsection \<open>Metrics\<close>

definition LABEL_OP :: string where "LABEL_OP = ''op''"
definition LABEL_TABLE :: string where "LABEL_TABLE = ''table''"
definition LABEL_SCHEMA :: string where "LABEL_SCHEMA = ''schema''"
definition LABEL_CONSUMER :: string where "LABEL_CONSUMER = ''consumer''"
definition LABEL_DELIVERY_MODE :: string where "LABEL_DELIVERY_MODE = ''delivery_mode''"
definition LABEL_EGRESS_TYPE :: string where "LABEL_EGRESS_TYPE = ''egress_type''"
definition LABEL_STAGE :: string where "LABEL_STAGE = ''stage''"
definition LABEL_ERROR :: string where "LABEL_ERROR = ''error''"
definition LABEL_TENANT :: string where "LABEL_TENANT = ''tenant''"
definition LABEL_WEBHOOK_TARGET :: string where "LABEL_WEBHOOK_TARGET = ''webhook_target''"
definition LABEL_CIRCUIT_STATE :: string where "LABEL_CIRCUIT_STATE = ''circuit_state''"

datatype metric_opts =
    IntCounter string string
  | IntCounterVec string string "string list"
  | IntGauge string string
  | Histogram string string "f64 list"

record ('r, 'm) prom_ops =
  pm_registry :: 'r
  pm_create :: "metric_opts \<Rightarrow> ('m, string) rresult"
  pm_register :: "'r \<Rightarrow> 'm \<Rightarrow> (unit, string) rresult \<times> 'r"
  pm_set :: "'r \<Rightarrow> 'm \<Rightarrow> i64 \<Rightarrow> 'r"
  pm_encode :: "'r \<Rightarrow> string option"

text \<open>The metrics in the order they are created, which is also the order of registration.\<close>

definition metric_specs :: "metric_opts list" where
  "metric_specs =
     [IntCounter ''nendi_events_ingested_total'' ''Total events ingested from source'',
      IntCounter ''nendi_events_filtered_total'' ''Total events discarded by ingestion filter'',
      IntCounter ''nendi_batches_flushed_total'' ''Total batches flushed to storage'',
      IntCounter ''nendi_storage_writes_total'' ''Total storage write operations'',
      IntCounter ''nendi_storage_bytes_written_total'' ''Total bytes written to storage'',
      IntCounterVec ''nendi_events_delivered_total'' ''Total events delivered to consumers''
        [''consumer'', ''egress_type''],
      IntCounterVec ''nendi_delivery_errors_total'' ''Total delivery errors'' [''consumer'', ''error''],
      IntGauge ''nendi_ring_buffer_size'' ''Current ring buffer length'',
      IntGauge ''nendi_ring_buffer_capacity'' ''Ring buffer capacity'',
      Histogram ''nendi_flush_latency_seconds'' ''Batch flush latency''
        (map rnd [1 / 10000, 5 / 10000, 1 / 1000, 5 / 1000, 1 / 100, 5 / 100, 1 / 10]),
      IntGauge ''nendi_active_consumers'' ''Number of active consumer streams'',
      IntGauge ''nendi_consumer_lag_events'' ''Consumer lag in number of events'',
      IntGauge ''nendi_memory_used_bytes'' ''Current memory usage'',
      IntGauge ''nendi_memory_budget_bytes'' ''Total memory budget'']"

fun create_all :: "('r, 'm) prom_ops \<Rightarrow> metric_opts list \<Rightarrow> ('m list, string) rresult" where
  "create_all P [] = Ok []"
| "create_all P (x # xs) = and_then (pm_create P x) (\<lambda>m. and_then (create_all P xs) (\<lambda>ms. Ok (m # ms)))"

fun register_all :: "('r, 'm) prom_ops \<Rightarrow> 'm list \<Rightarrow> 'r \<Rightarrow> ('r, string) rresult" where
  "register_all P [] r = Ok r"
| "register_all P (m # ms) r =
     (case pm_register P r m of
        (Ok _, r) \<Rightarrow> register_all P ms r
      | (Err e, r) \<Rightarrow> Err e
      | (Panic, r) \<Rightarrow> Panic)"

text \<open>The metrics of a registry are kept in the order of \<open>metric_specs\<close>.\<close>

record ('r, 'm) MetricsRegistry =
  mr_registry :: 'r
  mr_metrics :: "'m list"

definition metrics_new :: "('r, 'm) prom_ops \<Rightarrow> (('r, 'm) MetricsRegistry, string) rresult" where
  "metrics_new P = and_then (create_all P metric_specs) (\<lambda>ms.
     and_then (register_all P ms (pm_registry P)) (\<lambda>r. Ok \<lparr>mr_registry = r, mr_metrics = ms\<rparr>))"

definition metrics_encode :: "('r, 'm) prom_ops \<Rightarrow> ('r, 'm) MetricsRegistry \<Rightarrow> string" where
  "metrics_encode P m = (case pm_encode P (mr_registry m) of Some s \<Rightarrow> s | None \<Rightarrow> [])"

subsection \<open>The daemon\<close>

definition flush_from_config :: "nanos \<Rightarrow> PipelineConfig \<Rightarrow> FlushPolicy" where
  "flush_from_config now cfg = flush_new (flush_max_bytes cfg) (flush_max_age_us cfg) now"

text \<open>What can be observed of the daemon: its lifecycle state and its health, after every change.\<close>

type_synonym daemon_view = "LifecycleState \<times> HealthEndpoint"

record ('q, 'd, 'r, 'm) daemon_parts =
  dp_metrics :: "('r, 'm) MetricsRegistry"
  dp_memory :: MemoryBudget
  dp_gate :: BackpressureGate
  dp_coordinator :: "'q PipelineCoordinator"
  dp_offsets :: "'d OffsetManager"
  dp_backend :: IoBackend

definition init_parts ::
    "('q, ChangeEvent) array_queue_ops \<Rightarrow> 'd offset_dm \<Rightarrow> ('r, 'm) prom_ops \<Rightarrow> string option \<Rightarrow> nanos
     \<Rightarrow> NendiConfig \<Rightarrow> (('q, 'd, 'r, 'm) daemon_parts, string) rresult" where
  "init_parts Q D P proc_version now cfg =
     and_then (metrics_new P) (\<lambda>metrics.
       let memory = budget_from_config (nc_memory cfg);
           metrics = metrics\<lparr>mr_registry := pm_set P (mr_registry metrics) (mr_metrics metrics ! 13) (mb_budget_bytes memory)\<rparr>
       in and_then (ring_new Q (unat (ring_buffer_capacity (nc_pipeline cfg)))) (\<lambda>ring.
            Ok \<lparr>dp_metrics = metrics, dp_memory = memory, dp_gate = gate_new,
                dp_coordinator = coordinator_new ring (flush_from_config now (nc_pipeline cfg)),
                dp_offsets = manager_new D, dp_backend = detect_backend proc_version\<rparr>))"

text \<open>A run that is still waiting for a signal has no result yet, \<open>None\<close>.\<close>

definition run_daemon ::
    "('q, ChangeEvent) array_queue_ops \<Rightarrow> 'd offset_dm \<Rightarrow> ('r, 'm) prom_ops \<Rightarrow> string option \<Rightarrow> nanos \<Rightarrow> signal_env
     \<Rightarrow> NendiConfig \<Rightarrow> (unit, string) rresult option \<times> daemon_view list" where
  "run_daemon Q D P proc_version now signals cfg =
     (let lifecycle = transition Initializing lifecycle_new
      in case init_parts Q D P proc_version now cfg of
           Err e \<Rightarrow> (Some (Err e), [])
         | Panic \<Rightarrow> (Some Panic, [])
         | Ok parts \<Rightarrow>
             let health = health_new; v0 = (lc_state lifecycle, health);
                 lifecycle = transition Running lifecycle; v1 = (lc_state lifecycle, health);
                 health = set_ready health; v2 = (lc_state lifecycle, health)
             in case wait_for_shutdown signals of
                  Ok None \<Rightarrow> (None, [v0, v1, v2])
                | Ok (Some _) \<Rightarrow>
                    let lifecycle = transition ShuttingDown lifecycle; v3 = (lc_state lifecycle, health);
                        health = set_not_ready health; v4 = (lc_state lifecycle, health);
                        lifecycle = transition Stopped lifecycle; v5 = (lc_state lifecycle, health)
                    in (Some (Ok ()), [v0, v1, v2, v3, v4, v5])
                | Err e \<Rightarrow> (Some (Err e), [v0, v1, v2])
                | Panic \<Rightarrow> (Some Panic, [v0, v1, v2]))"

text \<open>
  Logging: the filter comes from the environment (\<open>RUST_LOG\<close>) or is \<open>info\<close>, and \<open>init\<close> panics when
  a global subscriber is set already.
\<close>

record ('f, 'g) tracing_ops =
  tr_filter_from_env :: "string option \<Rightarrow> ('f, string) rresult"
  tr_filter_new :: "string \<Rightarrow> 'f"
  tr_init :: "'f \<Rightarrow> bool \<Rightarrow> bool \<Rightarrow> 'g \<Rightarrow> (unit, string) rresult \<times> 'g"

definition init_logging :: "('f, 'g) tracing_ops \<Rightarrow> string option \<Rightarrow> 'g \<Rightarrow> (unit, string) rresult \<times> 'g" where
  "init_logging T rust_log g =
     (let filter = (case tr_filter_from_env T rust_log of Ok f \<Rightarrow> f | _ \<Rightarrow> tr_filter_new T ''info'')
      in case tr_init T filter True True g of (Ok _, g) \<Rightarrow> (Ok (), g) | (_, g) \<Rightarrow> (Panic, g))"

definition daemon_main ::
    "('f, 'g) tracing_ops \<Rightarrow> string option \<Rightarrow> 'g \<Rightarrow> 'v config_ops \<Rightarrow> (config_source list \<Rightarrow> ('v, string) rresult)
     \<Rightarrow> string option \<Rightarrow> (RuntimeConfig \<Rightarrow> ('rt, string) rresult) \<Rightarrow> usize option
     \<Rightarrow> (NendiConfig \<Rightarrow> (unit, string) rresult option \<times> daemon_view list)
     \<Rightarrow> (unit, string) rresult option \<times> daemon_view list" where
  "daemon_main T rust_log g C build nendi_env tokio cpus daemon =
     (case init_logging T rust_log g of
        (Ok _, g) \<Rightarrow>
          (let env = (case nendi_env of Some e \<Rightarrow> e | None \<Rightarrow> ''development'')
           in case load_config C build ''config'' env of
                Err e \<Rightarrow> (Some (Err e), [])
              | Panic \<Rightarrow> (Some Panic, [])
              | Ok cfg \<Rightarrow>
                  (case build_runtime tokio (runtime_default cpus) of
                     Err e \<Rightarrow> (Some (Err e), [])
                   | Panic \<Rightarrow> (Some Panic, [])
                   | Ok rt \<Rightarrow> daemon cfg))
      | (Err e, g) \<Rightarrow> (Some (Err e), [])
      | (Panic, g) \<Rightarrow> (Some Panic, []))"

subsection \<open>Words\<close>

lemma nth_word_Suc:
  assumes "plain_word w"
  shows "nth_word (Suc n) (w @ CHR '' '' # s) = nth_word n (CHR '' '' # s)"
    "nth_word (Suc n) (CHR '' '' # w @ CHR '' '' # s) = nth_word n (CHR '' '' # s)"
proof -
  have "first_word (CHR '' '' # w @ CHR '' '' # s) = Some w"
    using trim_start_plain [OF assms] take_word_plain [of w "CHR '' '' # s"] assms
    by (simp add: first_word_def plain_word_def)
  then show "nth_word (Suc n) (w @ CHR '' '' # s) = nth_word n (CHR '' '' # s)"
    "nth_word (Suc n) (CHR '' '' # w @ CHR '' '' # s) = nth_word n (CHR '' '' # s)"
    using first_word_plain [OF assms, of "CHR '' '' # s"] trim_start_plain [OF assms] by simp_all
qed

lemma dec_str_no_dot: "CHR ''.'' \<notin> set (dec_str n)"
proof
  assume "CHR ''.'' \<in> set (dec_str n)"
  then have "CHR ''.'' \<in> upper_digit ` {..<10}" using set_radix_str [of 10 upper_digit n] by (auto simp: dec_str_def)
  moreover have "\<forall>d < 10. upper_digit d \<noteq> CHR ''.''" by code_simp
  ultimately show False by auto
qed

lemma parse_u32_dec: "n < 2 ^ 32 \<Longrightarrow> parse_u32_or_0 (dec_str n) = n"
  using parse_uint_radix_str [of 10 n "2 ^ 32"] by (simp add: parse_u32_or_0_def dec_str_def)

text \<open>
  The daemon uses io_uring exactly on kernels from 5.6 on: when the kernel's version file reads
  \<open>Linux version X.Y.\<close> followed by anything, the backend is io_uring if and only if X.Y is at
  least 5.6; when the file cannot be read it is epoll.
\<close>

theorem detect_backend_version:
  assumes "x < 2 ^ 32" "y < 2 ^ 32"
  shows "detect_backend (Some (''Linux version '' @ dec_str x @ ''.'' @ dec_str y @ ''.'' @ rest)) =
      (if 5 < x \<or> x = 5 \<and> 6 \<le> y then UringBackend else EpollBackend)
    \<and> detect_backend None = EpollBackend"
proof -
  let ?v = "dec_str x @ ''.'' @ dec_str y @ ''.''"
  have p: "plain_word ''Linux''" "plain_word ''version''" by (simp_all add: plain_word_def is_ascii_def ascii_ws_def)
  have v: "plain_word ?v"
    using dec_str_plain [of x] dec_str_plain [of y] by (simp add: plain_word_def is_ascii_def ascii_ws_def)
  obtain w where w: "take_word (?v @ rest) = ?v @ w"
    using take_word_append [of ?v rest] v unfolding plain_word_def by blast
  have "nth_word 2 (''Linux'' @ CHR '' '' # (''version'' @ CHR '' '' # ?v @ rest)) = nth_word 0 (CHR '' '' # ?v @ rest)"
    unfolding numeral_2_eq_2 by (simp only: nth_word_Suc(1) [OF p(1)] nth_word_Suc(2) [OF p(2)])
  also have "\<dots> = Some (?v @ w)"
    using trim_start_plain(2) [OF v, of rest] w v by (simp add: first_word_def plain_word_def)
  finally have n: "nth_word 2 (''Linux version '' @ dec_str x @ ''.'' @ dec_str y @ ''.'' @ rest) = Some (?v @ w)" by simp
  have "split_on CHR ''.'' (?v @ w) = dec_str x # dec_str y # split_on CHR ''.'' w"
    using split_on_append [OF dec_str_no_dot [of x]] split_on_append [OF dec_str_no_dot [of y]] by simp
  then have "is_uring_available (Some (''Linux version '' @ dec_str x @ ''.'' @ dec_str y @ ''.'' @ rest)) \<longleftrightarrow>
      5 < x \<or> x = 5 \<and> 6 \<le> y"
    unfolding is_uring_available_def option.case n
    by (simp add: parse_u32_dec [OF assms(1)] parse_u32_dec [OF assms(2)] Let_def)
  then show ?thesis by (simp add: detect_backend_def is_uring_available_def [of None])
qed

theorem detect_backend_version_witness:
  "detect_backend (Some (''Linux version '' @ dec_str 6 @ ''.'' @ dec_str 1 @ ''.'' @ ''0-13-amd64 (debian)'')) = UringBackend"
  using detect_backend_version [of 6 1 "''0-13-amd64 (debian)''"] by simp

subsection \<open>The contract of Prometheus\<close>

text \<open>
  Creating a metric succeeds when its name and labels have the documented form, it has a help
  text and its buckets increase; registering succeeds when no metric of this name is registered.
\<close>

definition name_char :: "char \<Rightarrow> bool" where
  "name_char c \<longleftrightarrow> (let n = of_char c :: nat in 48 \<le> n \<and> n \<le> 57 \<or> 65 \<le> n \<and> n \<le> 90 \<or> 97 \<le> n \<and> n \<le> 122 \<or> n = 95)"

definition valid_name :: "string \<Rightarrow> bool" where
  "valid_name s \<longleftrightarrow> s \<noteq> [] \<and> list_all name_char s \<and> \<not> (48 \<le> (of_char (hd s) :: nat) \<and> (of_char (hd s) :: nat) \<le> 57)"

fun increasing :: "f64 list \<Rightarrow> bool" where
  "increasing (a # b # xs) \<longleftrightarrow> f64_lt a b \<and> increasing (b # xs)"
| "increasing _ \<longleftrightarrow> True"

fun opts_name :: "metric_opts \<Rightarrow> string" where
  "opts_name (IntCounter n h) = n"
| "opts_name (IntCounterVec n h ls) = n"
| "opts_name (IntGauge n h) = n"
| "opts_name (Histogram n h bs) = n"

fun valid_opts :: "metric_opts \<Rightarrow> bool" where
  "valid_opts (IntCounter n h) \<longleftrightarrow> valid_name n \<and> h \<noteq> []"
| "valid_opts (IntCounterVec n h ls) \<longleftrightarrow> valid_name n \<and> h \<noteq> [] \<and> list_all valid_name ls \<and> distinct ls"
| "valid_opts (IntGauge n h) \<longleftrightarrow> valid_name n \<and> h \<noteq> []"
| "valid_opts (Histogram n h bs) \<longleftrightarrow> valid_name n \<and> h \<noteq> [] \<and> increasing bs"

locale prometheus =
  fixes P :: "('r, 'm) prom_ops"
    and mname :: "'m \<Rightarrow> string"
    and registered :: "'r \<Rightarrow> string set"
  assumes registry: "registered (pm_registry P) = {}"
    and create: "valid_opts x \<Longrightarrow> \<exists>m. pm_create P x = Ok m \<and> mname m = opts_name x"
    and register: "mname m \<notin> registered r \<Longrightarrow>
      \<exists>r'. pm_register P r m = (Ok (), r') \<and> registered r' = insert (mname m) (registered r)"
    and set: "registered (pm_set P r m v) = registered r"
begin

lemma create_all_ok:
  "list_all valid_opts xs \<Longrightarrow> \<exists>ms. create_all P xs = Ok ms \<and> map mname ms = map opts_name xs"
proof (induction xs)
  case (Cons x xs)
  then obtain ms where ms: "create_all P xs = Ok ms" "map mname ms = map opts_name xs" by auto
  obtain m where m: "pm_create P x = Ok m" "mname m = opts_name x" using create Cons.prems by auto
  show ?case by (intro exI [of _ "m # ms"]) (simp add: m ms)
qed simp

lemma register_all_ok:
  "distinct (map mname ms) \<Longrightarrow> set (map mname ms) \<inter> registered r = {} \<Longrightarrow>
     \<exists>r'. register_all P ms r = Ok r' \<and> registered r' = registered r \<union> set (map mname ms)"
proof (induction ms arbitrary: r)
  case (Cons m ms)
  then obtain r1 where r1: "pm_register P r m = (Ok (), r1)" "registered r1 = insert (mname m) (registered r)"
    using register [of m r] by auto
  have "set (map mname ms) \<inter> registered r1 = {}" using Cons.prems r1(2) by auto
  then obtain r' where "register_all P ms r1 = Ok r'" "registered r' = registered r1 \<union> set (map mname ms)"
    using Cons.IH [of r1] Cons.prems(1) by auto
  then show ?case by (auto simp: r1)
qed simp

end

lemma metric_specs_names: "distinct (map opts_name metric_specs)"
  by (simp add: metric_specs_def)

lemma rnd_less_double:
  assumes "1 / 2 ^ 20 \<le> x" "2 * x \<le> y" "y \<le> 1"
  shows "f64_lt (rnd x) (rnd y)"
proof -
  have small: "pow2 (- 1022) \<le> 1 / 2 ^ 20" using pow2_mono [of "- 1022" "- 20"] by (simp add: pow2_def)
  have big: "(1 :: rat) \<le> 2 ^ 1000" by simp
  have pos: "0 < x" by (rule less_le_trans [OF _ assms(1)]) simp
  then have x: "pow2 (- 1022) \<le> x" "x \<le> 2 ^ 1000" and y: "pow2 (- 1022) \<le> y" "y \<le> 2 ^ 1000"
    using small big assms by linarith+
  obtain r where r: "rnd x = Fin r" "\<bar>r - x\<bar> \<le> x / 2 ^ 53" by (rule rnd_error [OF x])
  obtain q where q: "rnd y = Fin q" "\<bar>q - y\<bar> \<le> y / 2 ^ 53" by (rule rnd_error [OF y])
  have "x / 2 ^ 53 \<le> x / 4" "y / 2 ^ 53 \<le> y / 4" using pos assms by (simp_all add: field_simps)
  then have "r < q" using r(2) q(2) pos assms(2) by linarith
  then show ?thesis by (simp add: r q)
qed

lemma metric_specs_valid: "list_all valid_opts metric_specs"
proof -
  have "increasing (map rnd [1 / 10000, 5 / 10000, 1 / 1000, 5 / 1000, 1 / 100, 5 / 100, 1 / 10])"
    by (simp add: rnd_less_double)
  then show ?thesis by (simp add: metric_specs_def valid_name_def name_char_def)
qed

subsection \<open>A registry in memory\<close>

definition list_prom :: "(string list, metric_opts) prom_ops" where
  "list_prom = \<lparr>pm_registry = [], pm_create = \<lambda>x. if valid_opts x then Ok x else Err ''invalid'',
     pm_register = \<lambda>r m. if opts_name m \<in> set r then (Err ''duplicate'', r) else (Ok (), opts_name m # r),
     pm_set = \<lambda>r m v. r, pm_encode = \<lambda>r. Some (concat r)\<rparr>"

interpretation list_pm: prometheus list_prom opts_name set
  by unfold_locales (auto simp: list_prom_def)

subsection \<open>The daemon's run\<close>

lemma metrics_new_ok:
  assumes "prometheus P mname registered"
  obtains m where "metrics_new P = Ok m" "registered (mr_registry m) = set (map opts_name metric_specs)"
    "map mname (mr_metrics m) = map opts_name metric_specs"
proof -
  obtain ms where ms: "create_all P metric_specs = Ok ms" "map mname ms = map opts_name metric_specs"
    using prometheus.create_all_ok [OF assms metric_specs_valid] by blast
  have "distinct (map mname ms)" using metric_specs_names ms(2) by simp
  moreover have "set (map mname ms) \<inter> registered (pm_registry P) = {}"
    using prometheus.registry [OF assms] by simp
  ultimately obtain r where "register_all P ms (pm_registry P) = Ok r"
      "registered r = registered (pm_registry P) \<union> set (map mname ms)"
    using prometheus.register_all_ok [OF assms] by blast
  then show thesis
    using that [of "\<lparr>mr_registry = r, mr_metrics = ms\<rparr>"] ms prometheus.registry [OF assms]
    by (simp add: metrics_new_def)
qed

text \<open>
  The metrics registry always comes up: under the documented behaviour of Prometheus every one
  of its fourteen metrics is created and registered, under its own name, and every label of a
  metric is one of the shared label constants.
\<close>

theorem metrics_registered:
  assumes "prometheus P mname registered"
  shows "(\<exists>m. metrics_new P = Ok m \<and> registered (mr_registry m) = set (map opts_name metric_specs)
      \<and> card (registered (mr_registry m)) = 14)
    \<and> list_all (\<lambda>x. case x of IntCounterVec _ _ ls \<Rightarrow> set ls \<subseteq> {LABEL_CONSUMER, LABEL_EGRESS_TYPE, LABEL_ERROR} | _ \<Rightarrow> True)
        metric_specs"
proof -
  have "card (set (map opts_name metric_specs)) = 14"
    using distinct_card [OF metric_specs_names] by (simp add: metric_specs_def)
  moreover obtain m where "metrics_new P = Ok m" "registered (mr_registry m) = set (map opts_name metric_specs)"
    by (rule metrics_new_ok [OF assms])
  ultimately show ?thesis
    by (auto simp: metric_specs_def LABEL_CONSUMER_def LABEL_EGRESS_TYPE_def LABEL_ERROR_def)
qed

theorem metrics_registered_witness:
  "\<exists>m. metrics_new list_prom = Ok m \<and> set (mr_registry m) = set (map opts_name metric_specs)"
  using metrics_registered [OF list_pm.prometheus_axioms] by blast

definition quick_env :: "os_signal list \<Rightarrow> signal_env" where
  "quick_env sigs = \<lparr>ctrl_c_ok = True, term_ok = True, arriving = sigs\<rparr>"

text \<open>
  C32. The daemon's run, for every configuration and all signals. With a ring capacity of zero it
  panics before anything is visible. Otherwise it becomes ready, whatever the source and the
  storage settings are: no part of the run connects to the source or opens the store. It stays so
  while no SIGINT or SIGTERM arrives; the first of them takes it through the rest of the lifecycle
  to a stop without error, no longer ready. When a signal handler cannot be installed it panics
  in the middle of running, still reporting ready.
\<close>

theorem run_daemon_lifecycle:
  assumes "prometheus P mname registered"
  shows "run_daemon Q D P proc_version now signals cfg =
    (let up = [(Initializing, \<lparr>he_ready = False, he_live = True\<rparr>), (Running, \<lparr>he_ready = False, he_live = True\<rparr>),
               (Running, \<lparr>he_ready = True, he_live = True\<rparr>)];
         down = [(ShuttingDown, \<lparr>he_ready = True, he_live = True\<rparr>), (ShuttingDown, \<lparr>he_ready = False, he_live = True\<rparr>),
                 (Stopped, \<lparr>he_ready = False, he_live = True\<rparr>)]
     in if ring_buffer_capacity (nc_pipeline cfg) = 0 then (Some Panic, [])
        else if \<not> ctrl_c_ok signals \<or> \<not> term_ok signals then (Some Panic, up)
        else if SIGINT \<in> set (arriving signals) \<or> SIGTERM \<in> set (arriving signals) then (Some (Ok ()), up @ down)
        else (None, up))"
proof -
  obtain m where m: "metrics_new P = Ok m" by (rule metrics_new_ok [OF assms])
  have init: "init_parts Q D P proc_version now cfg = Panic \<longleftrightarrow> ring_buffer_capacity (nc_pipeline cfg) = 0"
    "\<exists>parts. init_parts Q D P proc_version now cfg = (if ring_buffer_capacity (nc_pipeline cfg) = 0 then Panic else Ok parts)"
    by (auto simp: init_parts_def m ring_new_def Let_def unat_gt_0)
  have wait: "find (\<lambda>s. s = SIGINT \<or> s = SIGTERM) sigs = None \<longleftrightarrow> SIGINT \<notin> set sigs \<and> SIGTERM \<notin> set sigs" for sigs
    by (auto simp: find_None_iff)
  show ?thesis
    using init wait [of "arriving signals"]
    by (cases "find (\<lambda>s. s = SIGINT \<or> s = SIGTERM) (arriving signals)")
      (auto simp: run_daemon_def wait_for_shutdown_def Let_def transition_def lifecycle_new_def health_new_def
        set_ready_def set_not_ready_def)
qed

theorem run_daemon_lifecycle_witness:
  "\<exists>cfg. de_NendiConfig toml_config (TTable default_toml_base) = Ok cfg
     \<and> fst (run_daemon list_queue alist_dashmap list_prom None 0 (quick_env [OtherSignal, SIGTERM]) cfg) = Some (Ok ())
     \<and> fst (run_daemon list_queue alist_dashmap list_prom None 0 (quick_env [OtherSignal]) cfg) = None"
proof -
  have "\<exists>cfg. de_NendiConfig toml_config (TTable default_toml_base) = Ok cfg \<and> ring_buffer_capacity (nc_pipeline cfg) \<noteq> 0"
    by (simp add: de_defs toml_config_def default_toml_base_def de_int_def)
  then show ?thesis by (auto simp: run_daemon_lifecycle [OF list_pm.prometheus_axioms] quick_env_def Let_def)
qed

text \<open>
  The daemon does not start with the shipped configuration. Whatever the environment, the
  logging, the runtime and the processor count, when the merged configuration has a \<open>webhook\<close>
  section without a \<open>targets\<close> table, as \<open>src/config/default.toml\<close> has, the process ends with an
  error or a panic before it is visible in any state.
\<close>

theorem main_fails_without_targets:
  assumes "\<And>sources. build sources = Ok v"
    and "cfg_table C v = Ok fs" and "map_of fs ''webhook'' = Some w" and "\<not> cfg_is_nil C w"
    and "cfg_table C w = Ok ws" and "map_of ws ''targets'' = None"
  shows "(\<exists>r. fst (daemon_main T rust_log g C build env tokio cpus daemon) = Some r \<and> r \<noteq> Ok ())
    \<and> snd (daemon_main T rust_log g C build env tokio cpus daemon) = []"
proof -
  define e where "e = (case env of Some e \<Rightarrow> e | None \<Rightarrow> ''development'')"
  have "\<not> (\<exists>cfg. load_config C build ''config'' e = Ok cfg)"
    by (rule webhook_section_needs_targets [OF assms])
  then show ?thesis
    by (cases "load_config C build ''config'' e"; cases "init_logging T rust_log g"; cases "fst (init_logging T rust_log g)")
      (simp_all add: daemon_main_def e_def Let_def)
qed

definition quiet_tracing :: "(string, bool) tracing_ops" where
  "quiet_tracing = \<lparr>tr_filter_from_env = \<lambda>v. case v of Some s \<Rightarrow> Ok s | None \<Rightarrow> Err ''not set'',
     tr_filter_new = id, tr_init = \<lambda>f a b g. if g then (Err ''already set'', g) else (Ok (), True)\<rparr>"

theorem main_fails_without_targets_witness:
  "snd (daemon_main quiet_tracing None False toml_config (\<lambda>_. Ok default_toml) None (\<lambda>_. Ok ()) (Some 8)
     (run_daemon list_queue alist_dashmap list_prom None 0 (quick_env []))) = []"
  by (rule main_fails_without_targets [where C = toml_config and v = default_toml
        and fs = "(''webhook'', TTable default_toml_webhook) # default_toml_base"
        and w = "TTable default_toml_webhook" and ws = default_toml_webhook, THEN conjunct2])
    (simp_all add: default_toml_def toml_config_def default_toml_webhook_def)

end
