(* ===== verification/Pg_Types.thy ===== *)
theory Pg_Types
  imports Replication Proto
begin

text \<open>
  The types of what replication produces. Whatever bytes arrive, the strings in the decoder and in
  the events it returns are valid UTF-8 (the invariant of \<open>String\<close>, which the decoder must establish
  because it starts from bytes), rows are present as the kind of change requires, and the sizes
  are those the storage format can carry as long as messages respect PostgreSQL's limits.
\<close>

subsection \<open>Typing of names, relations and decoders\<close>

definition name_ok :: "string \<Rightarrow> bool" where
  "name_ok s \<longleftrightarrow> wf_str s \<and> length s < 2 ^ 16"

definition rel_typed :: "RelationInfo \<Rightarrow> bool" where
  "rel_typed rel \<longleftrightarrow> name_ok (ri_schema rel) \<and> name_ok (ri_table rel)
     \<and> list_all (\<lambda>c. name_ok (cm_name c)) (ri_columns rel)"

definition decoder_typed :: "'m relation_dm \<Rightarrow> 'm PgOutputDecoder \<Rightarrow> bool" where
  "decoder_typed D d \<longleftrightarrow> (\<forall>i rel. dm_get D (relations d) i = Some rel \<longrightarrow> rel_typed rel)"

text \<open>Which rows an event carries is determined by the kind of change.\<close>

definition rows_fit :: "ChangeEvent \<Rightarrow> bool" where
  "rows_fit e = (case ev_op e of
     Insert \<Rightarrow> ev_after e \<noteq> None \<and> ev_before e = None
   | Update \<Rightarrow> ev_after e \<noteq> None
   | Delete \<Rightarrow> ev_after e = None \<and> ev_before e \<noteq> None
   | Truncate \<Rightarrow> ev_after e = None \<and> ev_before e = None)"

text \<open>
  The limits of the server: a message is smaller than 1 GB (the largest allocation), and the
  strings of a relation message, which are identifiers, are shorter than 64 KB.
\<close>

definition short_strings :: "bytes \<Rightarrow> bool" where
  "short_strings data \<longleftrightarrow> list_all (\<lambda>p. scan_nul data p - p < 2 ^ 16) [0..<length data]"

definition msg_limits :: "bytes \<Rightarrow> bool" where
  "msg_limits data \<longleftrightarrow> length data < 2 ^ 30
     \<and> (data \<noteq> [] \<and> hd data = byte_of CHR ''R'' \<longrightarrow> short_strings (tl data))"

subsection \<open>The readers\<close>

lemma read_cstring_typed: "read_cstring data pos = Ok (s, p) \<Longrightarrow> short_strings data \<Longrightarrow> name_ok s"
proof -
  assume r: "read_cstring data pos = Ok (s, p)" and short: "short_strings data"
  then obtain bs where b: "scan_nul data pos < length data"
      "(subslice data pos (scan_nul data pos) :: (bytes, string) rresult) = Ok bs" "from_utf8 utf8_error bs = Ok s"
    by (auto simp: read_cstring_def and_then_Ok_iff Let_def split: if_splits)
  have "pos \<in> set [0..<length data]" using b(1) scan_nul_mono [of pos data] by simp
  then have "scan_nul data pos - pos < 2 ^ 16" using short unfolding short_strings_def list_all_iff by blast
  moreover have "length s = length bs" "wf_str s" using from_utf8_Ok [OF b(3)] by (auto simp: as_bytes_def)
  ultimately show ?thesis using subslice_length [OF b(2)] by (simp add: name_ok_def)
qed

lemma is_ascii_hex: "is_ascii (hex_encode bs)"
proof -
  have "list_all (\<lambda>d. (of_char (lower_digit d) :: nat) < 128) [0..<16]" by code_simp
  then have "d < 16 \<Longrightarrow> (of_char (lower_digit d) :: nat) < 128" for d by (simp add: list_all_iff)
  moreover have "unat b div 16 < 16" for b :: u8 using unat_less [of b] by (simp add: less_mult_imp_div_less)
  ultimately show ?thesis by (auto simp: is_ascii_def hex_encode_def list_all_iff)
qed

lemma length_hex: "length (hex_encode bs) = 2 * length bs"
  by (simp add: hex_encode_def length_concat comp_def sum_list_triv)

lemma col_name_ok: "i < 2 ^ 16 \<Longrightarrow> name_ok (''col_'' @ dec_str i)"
  using dec_str_plain [of i] length_dec_str [of i]
  by (auto simp: name_ok_def plain_word_def is_ascii_def intro!: wf_str_ascii)

lemma decode_tuple_col_typed:
  assumes "decode_tuple_col data cols i pos = Ok (c, p)" and "length data < 2 ^ 30" and "i < 2 ^ 16"
    and "list_all (\<lambda>c. name_ok (cm_name c)) cols"
  shows "wire_col c"
proof -
  have name: "name_ok (case if i < length cols then Some (cols ! i) else None of
      Some c \<Rightarrow> cm_name c | None \<Rightarrow> ''col_'' @ dec_str i)"
    using assms(4) col_name_ok [OF assms(3)] by (auto simp: list_all_iff)
  have utf: "wf_str v \<and> length v < 2 ^ 32"
    if "(subslice data a (a + n) :: (bytes, string) rresult) = Ok bs" "from_utf8 utf8_error bs = Ok v"
      "a + n \<le> length data" for a n bs v
    using from_utf8_Ok [OF that(2)] subslice_length [OF that(1)] that(3) assms(2) by (auto simp: as_bytes_def)
  have bin: "wf_str ([CHR 92] @ ''x'' @ hex_encode bs) \<and> length ([CHR 92] @ ''x'' @ hex_encode bs) < 2 ^ 32"
    if "(subslice data a (a + n) :: (bytes, string) rresult) = Ok bs" "a + n \<le> length data" for a n bs
    using subslice_length [OF that(1)] that(2) assms(2) is_ascii_hex [of bs]
    by (auto simp: length_hex is_ascii_def intro!: wf_str_ascii)
  from assms(1) show ?thesis
    using name utf bin
    by (auto simp: decode_tuple_col_def and_then_Ok_iff Let_def wire_col_def name_ok_def not_less
        simp del: append_Cons append_Nil split: if_splits)
qed

lemma decode_tuple_cols_typed:
  "decode_tuple_cols n data cols i pos = Ok (cs, p) \<Longrightarrow> length data < 2 ^ 30 \<Longrightarrow> i + n \<le> 2 ^ 16 \<Longrightarrow>
     list_all (\<lambda>c. name_ok (cm_name c)) cols \<Longrightarrow> length cs = n \<and> list_all wire_col cs"
proof (induction n arbitrary: i pos cs p)
  case (Suc n)
  from Suc.prems(1) obtain c q cs' where
    c: "decode_tuple_col data cols i pos = Ok (c, q)" and
    cs: "decode_tuple_cols n data cols (i + 1) q = Ok (cs', p)" and eq: "cs = c # cs'"
    by (auto simp: and_then_Ok_iff)
  have "wire_col c" using decode_tuple_col_typed [OF c] Suc.prems by simp
  with Suc.IH [OF cs] Suc.prems eq show ?case by simp
qed simp

lemma decode_tuple_data_typed:
  assumes "decode_tuple_data data pos cols = Ok (row, p)" and "length data < 2 ^ 30"
    and "list_all (\<lambda>c. name_ok (cm_name c)) cols"
  shows "wire_row (Some row)"
  using assms decode_tuple_cols_typed [of "unat n" data cols 0 for n :: u16] unat_u16_bound
  by (fastforce simp: decode_tuple_data_def and_then_Ok_iff wire_row_def less_imp_le)

lemma decode_rel_cols_typed:
  "decode_rel_cols n data pos = Ok (cs, p) \<Longrightarrow> short_strings data \<Longrightarrow>
     list_all (\<lambda>c. name_ok (cm_name c)) cs"
  by (induction n arbitrary: pos cs p) (auto simp: and_then_Ok_iff dest: read_cstring_typed)

subsection \<open>The messages\<close>

lemma mk_event_typed:
  "rel_typed rel \<Longrightarrow> wire_row after \<Longrightarrow> wire_row before \<Longrightarrow> wire_ok (mk_event lsn op rel after before)"
  by (simp add: mk_event_def wire_ok_def rel_typed_def name_ok_def)

lemma mk_event_rows:
  "rows_fit (mk_event lsn Insert rel (Some row) None)" "rows_fit (mk_event lsn Update rel (Some row) before)"
  "rows_fit (mk_event lsn Delete rel None (Some row))" "rows_fit (mk_event lsn Truncate rel None None)"
  by (simp_all add: rows_fit_def mk_event_def)

lemma get_relation_typed: "get_relation D d i = Ok rel \<Longrightarrow> decoder_typed D d \<Longrightarrow> rel_typed rel"
  by (auto simp: get_relation_def decoder_typed_def ok_or_def split: option.splits)

lemma wire_row_None [simp]: "wire_row None"
  by (simp add: wire_row_def)

context relation_map
begin

lemma decode_relation_typed:
  assumes "decode_relation D d data = (r, d')" and short: "short_strings data" and "decoder_typed D d"
  shows "decoder_typed D d'"
proof -
  have names: "name_ok s" if "read_cstring data pos = Ok (s, p)" for s pos p
    using that short by (rule read_cstring_typed)
  have cols: "list_all (\<lambda>c. name_ok (cm_name c)) cs" if "decode_rel_cols n data pos = Ok (cs, p)" for n cs pos p
    using that short by (rule decode_rel_cols_typed)
  from assms(1,3) show ?thesis
    by (auto simp: decode_relation_def decoder_typed_def rel_typed_def and_then_Ok_iff
        dest!: names cols split: rresult.splits if_splits)
qed

end

lemma decode_change_typed:
  assumes "length data < 2 ^ 30" and "decoder_typed D d"
  shows "decode_insert D d lsn data = Ok (Some e) \<Longrightarrow> wire_ok e \<and> rows_fit e"
    and "decode_update D d lsn data = Ok (Some e) \<Longrightarrow> wire_ok e \<and> rows_fit e"
    and "decode_delete D d lsn data = Ok (Some e) \<Longrightarrow> wire_ok e \<and> rows_fit e"
    and "decode_truncate D d lsn data = Ok (Some e) \<Longrightarrow> wire_ok e \<and> rows_fit e"
proof -
  have row: "wire_row (Some row)" if "get_relation D d i = Ok rel" "decode_tuple_data data pos (ri_columns rel) = Ok (row, p)"
    for i rel pos row p
    using decode_tuple_data_typed [OF that(2) assms(1)] get_relation_typed [OF that(1) assms(2)] by (simp add: rel_typed_def)
  note rel = get_relation_typed [OF _ assms(2)]
  show "decode_insert D d lsn data = Ok (Some e) \<Longrightarrow> wire_ok e \<and> rows_fit e"
    using row rel by (auto simp: decode_insert_def and_then_Ok_iff mk_event_rows intro!: mk_event_typed split: if_splits)
  show "decode_update D d lsn data = Ok (Some e) \<Longrightarrow> wire_ok e \<and> rows_fit e"
    using row rel by (auto simp: decode_update_def and_then_Ok_iff mk_event_rows intro!: mk_event_typed split: if_splits)
  show "decode_delete D d lsn data = Ok (Some e) \<Longrightarrow> wire_ok e \<and> rows_fit e"
    using row rel by (auto simp: decode_delete_def and_then_Ok_iff mk_event_rows intro!: mk_event_typed split: if_splits)
  show "decode_truncate D d lsn data = Ok (Some e) \<Longrightarrow> wire_ok e \<and> rows_fit e"
    using assms(2) by (auto simp: decode_truncate_def and_then_Ok_iff mk_event_rows decoder_typed_def
        intro!: mk_event_typed split: if_splits option.splits)
qed

context relation_map
begin

lemma decode_typed:
  assumes "decode D d lsn data = (r, d')" and "msg_limits data" and "decoder_typed D d"
  shows "decoder_typed D d' \<and> (\<forall>e. r = Ok (Some e) \<longrightarrow> wire_ok e \<and> rows_fit e)"
proof (cases data)
  case (Cons tag payload)
  then have len: "length payload < 2 ^ 30" and short: "tag = byte_of CHR ''R'' \<Longrightarrow> short_strings payload"
    using assms(2) by (simp_all add: msg_limits_def)
  show ?thesis
    using assms(1,3) decode_change_typed [OF len assms(3), of lsn] decode_relation_typed [OF _ short assms(3)]
    by (auto simp: decode_def Cons Let_def split_beta and_then_Ok_iff prod_eq_iff split: if_splits)
qed (use assms in \<open>auto simp: decode_def\<close>)

lemma decode_stream_typed:
  "decoder_typed D d \<Longrightarrow> list_all (\<lambda>(lsn, data). msg_limits data) msgs \<Longrightarrow>
     Ok (Some e) \<in> set (decode_stream D d msgs) \<Longrightarrow> wire_ok e \<and> rows_fit e"
proof (induction msgs arbitrary: d)
  case (Cons lm msgs)
  obtain lsn data where lm: "lm = (lsn, data)" by (cases lm)
  obtain r d' where dec: "decode D d lsn data = (r, d')" by fastforce
  from Cons.prems decode_typed [OF dec] Cons.IH [of d'] show ?case by (auto simp: lm dec)
qed simp

lemma decoder_new_typed: "decoder_typed D (decoder_new D)"
  by (simp add: decoder_typed_def decoder_new_def)

end

subsection \<open>Properties\<close>

text \<open>
  C10. Replication is type safe. From any bytes within the server's limits, in any order and
  however malformed, a stream only produces events that the storage format can carry (every string
  valid UTF-8, names and column counts below 2^16, values below 2^32), with exactly the rows that
  the kind of change calls for: an insert has a new row and no old one, an update a new row, a
  delete only an old one, a truncate none.
\<close>

theorem replication_type_safe:
  assumes "relation_map D"
    and "stream_run D (stream_start (stream_new D start)) msgs = (rs, s)"
    and "list_all (\<lambda>(lsn, data). msg_limits data) msgs"
    and "Ok (Some e) \<in> set rs"
  shows "wire_ok e \<and> rows_fit e"
proof -
  have "rs = decode_stream D (decoder_new D) msgs"
    using stream_run_decode [OF assms(2)] by (simp add: stream_start_def stream_new_def)
  with relation_map.decode_stream_typed [OF assms(1) relation_map.decoder_new_typed [OF assms(1)] assms(3)] assms(4)
  show ?thesis by simp
qed

text \<open>An insert with one text value, one binary value and one more than the relation has columns.\<close>

definition demo_msgs :: "(u64 \<times> bytes) list" where
  "demo_msgs = [(1, pg_encode demo_rel), (2, pg_encode (MInsert 7 [TText ''1'', TBinary [255], TNull]))]"

lemma scan_nul_le: "pos \<le> length data \<Longrightarrow> scan_nul data pos \<le> length data"
proof (induction data pos rule: scan_nul.induct)
  case (1 data pos)
  then show ?case by (subst scan_nul.simps) auto
qed

text \<open>A message below 64 KB is within the limits whatever it is.\<close>

lemma small_msg_limits: "length data < 2 ^ 16 \<Longrightarrow> msg_limits data"
proof -
  assume len: "length data < 2 ^ 16"
  have "scan_nul (tl data) p - p < 2 ^ 16" if "p < length (tl data)" for p
    using scan_nul_le [of p "tl data"] that len by simp
  then show ?thesis using len by (simp add: msg_limits_def short_strings_def list_all_iff)
qed

lemma demo_msgs_limits: "list_all (\<lambda>(lsn, data). msg_limits data) demo_msgs"
  by (simp add: demo_msgs_def demo_rel_def enc_rel_col_def enc_cstring_def enc_tuple_def as_bytes_def small_msg_limits)

lemma demo_msgs_meaning:
  "decode_stream alist_dashmap (decoder_new alist_dashmap) demo_msgs =
     decoded_stream Map.empty [(1, demo_rel), (2, MInsert 7 [TText ''1'', TBinary [255], TNull])]"
proof -
  have "list_all (\<lambda>(lsn, msg). pg_ok msg) [(1 :: u64, demo_rel), (2, MInsert 7 [TText ''1'', TBinary [255], TNull])]"
    using demo_rel_ok by (simp add: ok_tuple_def wf_str_ascii is_ascii_def)
  from alist_rel.decode_stream_new [OF this] show ?thesis by (simp add: demo_msgs_def)
qed

theorem replication_type_safe_witness:
  "\<exists>e. Ok (Some e) \<in> set (fst (stream_run alist_dashmap (stream_start (stream_new alist_dashmap lsn_zero)) demo_msgs))
     \<and> wire_ok e \<and> rows_fit e"
proof -
  obtain rs s where run: "stream_run alist_dashmap (stream_start (stream_new alist_dashmap lsn_zero)) demo_msgs = (rs, s)"
    by fastforce
  have "rs = decode_stream alist_dashmap (decoder_new alist_dashmap) demo_msgs"
    using stream_run_decode [OF run] by (simp add: stream_start_def stream_new_def)
  then obtain e where "Ok (Some e) \<in> set rs" by (auto simp: demo_msgs_meaning demo_rel_def)
  with replication_type_safe [OF alist_rel.relation_map_axioms run demo_msgs_limits this] run show ?thesis by auto
qed

end
