(* ===== verification/Sql_Scripts.thy ===== *)
theory Sql_Scripts
  imports Prelude
begin

text \<open>
  The SQL scripts that install and remove Nendi's objects in the source database,
  \<open>src/sql/pgsql/{setup,migration,function,trigger,teardown}\<close>. The catalogue holds the objects the
  scripts name; a script is the list of its statements. A statement takes effect as a whole or
  raises an error and leaves the catalogue as it was, and a script stops at its first error. The
  scripts run as a superuser, as \<open>setup/extensions.sql\<close> asks, on a server that has the two
  extensions, so no statement fails for want of a privilege or an extension. The bodies of the
  PL/pgSQL functions are in Sql_Functions; here a function is its signature.
\<close>

subsection \<open>The catalogue\<close>

record catalog =
  cat_wal_logical :: bool
  cat_extensions :: "string list"
  cat_roles :: "string list"
  cat_schemas :: "string list"
  cat_tables :: "((string \<times> string) \<times> string list) list"
  cat_indexes :: "((string \<times> string) \<times> string) list"
  cat_functions :: "string list"
  cat_triggers :: "((string \<times> string) \<times> string \<times> string) list"
  cat_event_triggers :: "(string \<times> string) list"
  cat_publications :: "string list"
  cat_slots :: "(string \<times> bool) list"
  cat_grants :: "(string \<times> string \<times> string) list"

text \<open>
  The statements of the scripts. A table is a schema and a name; the last component of a trigger
  or an event trigger is the function it executes; a slot has a flag that it is in use.
\<close>

datatype sql_stmt =
    CreateExtensionIfNotExists string
  | CreateRoleIfMissing string
  | GrantConnectOnDatabase string string
  | GrantUsageOnSchema string string
  | GrantSelectOnAllTables string string
  | AlterDefaultGrantSelect string string
  | CreateSchemaIfNotExists string
  | CreateTableIfNotExists "string \<times> string" "string list"
  | CreateIndexIfNotExists string "string \<times> string"
  | CreateOrReplaceFunction string
  | GrantExecute string string
  | SelectManageUpdated "string \<times> string"
  | CreateEventTrigger string string
  | CreatePublicationForAllTables string
  | SelectCreateLogicalSlot string
  | SelectDropSlotIfExists string
  | DropPublicationIfExists string
  | DropEventTriggerIfExists string
  | DropFunctionIfExists string
  | DropSchemaIfExistsCascade string

text \<open>
  \<open>GRANT ... ON DATABASE\<close> takes a name: a call like \<open>current_database()\<close> is a syntax error.
  \<open>manage_updated\<close> executes \<open>CREATE TRIGGER set_updated\<close> on its argument.
\<close>

definition is_sql_name :: "string \<Rightarrow> bool" where
  "is_sql_name s \<longleftrightarrow> s \<noteq> [] \<and> CHR ''('' \<notin> set s"

definition create_trigger :: "string \<Rightarrow> string \<times> string \<Rightarrow> string \<Rightarrow> catalog \<Rightarrow> (catalog, string) rresult" where
  "create_trigger name tbl f c =
     (if tbl \<notin> fst ` set (cat_tables c) then Err ''relation does not exist''
      else if f \<notin> set (cat_functions c) then Err ''function does not exist''
      else if (tbl, name) \<in> (\<lambda>(t, n, _). (t, n)) ` set (cat_triggers c) then Err ''trigger already exists''
      else Ok (c\<lparr>cat_triggers := (tbl, name, f) # cat_triggers c\<rparr>))"

fun revoke_execute :: "string \<Rightarrow> (string \<times> string \<times> string) list \<Rightarrow> (string \<times> string \<times> string) list" where
  "revoke_execute f [] = []"
| "revoke_execute f ((p, g, r) # gs) =
     (if p = ''EXECUTE'' \<and> g = f then revoke_execute f gs else (p, g, r) # revoke_execute f gs)"

fun exec_stmt :: "sql_stmt \<Rightarrow> catalog \<Rightarrow> (catalog, string) rresult" where
  "exec_stmt (CreateExtensionIfNotExists n) c = Ok (c\<lparr>cat_extensions := List.insert n (cat_extensions c)\<rparr>)"
| "exec_stmt (CreateRoleIfMissing r) c = Ok (c\<lparr>cat_roles := List.insert r (cat_roles c)\<rparr>)"
| "exec_stmt (GrantConnectOnDatabase db r) c =
     (if \<not> is_sql_name db then Err ''syntax error''
      else if r \<notin> set (cat_roles c) then Err ''role does not exist''
      else Ok (c\<lparr>cat_grants := List.insert (''CONNECT'', db, r) (cat_grants c)\<rparr>))"
| "exec_stmt (GrantUsageOnSchema s r) c =
     (if s \<notin> set (cat_schemas c) then Err ''schema does not exist''
      else if r \<notin> set (cat_roles c) then Err ''role does not exist''
      else Ok (c\<lparr>cat_grants := List.insert (''USAGE'', s, r) (cat_grants c)\<rparr>))"
| "exec_stmt (GrantSelectOnAllTables s r) c =
     (if s \<notin> set (cat_schemas c) then Err ''schema does not exist''
      else if r \<notin> set (cat_roles c) then Err ''role does not exist''
      else Ok (c\<lparr>cat_grants := fold (\<lambda>((s', t), _). if s' = s then List.insert (''SELECT'', s @ ''.'' @ t, r) else id)
             (cat_tables c) (cat_grants c)\<rparr>))"
| "exec_stmt (AlterDefaultGrantSelect s r) c =
     (if s \<notin> set (cat_schemas c) then Err ''schema does not exist''
      else if r \<notin> set (cat_roles c) then Err ''role does not exist''
      else Ok (c\<lparr>cat_grants := List.insert (''DEFAULT SELECT'', s, r) (cat_grants c)\<rparr>))"
| "exec_stmt (CreateSchemaIfNotExists s) c = Ok (c\<lparr>cat_schemas := List.insert s (cat_schemas c)\<rparr>)"
| "exec_stmt (CreateTableIfNotExists (s, t) cols) c =
     (if s \<notin> set (cat_schemas c) then Err ''schema does not exist''
      else if (s, t) \<in> fst ` set (cat_tables c) then Ok c
      else Ok (c\<lparr>cat_tables := ((s, t), cols) # cat_tables c\<rparr>))"
| "exec_stmt (CreateIndexIfNotExists n (s, t)) c =
     (if (s, t) \<notin> fst ` set (cat_tables c) then Err ''relation does not exist''
      else if (s, n) \<in> fst ` set (cat_indexes c) then Ok c
      else Ok (c\<lparr>cat_indexes := ((s, n), t) # cat_indexes c\<rparr>))"
| "exec_stmt (CreateOrReplaceFunction f) c = Ok (c\<lparr>cat_functions := List.insert f (cat_functions c)\<rparr>)"
| "exec_stmt (GrantExecute f r) c =
     (if f \<notin> set (cat_functions c) then Err ''function does not exist''
      else if r \<notin> set (cat_roles c) then Err ''role does not exist''
      else Ok (c\<lparr>cat_grants := List.insert (''EXECUTE'', f, r) (cat_grants c)\<rparr>))"
| "exec_stmt (SelectManageUpdated tbl) c =
     (if ''manage_updated(TEXT)'' \<notin> set (cat_functions c) then Err ''function does not exist''
      else create_trigger ''set_updated'' tbl ''set_updated()'' c)"
| "exec_stmt (CreateEventTrigger n f) c =
     (if n \<in> fst ` set (cat_event_triggers c) then Err ''event trigger already exists''
      else if f \<notin> set (cat_functions c) then Err ''function does not exist''
      else Ok (c\<lparr>cat_event_triggers := (n, f) # cat_event_triggers c\<rparr>))"
| "exec_stmt (CreatePublicationForAllTables p) c =
     (if p \<in> set (cat_publications c) then Err ''publication already exists''
      else Ok (c\<lparr>cat_publications := p # cat_publications c\<rparr>))"
| "exec_stmt (SelectCreateLogicalSlot n) c =
     (if \<not> cat_wal_logical c then Err ''logical decoding requires wal_level >= logical''
      else if n \<in> fst ` set (cat_slots c) then Err ''replication slot already exists''
      else Ok (c\<lparr>cat_slots := (n, False) # cat_slots c\<rparr>))"
| "exec_stmt (SelectDropSlotIfExists n) c =
     (if (n, True) \<in> set (cat_slots c) then Err ''replication slot is active''
      else Ok (c\<lparr>cat_slots := filter (\<lambda>(m, _). m \<noteq> n) (cat_slots c)\<rparr>))"
| "exec_stmt (DropPublicationIfExists p) c = Ok (c\<lparr>cat_publications := removeAll p (cat_publications c)\<rparr>)"
| "exec_stmt (DropEventTriggerIfExists n) c =
     Ok (c\<lparr>cat_event_triggers := filter (\<lambda>(m, _). m \<noteq> n) (cat_event_triggers c)\<rparr>)"
| "exec_stmt (DropFunctionIfExists f) c =
     (if f \<in> snd ` set (cat_event_triggers c) \<or> f \<in> (\<lambda>(_, _, g). g) ` set (cat_triggers c)
      then Err ''other objects depend on it''
      else Ok (c\<lparr>cat_functions := removeAll f (cat_functions c),
                 cat_grants := revoke_execute f (cat_grants c)\<rparr>))"
| "exec_stmt (DropSchemaIfExistsCascade s) c =
     Ok (c\<lparr>cat_schemas := removeAll s (cat_schemas c),
           cat_tables := filter (\<lambda>((s', _), _). s' \<noteq> s) (cat_tables c),
           cat_indexes := filter (\<lambda>((s', _), _). s' \<noteq> s) (cat_indexes c),
           cat_triggers := filter (\<lambda>((s', _), _). s' \<noteq> s) (cat_triggers c)\<rparr>)"

fun run_script :: "sql_stmt list \<Rightarrow> catalog \<Rightarrow> string option \<times> catalog" where
  "run_script [] c = (None, c)"
| "run_script (st # sts) c =
     (case exec_stmt st c of Ok c' \<Rightarrow> run_script sts c' | Err e \<Rightarrow> (Some e, c) | Panic \<Rightarrow> (Some [], c))"

subsection \<open>The scripts\<close>

definition setup_extensions :: "sql_stmt list" where
  "setup_extensions = [CreateExtensionIfNotExists ''pgcrypto'', CreateExtensionIfNotExists ''pg_stat_statements'']"

definition setup_roles :: "sql_stmt list" where
  "setup_roles =
     [CreateRoleIfMissing ''nendi_repl'',
      GrantConnectOnDatabase ''current_database()'' ''nendi_repl'',
      GrantUsageOnSchema ''public'' ''nendi_repl'',
      GrantSelectOnAllTables ''public'' ''nendi_repl'',
      AlterDefaultGrantSelect ''public'' ''nendi_repl'']"

definition setup_slot :: "sql_stmt list" where
  "setup_slot = [CreatePublicationForAllTables ''nendi_pub'', SelectCreateLogicalSlot ''nendi_slot'']"

definition function_capture :: "sql_stmt list" where
  "function_capture = [CreateOrReplaceFunction ''nendi_capture_ddl()'']"

definition function_emit :: "sql_stmt list" where
  "function_emit =
     [CreateOrReplaceFunction ''nendi_emit(TEXT, TEXT, BOOLEAN)'',
      GrantExecute ''nendi_emit(TEXT, TEXT, BOOLEAN)'' ''nendi_repl'']"

definition function_fingerprint :: "sql_stmt list" where
  "function_fingerprint = [CreateOrReplaceFunction ''nendi_schema_fingerprint(TEXT, TEXT)'']"

definition trigger_ddl :: "sql_stmt list" where
  "trigger_ddl = [CreateEventTrigger ''nendi_ddl_trigger'' ''nendi_capture_ddl()'']"

definition trigger_drop :: "sql_stmt list" where
  "trigger_drop =
     [CreateOrReplaceFunction ''nendi_capture_drop()'',
      CreateEventTrigger ''nendi_drop_trigger'' ''nendi_capture_drop()'']"

definition migration_001 :: "sql_stmt list" where
  "migration_001 =
     [CreateSchemaIfNotExists ''nendi'',
      CreateTableIfNotExists (''nendi'', ''offsets'') [''consumer'', ''committed'', ''updated''],
      CreateTableIfNotExists (''nendi'', ''fingerprints'') [''tbl'', ''fingerprint'', ''columns'', ''updated''],
      CreateTableIfNotExists (''nendi'', ''daemon'') [''id'', ''slot'', ''confirmed'', ''started'', ''heartbeat''],
      CreateOrReplaceFunction ''set_updated()'',
      CreateOrReplaceFunction ''manage_updated(TEXT)'',
      SelectManageUpdated (''nendi'', ''offsets''),
      SelectManageUpdated (''nendi'', ''fingerprints'')]"

definition migration_002 :: "sql_stmt list" where
  "migration_002 =
     [CreateTableIfNotExists (''nendi'', ''pubs'') [''name'', ''tables'', ''created''],
      CreateIndexIfNotExists ''idx_offsets_committed'' (''nendi'', ''offsets'')]"

definition migration_003 :: "sql_stmt list" where
  "migration_003 =
     [CreateTableIfNotExists (''nendi'', ''dlq'')
        [''id'', ''consumer'', ''lsn'', ''tbl'', ''error'', ''attempts'', ''payload'', ''created''],
      CreateIndexIfNotExists ''idx_dlq_consumer'' (''nendi'', ''dlq'')]"

definition teardown_slot :: "sql_stmt list" where
  "teardown_slot =
     [SelectDropSlotIfExists ''nendi_slot'',
      DropPublicationIfExists ''nendi_pub'',
      DropEventTriggerIfExists ''nendi_ddl_trigger'',
      DropEventTriggerIfExists ''nendi_drop_trigger'',
      DropFunctionIfExists ''nendi_capture_ddl()'',
      DropFunctionIfExists ''nendi_capture_drop()'',
      DropFunctionIfExists ''nendi_emit(TEXT, TEXT, BOOLEAN)'',
      DropFunctionIfExists ''nendi_schema_fingerprint(TEXT, TEXT)'']"

definition teardown_schema :: "sql_stmt list" where
  "teardown_schema = [DropSchemaIfExistsCascade ''nendi'']"

lemmas script_defs = setup_extensions_def setup_roles_def setup_slot_def function_capture_def function_emit_def
  function_fingerprint_def trigger_ddl_def trigger_drop_def migration_001_def migration_002_def migration_003_def
  teardown_slot_def teardown_schema_def

text \<open>
  Scripts run one after the other; one that fails does not keep the next from being run. All
  scripts that create something, in an order in which each finds what it needs, and the two that
  remove. (\<open>trigger/rename.sql\<close> has no statement.)
\<close>

fun run_files :: "sql_stmt list list \<Rightarrow> catalog \<Rightarrow> string option list \<times> catalog" where
  "run_files [] c = ([], c)"
| "run_files (f # fs) c = (let (e, c') = run_script f c; (es, c'') = run_files fs c' in (e # es, c''))"

definition install_files :: "sql_stmt list list" where
  "install_files = [setup_extensions, setup_roles, migration_001, migration_002, migration_003, function_capture,
     function_emit, function_fingerprint, trigger_ddl, trigger_drop, setup_slot]"

definition teardown_files :: "sql_stmt list list" where
  "teardown_files = [teardown_slot, teardown_schema]"

subsection \<open>Properties\<close>

text \<open>A database without any of the objects Nendi creates, except possibly its role and the extensions.\<close>

definition nendi_functions :: "string list" where
  "nendi_functions = [''nendi_capture_ddl()'', ''nendi_capture_drop()'', ''nendi_emit(TEXT, TEXT, BOOLEAN)'',
     ''nendi_schema_fingerprint(TEXT, TEXT)'', ''set_updated()'', ''manage_updated(TEXT)'']"

definition without_nendi :: "catalog \<Rightarrow> bool" where
  "without_nendi c \<longleftrightarrow> ''nendi'' \<notin> set (cat_schemas c)
     \<and> list_all (\<lambda>((s, _), _). s \<noteq> ''nendi'') (cat_tables c)
     \<and> list_all (\<lambda>((s, _), _). s \<noteq> ''nendi'') (cat_indexes c)
     \<and> list_all (\<lambda>((s, _), _, f). s \<noteq> ''nendi'' \<and> f \<notin> set nendi_functions) (cat_triggers c)
     \<and> list_all (\<lambda>f. f \<notin> set nendi_functions) (cat_functions c)
     \<and> list_all (\<lambda>(n, f). n \<noteq> ''nendi_ddl_trigger'' \<and> n \<noteq> ''nendi_drop_trigger'' \<and> f \<notin> set nendi_functions)
         (cat_event_triggers c)
     \<and> ''nendi_pub'' \<notin> set (cat_publications c) \<and> ''nendi_slot'' \<notin> fst ` set (cat_slots c)
     \<and> list_all (\<lambda>(p, g, _). g \<notin> set nendi_functions) (cat_grants c)"

definition installed :: "catalog \<Rightarrow> catalog" where
  "installed c = c
     \<lparr>cat_schemas := ''nendi'' # cat_schemas c,
      cat_tables :=
        [((''nendi'', ''dlq''), [''id'', ''consumer'', ''lsn'', ''tbl'', ''error'', ''attempts'', ''payload'', ''created'']),
         ((''nendi'', ''pubs''), [''name'', ''tables'', ''created'']),
         ((''nendi'', ''daemon''), [''id'', ''slot'', ''confirmed'', ''started'', ''heartbeat'']),
         ((''nendi'', ''fingerprints''), [''tbl'', ''fingerprint'', ''columns'', ''updated'']),
         ((''nendi'', ''offsets''), [''consumer'', ''committed'', ''updated''])] @ cat_tables c,
      cat_indexes := [((''nendi'', ''idx_dlq_consumer''), ''dlq''), ((''nendi'', ''idx_offsets_committed''), ''offsets'')]
        @ cat_indexes c,
      cat_functions :=
        [''nendi_capture_drop()'', ''nendi_schema_fingerprint(TEXT, TEXT)'', ''nendi_emit(TEXT, TEXT, BOOLEAN)'',
         ''nendi_capture_ddl()'', ''manage_updated(TEXT)'', ''set_updated()''] @ cat_functions c,
      cat_triggers :=
        [((''nendi'', ''fingerprints''), ''set_updated'', ''set_updated()''),
         ((''nendi'', ''offsets''), ''set_updated'', ''set_updated()'')] @ cat_triggers c,
      cat_event_triggers :=
        [(''nendi_drop_trigger'', ''nendi_capture_drop()''), (''nendi_ddl_trigger'', ''nendi_capture_ddl()'')]
          @ cat_event_triggers c,
      cat_publications := ''nendi_pub'' # cat_publications c,
      cat_slots := (''nendi_slot'', False) # cat_slots c,
      cat_grants := List.insert (''EXECUTE'', ''nendi_emit(TEXT, TEXT, BOOLEAN)'', ''nendi_repl'') (cat_grants c)\<rparr>"

lemma install_rest_run:
  assumes "without_nendi c" and "cat_wal_logical c" and "''nendi_repl'' \<in> set (cat_roles c)"
  shows "run_files (drop 2 install_files) c = (replicate 9 None, installed c)"
proof -
  from assms have
    "''nendi'' \<notin> set (cat_schemas c)" "''nendi_pub'' \<notin> set (cat_publications c)" "''nendi_slot'' \<notin> fst ` set (cat_slots c)"
    and tab: "(''nendi'', t) \<notin> fst ` set (cat_tables c)" and ind: "(''nendi'', t) \<notin> fst ` set (cat_indexes c)"
    and trg: "((''nendi'', t), n) \<notin> (\<lambda>(t, n, _). (t, n)) ` set (cat_triggers c)"
    and fn: "f \<in> set nendi_functions \<Longrightarrow> f \<notin> set (cat_functions c)"
    and ev: "n \<in> {''nendi_ddl_trigger'', ''nendi_drop_trigger''} \<Longrightarrow> n \<notin> fst ` set (cat_event_triggers c)" for t n f
    by (auto simp: without_nendi_def list_all_iff)
  then show ?thesis
    using assms(2,3) fn
    by (simp add: install_files_def script_defs create_trigger_def installed_def nendi_functions_def numeral_eq_Suc)
qed

lemma filter_unchanged: "list_all P xs \<Longrightarrow> filter P xs = xs"
  by (simp add: filter_id_conv list_all_iff)

lemma filter_fst_unchanged: "n \<notin> fst ` set xs \<Longrightarrow> filter (\<lambda>(m, _). m \<noteq> n) xs = xs"
  by (induction xs) auto

lemma without_nendiD:
  assumes "without_nendi c"
  shows "''nendi'' \<notin> set (cat_schemas c)" "''nendi_pub'' \<notin> set (cat_publications c)"
      "''nendi_slot'' \<notin> fst ` set (cat_slots c)"
    and "list_all (\<lambda>((s, _), _). s \<noteq> ''nendi'') (cat_tables c)" "list_all (\<lambda>((s, _), _). s \<noteq> ''nendi'') (cat_indexes c)"
    and "list_all (\<lambda>((s, _), _, f). s \<noteq> ''nendi'' \<and> f \<notin> set nendi_functions) (cat_triggers c)"
    and "list_all (\<lambda>f. f \<notin> set nendi_functions) (cat_functions c)"
    and "list_all (\<lambda>(n, f). n \<noteq> ''nendi_ddl_trigger'' \<and> n \<noteq> ''nendi_drop_trigger'' \<and> f \<notin> set nendi_functions)
         (cat_event_triggers c)"
    and "list_all (\<lambda>(p, g, _). g \<notin> set nendi_functions) (cat_grants c)"
  using assms by (simp_all only: without_nendi_def simp_thms)

lemma without_nendi_unchanged:
  assumes "without_nendi c"
  shows "removeAll ''nendi'' (cat_schemas c) = cat_schemas c"
    "filter (\<lambda>((s', _), _). s' \<noteq> ''nendi'') (cat_tables c) = cat_tables c"
    "filter (\<lambda>((s', _), _). s' \<noteq> ''nendi'') (cat_indexes c) = cat_indexes c"
    "filter (\<lambda>((s', _), _). s' \<noteq> ''nendi'') (cat_triggers c) = cat_triggers c"
    "removeAll ''nendi_pub'' (cat_publications c) = cat_publications c"
    "filter (\<lambda>(m, _). m \<noteq> ''nendi_slot'') (cat_slots c) = cat_slots c"
    "filter (\<lambda>(m, _). m \<noteq> ''nendi_ddl_trigger'') (cat_event_triggers c) = cat_event_triggers c"
    "filter (\<lambda>(m, _). m \<noteq> ''nendi_drop_trigger'') (cat_event_triggers c) = cat_event_triggers c"
    "f \<in> set nendi_functions \<Longrightarrow> removeAll f (cat_functions c) = cat_functions c"
    "f \<in> set nendi_functions \<Longrightarrow> revoke_execute f (cat_grants c) = cat_grants c"
proof -
  note w = without_nendiD [OF assms]
  show "removeAll ''nendi'' (cat_schemas c) = cat_schemas c" "removeAll ''nendi_pub'' (cat_publications c) = cat_publications c"
    by (rule removeAll_id [OF w(1)], rule removeAll_id [OF w(2)])
  show "filter (\<lambda>((s', _), _). s' \<noteq> ''nendi'') (cat_tables c) = cat_tables c"
    "filter (\<lambda>((s', _), _). s' \<noteq> ''nendi'') (cat_indexes c) = cat_indexes c"
    by (rule filter_unchanged [OF w(4)], rule filter_unchanged [OF w(5)])
  show "filter (\<lambda>((s', _), _). s' \<noteq> ''nendi'') (cat_triggers c) = cat_triggers c"
    by (rule filter_unchanged, rule list.pred_mono_strong [OF w(6)]) blast
  show "filter (\<lambda>(m, _). m \<noteq> ''nendi_slot'') (cat_slots c) = cat_slots c"
    by (rule filter_fst_unchanged [OF w(3)])
  show "filter (\<lambda>(m, _). m \<noteq> ''nendi_ddl_trigger'') (cat_event_triggers c) = cat_event_triggers c"
    "filter (\<lambda>(m, _). m \<noteq> ''nendi_drop_trigger'') (cat_event_triggers c) = cat_event_triggers c"
    by (rule filter_unchanged, rule list.pred_mono_strong [OF w(8)], blast)+
  show "f \<in> set nendi_functions \<Longrightarrow> removeAll f (cat_functions c) = cat_functions c"
    using w(7) by (intro removeAll_id) (auto simp only: list_all_iff)
  have "f \<notin> (\<lambda>(p, g, r). g) ` set gs \<Longrightarrow> revoke_execute f gs = gs" for gs
    by (induction gs) auto
  then show "f \<in> set nendi_functions \<Longrightarrow> revoke_execute f (cat_grants c) = cat_grants c"
    using w(9) unfolding list_all_iff split_beta by blast
qed

lemma without_nendi_unused:
  assumes "without_nendi c"
  shows "(''nendi_slot'', b) \<notin> set (cat_slots c)"
    "f \<in> set nendi_functions \<Longrightarrow> f \<notin> snd ` set (cat_event_triggers c)"
    "f \<in> set nendi_functions \<Longrightarrow> f \<notin> (\<lambda>(_, _, g). g) ` set (cat_triggers c)"
    "f \<in> set nendi_functions \<Longrightarrow> (p, f, r) \<notin> set (cat_grants c)"
proof -
  note w = without_nendiD [OF assms, unfolded list_all_iff split_beta]
  show "(''nendi_slot'', b) \<notin> set (cat_slots c)" using w(3) by (metis fst_conv image_eqI)
  show "f \<in> set nendi_functions \<Longrightarrow> f \<notin> snd ` set (cat_event_triggers c)" using w(8) by blast
  show "f \<in> set nendi_functions \<Longrightarrow> f \<notin> (\<lambda>(_, _, g). g) ` set (cat_triggers c)"
    using w(6) unfolding split_beta by blast
  show "f \<in> set nendi_functions \<Longrightarrow> (p, f, r) \<notin> set (cat_grants c)" using w(9) by (metis fst_conv snd_conv)
qed

lemma nendi_functions_in:
  "''nendi_capture_ddl()'' \<in> set nendi_functions" "''nendi_capture_drop()'' \<in> set nendi_functions"
  "''nendi_emit(TEXT, TEXT, BOOLEAN)'' \<in> set nendi_functions"
  "''nendi_schema_fingerprint(TEXT, TEXT)'' \<in> set nendi_functions"
  by (simp_all add: nendi_functions_def)

lemma teardown_scripts_run:
  assumes "without_nendi c"
  shows "run_files teardown_files (installed c) =
    ([None, None], c\<lparr>cat_functions := ''manage_updated(TEXT)'' # ''set_updated()'' # cat_functions c\<rparr>)"
proof -
  note unchanged = without_nendi_unchanged(1-8) [OF assms]
    nendi_functions_in [THEN without_nendi_unchanged(9) [OF assms]]
    nendi_functions_in [THEN without_nendi_unchanged(10) [OF assms]]
  note unused = without_nendi_unused(1) [OF assms]
    nendi_functions_in [THEN without_nendi_unused(2) [OF assms]]
    nendi_functions_in [THEN without_nendi_unused(3) [OF assms]]
    nendi_functions_in(3) [THEN without_nendi_unused(4) [OF assms]]
  show ?thesis by (simp add: teardown_files_def script_defs installed_def unchanged unused)
qed

text \<open>The first two scripts: the extensions are there, the role is created, its script fails.\<close>

definition prepared :: "catalog \<Rightarrow> catalog" where
  "prepared c = c\<lparr>cat_extensions := List.insert ''pg_stat_statements'' (List.insert ''pgcrypto'' (cat_extensions c)),
     cat_roles := List.insert ''nendi_repl'' (cat_roles c)\<rparr>"

lemma prepare_run:
  "run_files (take 2 install_files) c = ([None, Some ''syntax error''], prepared c)"
  by (simp add: install_files_def script_defs is_sql_name_def prepared_def numeral_2_eq_2)

lemma prepared_without:
  "without_nendi (prepared c) = without_nendi c" "cat_wal_logical (prepared c) = cat_wal_logical c"
  "''nendi_repl'' \<in> set (cat_roles (prepared c))"
  by (simp_all add: without_nendi_def prepared_def)

lemma run_files_append:
  "run_files (fs @ gs) c = (let (es, c') = run_files fs c; (es', c'') = run_files gs c' in (es @ es', c''))"
  by (induction fs arbitrary: c) (simp_all add: split_beta Let_def)


definition demo_catalog :: catalog where
  "demo_catalog = \<lparr>cat_wal_logical = True, cat_extensions = [], cat_roles = [''app''], cat_schemas = [''public''],
     cat_tables = [((''public'', ''orders''), [''id''])], cat_indexes = [], cat_functions = [], cat_triggers = [],
     cat_event_triggers = [], cat_publications = [], cat_slots = [], cat_grants = []\<rparr>"

lemma demo_catalog_without: "without_nendi demo_catalog" "cat_wal_logical demo_catalog"
  by (simp_all add: without_nendi_def demo_catalog_def)


subsection \<open>Running a script again\<close>

text \<open>What a creating statement leaves in the catalogue, and the statements that then do nothing.\<close>

fun made :: "sql_stmt \<Rightarrow> catalog \<Rightarrow> bool" where
  "made (CreateSchemaIfNotExists s) c \<longleftrightarrow> s \<in> set (cat_schemas c)"
| "made (CreateTableIfNotExists (s, t) _) c \<longleftrightarrow> s \<in> set (cat_schemas c) \<and> (s, t) \<in> fst ` set (cat_tables c)"
| "made (CreateIndexIfNotExists n (s, t)) c \<longleftrightarrow> (s, t) \<in> fst ` set (cat_tables c) \<and> (s, n) \<in> fst ` set (cat_indexes c)"
| "made (CreateOrReplaceFunction f) c \<longleftrightarrow> f \<in> set (cat_functions c)"
| "made (SelectManageUpdated tbl) c \<longleftrightarrow>
     ''manage_updated(TEXT)'' \<in> set (cat_functions c) \<and> ''set_updated()'' \<in> set (cat_functions c)
     \<and> tbl \<in> fst ` set (cat_tables c) \<and> (tbl, ''set_updated'') \<in> (\<lambda>(t, n, _). (t, n)) ` set (cat_triggers c)"
| "made _ c \<longleftrightarrow> False"

fun repeatable :: "sql_stmt \<Rightarrow> bool" where
  "repeatable (CreateSchemaIfNotExists _) = True"
| "repeatable (CreateTableIfNotExists _ _) = True"
| "repeatable (CreateIndexIfNotExists _ _) = True"
| "repeatable (CreateOrReplaceFunction _) = True"
| "repeatable _ = False"

definition creating :: "sql_stmt \<Rightarrow> bool" where
  "creating st \<longleftrightarrow> repeatable st \<or> (\<exists>tbl. st = SelectManageUpdated tbl)"

lemma exec_made: "creating st \<Longrightarrow> exec_stmt st c = Ok c' \<Longrightarrow> made st c'"
  by (cases "(st, c)" rule: exec_stmt.cases) (auto simp: creating_def create_trigger_def split: if_splits)

lemma exec_keeps: "creating st \<Longrightarrow> exec_stmt st c = Ok c' \<Longrightarrow> made st' c \<Longrightarrow> made st' c'"
proof -
  assume "creating st" "exec_stmt st c = Ok c'"
  then have "set (cat_schemas c) \<subseteq> set (cat_schemas c')" "set (cat_tables c) \<subseteq> set (cat_tables c')"
    "set (cat_indexes c) \<subseteq> set (cat_indexes c')" "set (cat_functions c) \<subseteq> set (cat_functions c')"
    "set (cat_triggers c) \<subseteq> set (cat_triggers c')"
    by (cases "(st, c)" rule: exec_stmt.cases; auto simp: creating_def create_trigger_def split: if_splits)+
  then show "made st' c \<Longrightarrow> made st' c'"
    by (cases "(st', c)" rule: made.cases) (auto intro: rev_image_eqI)
qed

lemma run_made:
  "list_all creating sts \<Longrightarrow> run_script sts c = (None, c') \<Longrightarrow> st \<in> set sts \<or> made st c \<Longrightarrow> made st c'"
proof (induction sts arbitrary: c)
  case (Cons s sts)
  then show ?case using exec_made [of s c] exec_keeps [of s c _ st] by (auto split: rresult.splits)
qed simp

lemma repeat_stmt: "repeatable st \<Longrightarrow> made st c \<Longrightarrow> exec_stmt st c = Ok c"
  by (cases "(st, c)" rule: exec_stmt.cases) (auto simp: List.insert_def)

lemma repeat_script: "list_all repeatable sts \<Longrightarrow> list_all (\<lambda>st. made st c) sts \<Longrightarrow> run_script (sts @ rest) c = run_script rest c"
  by (induction sts) (simp_all add: repeat_stmt)

text \<open>
  C40. The migrations cannot be run again. Whatever the database, when migrations 002 and 003 ran
  without an error, running them again changes nothing and succeeds, as their \<open>IF NOT EXISTS\<close>
  promises; but a second run of migration 001, written in the same way, always stops with an
  error, because it creates its triggers unconditionally. Nothing is changed by then.
\<close>

theorem migration_001_not_repeatable:
  shows "(\<forall>c'. run_script (migration_002 @ migration_003) c = (None, c') \<longrightarrow>
       run_script (migration_002 @ migration_003) c' = (None, c'))
    \<and> (\<forall>c'. run_script migration_001 c = (None, c') \<longrightarrow>
       run_script migration_001 c' = (Some ''trigger already exists'', c'))"
proof (intro conjI allI impI)
  fix c' assume run: "run_script (migration_002 @ migration_003) c = (None, c')"
  have rep: "list_all repeatable (migration_002 @ migration_003)" by (simp add: script_defs)
  then have "list_all creating (migration_002 @ migration_003)" by (auto simp: list_all_iff creating_def)
  from run_made [OF this run] have "list_all (\<lambda>st. made st c') (migration_002 @ migration_003)" by (auto simp: list_all_iff)
  from repeat_script [OF rep this, of "[]"] show "run_script (migration_002 @ migration_003) c' = (None, c')" by simp
next
  fix c' assume run: "run_script migration_001 c = (None, c')"
  have "list_all creating migration_001" by (simp add: script_defs creating_def)
  note made = run_made [OF this run]
  have rep: "list_all repeatable (take 6 migration_001)" by (simp add: script_defs)
  have "list_all (\<lambda>st. made st c') (take 6 migration_001)" using made by (auto simp: list_all_iff dest: in_set_takeD)
  note again = repeat_script [OF rep this, of "drop 6 migration_001"]
  have "made (SelectManageUpdated (''nendi'', ''offsets'')) c'" by (rule made) (simp add: script_defs)
  then have "exec_stmt (SelectManageUpdated (''nendi'', ''offsets'')) c' = Err ''trigger already exists''"
    by (simp add: create_trigger_def)
  moreover have "drop 6 migration_001 =
      [SelectManageUpdated (''nendi'', ''offsets''), SelectManageUpdated (''nendi'', ''fingerprints'')]"
    by (simp add: script_defs)
  ultimately have "run_script (drop 6 migration_001) c' = (Some ''trigger already exists'', c')" by (simp del: exec_stmt.simps)
  then show "run_script migration_001 c' = (Some ''trigger already exists'', c')" using again by simp
qed

theorem migration_001_not_repeatable_witness:
  "\<exists>c'. run_script migration_001 demo_catalog = (None, c') \<and> run_script migration_001 c' = (Some ''trigger already exists'', c')"
proof -
  have "\<exists>c'. run_script migration_001 demo_catalog = (None, c')"
    by (simp add: script_defs demo_catalog_def create_trigger_def)
  then show ?thesis using migration_001_not_repeatable [of demo_catalog] by blast
qed

text \<open>
  The script for the role never completes: its second statement is not valid SQL, so on every
  database the role is created, but none of the privileges it needs is granted.
\<close>

theorem setup_roles_fails:
  "run_script setup_roles c = (Some ''syntax error'', c\<lparr>cat_roles := List.insert ''nendi_repl'' (cat_roles c)\<rparr>)"
  by (simp add: script_defs is_sql_name_def)

end
