(* ===== verification/Delivery.thy ===== *)
theory Delivery
  imports Pg_Types Egress
begin

text \<open>
  The way of a change through the system: from the bytes of the replication protocol through the
  stream (\<open>src/services/pgsql\<close>), the ring and the pipeline (\<open>src/core/src/pipeline\<close>) into the store
  (\<open>src/core/src/storage\<close>), and from there to a consumer that reads pages and commits its offset
  (\<open>src/core/src/offset\<close>).
\<close>

subsection \<open>What the pipeline wrote, read back\<close>

lemma flushed_read:
  assumes "event_queue Q items cap" and "pipe_reach Q sz s"
    and "rocksdb Rk content cfname"
    and "content (ts_db ts) (cf_name (ts_tenant_id ts)) = Some Map.empty"
    and "fold (write_step Rk) (p_flushed s) ([], ts) = (concat (map wb_events (p_flushed s)), ts')"
    and "list_all wire_ok (p_accepted s)" and "iter_clean Rk ts' start" and "limit * sz' < 2 ^ 63"
  shows "read_from Rk sz' ts' start limit =
      Ok (take (max 1 limit) (event_entries start (concat (map wb_events (p_flushed s)))))"
    and "p_accepted s = concat (map wb_events (p_flushed s)) @ wb_events (pc_current_batch (p_coord s))
      @ items (rb_inner (pc_ring (p_coord s)))"
proof -
  show acc: "p_accepted s = concat (map wb_events (p_flushed s)) @ wb_events (pc_current_batch (p_coord s))
      @ items (rb_inner (pc_ring (p_coord s)))"
    using event_queue.pipe_reach_inv [OF assms(1,2)] by (simp add: pipe_inv_def batched_def)
  have "list_all wire_ok (concat (map wb_events (p_flushed s)))" using assms(6) by (simp add: acc)
  then show "read_from Rk sz' ts' start limit =
      Ok (take (max 1 limit) (event_entries start (concat (map wb_events (p_flushed s)))))"
    by (rule rocksdb.read_acked [OF assms(3-5) _ assms(7,8)])
qed

lemma entries_increasing:
  "sorted_wrt (<) (map make_key es) \<Longrightarrow> event_entries start es = filter (\<lambda>e. start \<le> event_lsn e) es"
  by (simp add: event_entries_def latest_id strict_sorted_iff sorted_sort_id sort_key_id_if_sorted)

subsection \<open>The events of a stream\<close>

definition events_of :: "(ChangeEvent option, 'e) rresult list \<Rightarrow> ChangeEvent list" where
  "events_of rs = concat (map (\<lambda>r. case r of Ok (Some e) \<Rightarrow> [e] | _ \<Rightarrow> []) rs)"

lemma events_of_Cons: "events_of (r # rs) = (case r of Ok (Some e) \<Rightarrow> [e] | _ \<Rightarrow> []) @ events_of rs"
  by (simp add: events_of_def)

lemma events_of_in: "e \<in> set (events_of rs) \<longleftrightarrow> Ok (Some e) \<in> set rs"
  by (auto simp: events_of_def split: rresult.splits option.splits)

lemma stream_event_headers:
  "list_all (\<lambda>e. ev_xid e = 0 \<and> ev_lsn e \<in> fst ` set msgs) (events_of (decode_stream D d msgs))"
proof (induction msgs arbitrary: d)
  case (Cons lm msgs)
  obtain lsn data where lm: "lm = (lsn, data)" by (cases lm)
  obtain r d' where dec: "decode D d lsn data = (r, d')" by fastforce
  from Cons [of d'] decode_event_header [of D d lsn data] show ?case
    by (auto simp: lm dec events_of_Cons list_all_iff split: rresult.splits option.splits)
qed (simp add: events_of_def)

lemma stream_of_messages:
  assumes "relation_map D" and "list_all (\<lambda>(lsn, msg). pg_ok msg) msgs"
    and "list_all (\<lambda>(lsn, msg). msg_limits (pg_encode msg)) msgs"
    and "stream_run D (stream_start (stream_new D l0)) (map (\<lambda>(lsn, msg). (lsn, pg_encode msg)) msgs) = (rs, st)"
  shows "list_all2 reports rs (stream_changes new_session msgs)" and "list_all wire_ok (events_of rs)"
    and "list_all (\<lambda>e. ev_xid e = 0) (events_of rs)"
proof -
  let ?enc = "map (\<lambda>(lsn, msg). (lsn, pg_encode msg)) msgs"
  have rs: "rs = decode_stream D (decoder_new D) ?enc"
    using stream_run_decode [OF assms(4)] by (simp add: stream_start_def stream_new_def)
  have "ss_rels new_session = map_option rel_view \<circ> Map.empty" by (simp add: new_session_def fun_eq_iff)
  from decoded_stream_reports [OF this] show "list_all2 reports rs (stream_changes new_session msgs)"
    using relation_map.decode_stream_new [OF assms(1,2)] by (simp add: rs)
  have "list_all (\<lambda>(lsn, data). msg_limits data) ?enc" using assms(3) by (auto simp: list_all_iff)
  from relation_map.decode_stream_typed [OF assms(1) relation_map.decoder_new_typed [OF assms(1)] this]
  show "list_all wire_ok (events_of rs)" by (auto simp: list_all_iff events_of_in rs)
  show "list_all (\<lambda>e. ev_xid e = 0) (events_of rs)"
    using stream_event_headers [of ?enc D "decoder_new D"] by (auto simp: rs list_all_iff)
qed

text \<open>
  The changes of a stream, and the two things about it that the decoder depends on: every relation
  is announced before it is used, as PostgreSQL does, and no \<open>TRUNCATE\<close> names several tables.
\<close>

definition sent :: "(u64 \<times> pg_msg) list \<Rightarrow> change list" where
  "sent msgs = List.map_filter id (concat (map snd (stream_changes new_session msgs)))"

definition announced :: "(u64 \<times> pg_msg) list \<Rightarrow> bool" where
  "announced msgs \<longleftrightarrow> list_all (\<lambda>(msg, cs). None \<notin> set cs) (stream_changes new_session msgs)"

definition one_table_each :: "(u64 \<times> pg_msg) list \<Rightarrow> bool" where
  "one_table_each msgs \<longleftrightarrow> list_all (\<lambda>(lsn, msg). \<forall>options oids. msg = MTruncate options oids \<longrightarrow> length oids \<le> 1) msgs"

lemma one_table_changes:
  "one_table_each msgs \<Longrightarrow> list_all (\<lambda>(msg, cs). length cs \<le> 1) (stream_changes ss msgs)"
proof (induction msgs arbitrary: ss)
  case (Cons lm msgs)
  obtain lsn msg where lm: "lm = (lsn, msg)" by (cases lm)
  have "length (msg_changes ss lsn msg) \<le> 1" using Cons.prems by (cases msg) (auto simp: one_table_each_def lm)
  then show ?case using Cons by (simp add: lm one_table_each_def)
qed simp

lemma reported_events_show:
  assumes "list_all2 reports rs scs" and "list_all (\<lambda>(msg, cs). None \<notin> set cs) scs"
    and "list_all (\<lambda>(msg, cs). length cs \<le> 1) scs"
  shows "list_all2 event_shows (events_of rs) (List.map_filter id (concat (map snd scs)))"
  using assms
proof (induction rule: list_all2_induct)
  case (Cons r rs mc scs)
  obtain msg cs where mc: "mc = (msg, cs)" by (cases mc)
  from Cons.prems have "cs = [] \<or> (\<exists>c. cs = [Some c])"
    by (cases cs rule: remdups_adj.cases) (auto simp: mc, metis not_None_eq)
  then show ?case using Cons by (auto simp: mc reports_def events_of_Cons List.map_filter_simps)
qed (simp add: events_of_def List.map_filter_simps)

lemma shown_lsns: "list_all2 event_shows es cs \<Longrightarrow> map ev_lsn es = map ch_lsn cs"
  by (induction rule: list_all2_induct) (simp_all add: event_shows_def)

subsection \<open>The store keeps the last event for every LSN\<close>

lemma key_less_lsn:
  "ev_xid a = 0 \<Longrightarrow> ev_xid b = 0 \<Longrightarrow> make_key a < make_key b \<longleftrightarrow> ev_lsn a < ev_lsn b"
  by (simp add: make_key_less)

fun last_per_lsn :: "ChangeEvent list \<Rightarrow> ChangeEvent list" where
  "last_per_lsn [] = []"
| "last_per_lsn (e # es) =
     (if list_ex (\<lambda>e'. ev_lsn e' = ev_lsn e) es then last_per_lsn es else e # last_per_lsn es)"

lemma latest_last_per_lsn: "list_all (\<lambda>e. ev_xid e = 0) es \<Longrightarrow> latest es = last_per_lsn es"
proof (induction es)
  case (Cons e es)
  then have "make_key e \<in> make_key ` set es \<longleftrightarrow> list_ex (\<lambda>e'. ev_lsn e' = ev_lsn e) es"
    by (auto simp: image_iff make_key_eq list_all_iff list_ex_iff eq_commute [of "ev_lsn e"])
  with Cons show ?case by simp
qed simp

lemma sort_key_order:
  assumes "\<And>x y. x \<in> set xs \<Longrightarrow> y \<in> set xs \<Longrightarrow> f x \<le> f y \<longleftrightarrow> g x \<le> g y"
  shows "sort_key f xs = sort_key g xs"
  using assms
proof (induction xs)
  case (Cons x xs)
  have "insort_key f x ys = insort_key g x ys" if "set ys \<subseteq> set xs" for ys
    using that Cons.prems by (induction ys) auto
  then show ?case using Cons by simp
qed simp

lemma entries_per_lsn:
  assumes "list_all (\<lambda>e. ev_xid e = 0) es"
  shows "event_entries start es = filter (\<lambda>e. start \<le> event_lsn e) (sort_key ev_lsn (last_per_lsn es))"
proof -
  have sub: "set (last_per_lsn es) \<subseteq> set es" by (induction es) auto
  have "make_key x \<le> make_key y \<longleftrightarrow> ev_lsn x \<le> ev_lsn y"
    if "x \<in> set (last_per_lsn es)" "y \<in> set (last_per_lsn es)" for x y
    using that sub assms key_less_lsn [of y x] by (auto simp: list_all_iff not_less [symmetric])
  then show ?thesis by (simp add: event_entries_def latest_last_per_lsn [OF assms] sort_key_order [of _ make_key ev_lsn])
qed

lemma last_per_lsn_distinct: "distinct (map ev_lsn es) \<Longrightarrow> last_per_lsn es = es"
  by (induction es) (auto simp: list_ex_iff image_iff)

subsection \<open>From the replication protocol to the reader\<close>

text \<open>
  C1. Every change the server sent can be read, once, with its table and rows. The server sends
  well-formed messages within its limits, announces the relations it uses, truncates one table at
  a time and gives the row changes different LSNs (\<open>Begin\<close>, \<open>Commit\<close> and relation messages may
  share theirs, and transactions that ran at the same time may arrive with their LSNs mixed). The
  stream decodes the messages; the ring accepts the events so far except the last ones (\<open>rest\<close>),
  under any interleaving of producers, draining and flushing; the batches handed out are written.
  Then there is exactly one event for each change sent, in the order they were sent, that shows
  the change: first the stored events, then those in the open batch and the ring, then those not
  accepted yet; and a read from any LSN returns the stored ones from there on, by LSN, up to the
  limit. The transaction id and commit time are not part of what an event shows.
\<close>

theorem replicated_changes_readable:
  assumes "relation_map D" and "list_all (\<lambda>(lsn, msg). pg_ok msg) msgs"
    and "list_all (\<lambda>(lsn, msg). msg_limits (pg_encode msg)) msgs"
    and "announced msgs" and "one_table_each msgs" and "distinct (map ch_lsn (sent msgs))"
    and "stream_run D (stream_start (stream_new D l0)) (map (\<lambda>(lsn, msg). (lsn, pg_encode msg)) msgs) = (rs, st)"
    and "event_queue Q items cap" and "pipe_reach Q sz p" and "p_accepted p @ rest = events_of rs"
    and "rocksdb Rk content cfname"
    and "content (ts_db ts) (cf_name (ts_tenant_id ts)) = Some Map.empty"
    and "fold (write_step Rk) (p_flushed p) ([], ts) = (concat (map wb_events (p_flushed p)), ts')"
    and "iter_clean Rk ts' start" and "limit * sz' < 2 ^ 63"
  shows "\<exists>stored. list_all2 event_shows
        (stored @ wb_events (pc_current_batch (p_coord p)) @ items (rb_inner (pc_ring (p_coord p))) @ rest) (sent msgs)
    \<and> read_from Rk sz' ts' start limit =
        Ok (take (max 1 limit) (filter (\<lambda>e. start \<le> event_lsn e) (sort_key ev_lsn stored)))"
proof -
  let ?stored = "concat (map wb_events (p_flushed p))"
  note stream = stream_of_messages [OF assms(1,2,3,7)]
  have "list_all wire_ok (p_accepted p)" using stream(2) unfolding assms(10) [symmetric] by simp
  note read = flushed_read [OF assms(8,9,11-13) this assms(14,15)]
  have ev: "events_of rs = ?stored @ wb_events (pc_current_batch (p_coord p)) @ items (rb_inner (pc_ring (p_coord p))) @ rest"
    unfolding assms(10) [symmetric] read(2) by simp
  have shown: "list_all2 event_shows (events_of rs) (sent msgs)"
    unfolding sent_def
    by (rule reported_events_show [OF stream(1) assms(4) [unfolded announced_def] one_table_changes [OF assms(5)]])
  have "distinct (map ev_lsn (events_of rs))" using shown_lsns [OF shown] assms(6) by simp
  then have "distinct (map ev_lsn ?stored)" by (simp add: ev)
  then have "last_per_lsn ?stored = ?stored" by (rule last_per_lsn_distinct)
  moreover have "list_all (\<lambda>e. ev_xid e = 0) ?stored" using stream(3) by (simp add: ev)
  ultimately have "event_entries start ?stored = filter (\<lambda>e. start \<le> event_lsn e) (sort_key ev_lsn ?stored)"
    using entries_per_lsn by simp
  then show ?thesis using read(1) shown by (intro exI [of _ ?stored]) (simp add: ev)
qed

text \<open>
  Two transactions that ran at the same time: the one that commits first is sent first, with an
  LSN between those of the other.
\<close>

definition demo_changes :: "(u64 \<times> pg_msg) list" where
  "demo_changes = [(20, MBegin 30 0 78), (20, demo_rel), (20, MInsert 7 [TText ''1'', TText ''ann'']), (30, MCommit 0 30 31 0),
     (10, MBegin 40 0 77), (10, MUpdate 7 None [TText ''2'', TText ''bob'']),
     (35, MDelete 7 (byte_of CHR ''K'') [TText ''3'', TNull]), (40, MCommit 0 40 41 0)]"

lemma demo_changes_ok:
  "list_all (\<lambda>(lsn, msg). pg_ok msg) demo_changes"
  "list_all (\<lambda>(lsn, msg). msg_limits (pg_encode msg)) demo_changes"
proof -
  show "list_all (\<lambda>(lsn, msg). pg_ok msg) demo_changes"
    using demo_rel_ok by (simp add: demo_changes_def ok_tuple_def old_tag_def wf_str_ascii is_ascii_def)
  show "list_all (\<lambda>(lsn, msg). msg_limits (pg_encode msg)) demo_changes"
    by (simp add: demo_changes_def demo_rel_def enc_rel_col_def enc_cstring_def enc_tuple_def as_bytes_def
        small_msg_limits)
qed

lemma demo_changes_sent:
  "announced demo_changes" "one_table_each demo_changes"
  "map (\<lambda>c. (ch_lsn c, ch_op c)) (sent demo_changes) = [(20, Insert), (10, OpType.Update), (35, Delete)]"
  by (simp_all add: announced_def one_table_each_def sent_def demo_changes_def demo_rel_def change_at_def new_session_def
      List.map_filter_simps)

lemma list_pipe_any:
  obtains p :: "(nat \<times> ChangeEvent list) pipe" where "pipe_reach list_queue 200 p" "p_accepted p = es"
    "concat (map wb_events (p_flushed p)) = es" "wb_events (pc_current_batch (p_coord p)) = []"
    "snd (rb_inner (pc_ring (p_coord p))) = []"
  using list_eq.pipe_any_events [of 4 200 es] that by (auto simp: settled_def)

theorem replicated_changes_readable_witness:
  "\<exists>bs es. list_all2 event_shows es (sent demo_changes)
    \<and> map (\<lambda>c. (ch_lsn c, ch_op c)) (sent demo_changes) = [(20, Insert), (10, OpType.Update), (35, Delete)]
    \<and> read_from mem_rocks 200 (mem_written bs default_tenant) (Lsn 15) 10 =
        Ok (filter (\<lambda>e. Lsn 15 \<le> event_lsn e) (sort_key ev_lsn es))"
proof -
  let ?msgs = "map (\<lambda>(lsn, msg). (lsn, pg_encode msg)) demo_changes"
  obtain rs st where run: "stream_run alist_dashmap (stream_start (stream_new alist_dashmap lsn_zero)) ?msgs = (rs, st)"
    by fastforce
  obtain p :: "(nat \<times> ChangeEvent list) pipe" where p: "pipe_reach list_queue 200 p" "p_accepted p = events_of rs"
    "wb_events (pc_current_batch (p_coord p)) = []" "snd (rb_inner (pc_ring (p_coord p))) = []"
    by (rule list_pipe_any)
  have acc: "p_accepted p @ [] = events_of rs" by (simp add: p(2))
  have "map fst (map (\<lambda>c. (ch_lsn c, ch_op c)) (sent demo_changes)) = [20, 10, 35]"
    unfolding demo_changes_sent(3) by simp
  then have lsns: "map ch_lsn (sent demo_changes) = [20, 10, 35]" by (simp add: comp_def)
  then have dist: "distinct (map ch_lsn (sent demo_changes))" by simp
  from replicated_changes_readable [OF alist_rel.relation_map_axioms demo_changes_ok demo_changes_sent(1,2) dist run
      list_eq.event_queue_axioms p(1) acc mem_rk.rocksdb_axioms mem_store_content mem_written(1) mem_written(2),
      of 10 200 default_tenant "Lsn 15"]
  obtain es where es: "list_all2 event_shows es (sent demo_changes)"
    "read_from mem_rocks 200 (mem_written (p_flushed p) default_tenant) (Lsn 15) 10 =
      Ok (take (max 1 10) (filter (\<lambda>e. Lsn 15 \<le> event_lsn e) (sort_key ev_lsn es)))"
    by (auto simp: p)
  have "length es = length (map ch_lsn (sent demo_changes))" using list_all2_lengthD [OF es(1)] by simp
  then have "length es = 3" unfolding lsns by simp
  then have "length (filter (\<lambda>e. Lsn 15 \<le> event_lsn e) (sort_key ev_lsn es)) \<le> 10"
    using length_filter_le [of "\<lambda>e. Lsn 15 \<le> event_lsn e" "sort_key ev_lsn es"] by simp
  with es(2) have "read_from mem_rocks 200 (mem_written (p_flushed p) default_tenant) (Lsn 15) 10 =
      Ok (filter (\<lambda>e. Lsn 15 \<le> event_lsn e) (sort_key ev_lsn es))" by simp
  with es(1) demo_changes_sent(3) show ?thesis by (intro exI [of _ "p_flushed p"] exI [of _ es] conjI)
qed

subsection \<open>Changes with the same LSN\<close>

text \<open>
  C34. Of the changes with one LSN the reader only gets the last. The decoder puts no transaction
  into an event and the storage key is made of the LSN and the transaction id, so events decoded
  from messages with the same LSN overwrite each other: when all events of a stream, which report
  the changes of its messages, have been flushed and written, a read returns the last event for
  each LSN, never two with the same one. PostgreSQL sends the rows of one multi-row insertion
  record with the same LSN.
\<close>

theorem same_lsn_changes_lost:
  assumes "relation_map D" and "list_all (\<lambda>(lsn, msg). pg_ok msg) msgs"
    and "list_all (\<lambda>(lsn, msg). msg_limits (pg_encode msg)) msgs"
    and "stream_run D (stream_start (stream_new D l0)) (map (\<lambda>(lsn, msg). (lsn, pg_encode msg)) msgs) = (rs, st)"
    and "event_queue Q items cap" and "pipe_reach Q sz p"
    and "concat (map wb_events (p_flushed p)) = events_of rs" and "p_accepted p = events_of rs"
    and "rocksdb Rk content cfname"
    and "content (ts_db ts) (cf_name (ts_tenant_id ts)) = Some Map.empty"
    and "fold (write_step Rk) (p_flushed p) ([], ts) = (concat (map wb_events (p_flushed p)), ts')"
    and "iter_clean Rk ts' start" and "limit * sz' < 2 ^ 63"
  shows "list_all2 reports rs (stream_changes new_session msgs)
    \<and> read_from Rk sz' ts' start limit = Ok (take (max 1 limit) (filter (\<lambda>e. start \<le> event_lsn e)
        (sort_key ev_lsn (last_per_lsn (events_of rs)))))"
proof -
  note stream = stream_of_messages [OF assms(1-4)]
  have "list_all wire_ok (p_accepted p)" using stream(2) assms(8) by simp
  from flushed_read(1) [OF assms(5,6,9-11) this assms(12,13)] entries_per_lsn [OF stream(3), of start] stream(1)
  show ?thesis unfolding assms(7) by simp
qed

definition copied_rows :: "(u64 \<times> pg_msg) list" where
  "copied_rows = [(1, demo_rel), (2, MInsert 7 [TText ''1'', TText ''ann'']), (2, MInsert 7 [TText ''2'', TText ''bob''])]"

lemma copied_rows_ok:
  "list_all (\<lambda>(lsn, msg). pg_ok msg) copied_rows"
  "list_all (\<lambda>(lsn, msg). msg_limits (pg_encode msg)) copied_rows"
proof -
  show "list_all (\<lambda>(lsn, msg). pg_ok msg) copied_rows"
    using demo_rel_ok by (simp add: copied_rows_def ok_tuple_def wf_str_ascii is_ascii_def)
  show "list_all (\<lambda>(lsn, msg). msg_limits (pg_encode msg)) copied_rows"
    by (simp add: copied_rows_def demo_rel_def enc_rel_col_def enc_cstring_def enc_tuple_def as_bytes_def
        small_msg_limits)
qed

theorem same_lsn_changes_lost_witness:
  "\<exists>bs e. list_all2 event_shows (concat (map wb_events bs)) (sent copied_rows) \<and> length (sent copied_rows) = 2
    \<and> read_from mem_rocks 200 (mem_written bs default_tenant) lsn_zero 10 = Ok [e]
    \<and> event_shows e (last (sent copied_rows))"
proof -
  let ?msgs = "map (\<lambda>(lsn, msg). (lsn, pg_encode msg)) copied_rows"
  obtain rs st where run: "stream_run alist_dashmap (stream_start (stream_new alist_dashmap lsn_zero)) ?msgs = (rs, st)"
    by fastforce
  obtain p :: "(nat \<times> ChangeEvent list) pipe" where p: "pipe_reach list_queue 200 p" "p_accepted p = events_of rs"
    "concat (map wb_events (p_flushed p)) = events_of rs"
    by (rule list_pipe_any)
  have "list_all2 reports rs (stream_changes new_session copied_rows)
    \<and> read_from mem_rocks 200 (mem_written (p_flushed p) default_tenant) lsn_zero 10 =
      Ok (take (max 1 10) (filter (\<lambda>e. lsn_zero \<le> event_lsn e) (sort_key ev_lsn (last_per_lsn (events_of rs)))))"
    by (rule same_lsn_changes_lost [OF alist_rel.relation_map_axioms copied_rows_ok run
          list_eq.event_queue_axioms p(1) _ _ mem_rk.rocksdb_axioms mem_store_content mem_written(1) mem_written(2)])
      (simp_all add: p)
  note lost = this [THEN conjunct1] this [THEN conjunct2]
  obtain c d where c: "sent copied_rows = [c, d]" "ch_lsn c = 2" "ch_lsn d = 2"
    by (simp add: sent_def copied_rows_def demo_rel_def change_at_def new_session_def List.map_filter_simps)
  have "announced copied_rows" "one_table_each copied_rows"
    by (simp_all add: announced_def one_table_each_def copied_rows_def demo_rel_def change_at_def new_session_def)
  then have shown: "list_all2 event_shows (events_of rs) (sent copied_rows)"
    unfolding sent_def announced_def using reported_events_show [OF lost(1) _ one_table_changes] by blast
  then obtain a b where ab: "events_of rs = [a, b]" "event_shows a c" "event_shows b d"
    by (auto simp: c list_all2_Cons2)
  then have "ev_lsn a = 2" "ev_lsn b = 2" using c by (simp_all add: event_shows_def)
  then have "read_from mem_rocks 200 (mem_written (p_flushed p) default_tenant) lsn_zero 10 = Ok [b]"
    using lost(2) by (simp add: ab event_lsn_def lsn_zero_def less_eq_lsn_def)
  then show ?thesis using shown c ab(3) by (intro exI [of _ "p_flushed p"] exI [of _ b]) (simp add: p(3))
qed

subsection \<open>A consumer that catches up\<close>

text \<open>
  A consumer reads from where the offset manager resumes it, and commits the LSN of the last event
  it got; a round may end before the commit, as after a crash of the consumer. \<open>catch_up\<close> is the
  sequence of rounds, \<open>True\<close> for a round that commits, and collects what was delivered.
\<close>

definition catch_up_round ::
    "'m offset_dm \<Rightarrow> ('disk, 'db, 'cf) rocks_ops \<Rightarrow> nat \<Rightarrow> 'db TenantStore \<Rightarrow> string \<Rightarrow> nat \<Rightarrow> bool
     \<Rightarrow> ChangeEvent list \<times> 'm OffsetManager \<Rightarrow> ChangeEvent list \<times> 'm OffsetManager" where
  "catch_up_round D Rk sz ts c limit commits = (\<lambda>(got, m).
     case read_from Rk sz ts (resume_lsn D m c) limit of
       Ok evs \<Rightarrow> (got @ evs, if commits \<and> evs \<noteq> [] then snd (manager_commit D m c (event_lsn (last evs))) else m)
     | _ \<Rightarrow> (got, m))"

definition catch_up ::
    "'m offset_dm \<Rightarrow> ('disk, 'db, 'cf) rocks_ops \<Rightarrow> nat \<Rightarrow> 'db TenantStore \<Rightarrow> string \<Rightarrow> nat \<Rightarrow> bool list
     \<Rightarrow> ChangeEvent list \<times> 'm OffsetManager \<Rightarrow> ChangeEvent list \<times> 'm OffsetManager" where
  "catch_up D Rk sz ts c limit = fold (catch_up_round D Rk sz ts c limit)"

text \<open>The pages the rounds deliver when \<open>k\<close> events are committed already.\<close>

fun pages :: "nat \<Rightarrow> 'a list \<Rightarrow> nat \<Rightarrow> bool list \<Rightarrow> 'a list" where
  "pages limit es k [] = []"
| "pages limit es k (b # bs) = take limit (drop k es) @ pages limit es (if b then k + limit else k) bs"

lemma pages_all_commit: "pages limit es k (replicate n True) = take (n * limit) (drop k es)"
proof (induction n arbitrary: k)
  case (Suc n)
  then show ?case by (simp add: take_add add.commute)
qed simp

text \<open>The committed position after \<open>k\<close> of the events.\<close>

definition committed_after :: "ChangeEvent list \<Rightarrow> nat \<Rightarrow> lsn option" where
  "committed_after es k = (if k = 0 \<or> es = [] then None else Some (event_lsn (last (take k es))))"

lemma last_greatest: "sorted_wrt (<) (map f xs) \<Longrightarrow> x \<in> set xs \<Longrightarrow> f x \<le> (f (last xs) :: 'a::order)"
  by (induction xs) (auto simp: less_imp_le)

lemma resume_after:
  assumes "sorted_wrt (<) (map event_lsn es)" and "lsn_max \<notin> event_lsn ` set es"
    and "registry_get D (registry m) c = committed_after es k"
  shows "filter (\<lambda>e. resume_lsn D m c \<le> event_lsn e) es = drop k es"
proof (cases "k = 0 \<or> es = []")
  case True
  then show ?thesis using assms(3) by (auto simp: committed_after_def resume_lsn_def)
next
  case False
  let ?l = "event_lsn (last (take k es))"
  have ne: "take k es \<noteq> []" using False by simp
  then have mem: "last (take k es) \<in> set es" by (metis in_set_takeD last_in_set)
  then have "?l < lsn_max" using assms(2) lsn_le_max [of ?l] by (metis image_eqI order.not_eq_order_implies_strict)
  from less_saturating_succ [OF this] have resume: "resume_lsn D m c \<le> x \<longleftrightarrow> ?l < x" for x
    using assms(3) False by (simp add: resume_lsn_def committed_after_def)
  have srt: "sorted_wrt (<) (map event_lsn (take k es @ drop k es))" using assms(1) by simp
  have "event_lsn e \<le> ?l" if "e \<in> set (take k es)" for e
    using srt that unfolding map_append sorted_wrt_append by (blast intro: last_greatest)
  moreover have "?l < event_lsn e" if "e \<in> set (drop k es)" for e
    using srt that last_in_set [OF ne] unfolding map_append sorted_wrt_append by simp
  ultimately have "filter (\<lambda>e. ?l < event_lsn e) (take k es @ drop k es) = drop k es"
    by (simp only: filter_append) (auto simp: filter_empty_conv not_less filter_id_conv)
  then show ?thesis by (simp add: resume)
qed

context offset_map
begin

lemma commit_after:
  assumes "sorted_wrt (<) (map event_lsn es)" and "registry_get D (registry m) c = committed_after es k"
    and "take n (drop k es) \<noteq> []"
  shows "registry_get D (registry (snd (manager_commit D m c (event_lsn (last (take n (drop k es))))))) c
     = committed_after es (k + n)"
proof -
  have n: "0 < n" "es \<noteq> []" using assms(3) by auto
  have last: "last (take (k + n) es) = last (take n (drop k es))"
    using assms(3) by (simp add: take_add last_append)
  have "event_lsn (last (take k es)) \<le> event_lsn (last (take (k + n) es))" if "0 < k"
  proof -
    have "last (take k es) \<in> set (take (k + n) es)"
      using last_in_set [of "take k es"] that n set_take_subset_set_take [of k "k + n" es] by auto
    moreover have "sorted_wrt (<) (map event_lsn (take (k + n) es))"
      using assms(1) by (metis sorted_wrt_take take_map)
    ultimately show ?thesis by (rule last_greatest [rotated])
  qed
  then show ?thesis
    using assms(2) n by (auto simp: manager_commit_get committed_after_def last max_def)
qed

lemma catch_up_pages:
  assumes "\<And>start. read_from Rk sz ts start limit = Ok (take limit (filter (\<lambda>e. start \<le> event_lsn e) es))"
    and "sorted_wrt (<) (map event_lsn es)" and "lsn_max \<notin> event_lsn ` set es" and "0 < limit"
    and "registry_get D (registry m) c = committed_after es k"
  shows "fst (catch_up D Rk sz ts c limit bs (got, m)) = got @ pages limit es k bs"
  using assms(5)
proof (induction bs arbitrary: got m k)
  case Nil
  show ?case by (simp add: catch_up_def)
next
  case (Cons b bs)
  let ?page = "take limit (drop k es)"
  let ?m = "if b \<and> ?page \<noteq> [] then snd (manager_commit D m c (event_lsn (last ?page))) else m"
  have page: "catch_up_round D Rk sz ts c limit b (got, m) = (got @ ?page, ?m)"
    by (simp add: catch_up_round_def assms(1) resume_after [OF assms(2,3) Cons.prems])
  have end_reached: "committed_after es (k + limit) = committed_after es k" if "length es \<le> k"
    using that assms(4) by (cases k) (auto simp: committed_after_def)
  have "registry_get D (registry ?m) c = committed_after es (if b then k + limit else k)"
    using commit_after [OF assms(2) Cons.prems, of limit] Cons.prems end_reached assms(4)
    by (auto simp: not_le)
  from Cons.IH [OF this, of "got @ ?page"] page show ?case by (simp add: catch_up_def)
qed

end



end
