(* ===== verification/Spec2Isabelle.thy ===== *)
theory Spec2Isabelle
  imports Nendi_Error Storage Ingestion Pg_Protocol Schema Pg_Client Sql_Functions Replication
    Flow_Control Wal Webhook Egress Daemon Pg_Types Sql_Scripts Delivery
begin

text \<open>
  Verification library for Nendi, a daemon that captures the changes of a PostgreSQL database
  (\<open>src/services/pgsql\<close>), carries them through an in-memory pipeline into a RocksDB store
  (\<open>src/core\<close>, with the data types of \<open>src/shared\<close>), and delivers them to consumers by gRPC
  streams and webhooks (\<open>src/http\<close>). \<open>src/cmd/nendi\<close> starts the process.

  \<^bold>\<open>How the code is modelled.\<close> A struct is a record, an enum a datatype, a method a function from the
  old state to the result and the new state. A call that may fail returns \<open>rresult\<close>, which is
  \<open>Ok\<close>, \<open>Err\<close> or \<open>Panic\<close>: out-of-range slices, failed \<open>unwrap\<close>s, zero capacities and overflowing
  durations are the value \<open>Panic\<close>. Integers keep their width as words and wrap around; \<open>f64\<close> is
  IEEE binary64 on rationals (F64). A \<open>String\<close> is the list of its UTF-8 bytes. Clock readings and
  compiler-chosen sizes (\<open>size_of\<close>) are arguments. Code outside the repository is a record of
  operations given as an argument, with its documented behaviour as a locale that is interpreted
  on a complete implementation over library types: DashMap (\<open>dashmap\<close>), crossbeam's queue
  (\<open>array_queue\<close>), RocksDB (\<open>rocksdb\<close>), the file system (\<open>append_fs\<close>), Tokio's channel (\<open>mpsc\<close>),
  Prometheus (\<open>prometheus\<close>), PostgreSQL's catalogue (\<open>pg_catalog\<close>), Unicode upper case
  (\<open>uppercase\<close>); the \<open>config\<close> crate, \<open>tokio_postgres\<close>, \<open>reqwest\<close> and \<open>tracing_subscriber\<close> are plain
  parameters. The SQL of the scripts is modelled directly, statement by statement.

  \<^bold>\<open>Theories.\<close>
  \<^item> Prelude, Rust_Str, F64, Sip_Hash: results, words and bytes, strings with printing and parsing
    of numbers, floating point with error bounds, the hash of the standard library.
  \<^item> Lsn, Event, Nendi_Error, Proto, Config, Containers, Ring_Buffer: \<open>src/shared/src\<close>. Proto shows
    that decoding undoes encoding exactly when the lengths fit, and where decoding panics;
    Ring_Buffer that the ring gives the pipeline the contract of a bounded queue and that its fill
    ratio is exact at both ends.
  \<^item> Pipeline, Ingestion, Offsets, Storage, Wal, Flow_Control: \<open>src/core/src\<close> (\<open>pipeline\<close>, \<open>offset\<close>,
    \<open>storage/gc\<close>, \<open>storage/rocks\<close>, \<open>storage/wal\<close>, \<open>backpressure\<close>, \<open>memory\<close>). Pipeline has a step
    relation with producers interleaved between the iterations of the drain loop, and shows
    that every accepted event is handed out exactly once and in order, that the loop ends, that
    nothing accepted gets stuck, and that batches carry exact metadata; Ingestion that documented
    filter expressions accept the rows whose values compare, as texts, the way they say; Offsets that offsets and watermarks are the right
    extrema, and, over the interleavings of map accesses, that commits are linearisable unless two
    for one consumer overlap; Storage that reads return what was acknowledged, that tenants are
    isolated and that collection takes nothing a consumer may still read; Wal that a log replays,
    also after a torn append; Flow_Control, over the interleavings of atomic accesses, that no
    credit is lost or invented.
  \<^item> Pg_Output, Pg_Protocol, Pg_Types, Schema, Pg_Client, Sql_Functions, Sql_Scripts, Replication:
    \<open>src/services/pgsql/src\<close> and \<open>src/sql/pgsql\<close>. Pg_Protocol specifies the messages by an
    encoder and the changes a stream of them stands for, without reference to the decoder, and
    shows that the decoder reports these changes, what it leaves out, and that it never panics;
    Pg_Types that whatever arrives, what is decoded is well typed; Schema that DDL changes are
    delivered in order, none early and none late, and that fingerprints detect every change of one
    byte; Pg_Client what slots, lag checks,
    snapshots and schema loading do on every answer of the server; Sql_Functions what the functions
    installed in the database emit; Sql_Scripts what installing, repeating and removing do to the
    catalogue; Replication what is acknowledged to the server.
  \<^item> Webhook, Egress: \<open>src/http/src/egress\<close>. Webhook shows that the circuit breaker refines an
    abstract three-state machine, exact backoffs, that a dispatch posts the JSON of its batch, what the dead letter
    queue keeps, and that the signature can be forged; Egress that consumer streams deliver in order and that replay hands out what
    is not committed.
  \<^item> Daemon: \<open>src/cmd/nendi\<close>, \<open>src/core/src/{daemon,io,metrics}\<close>, \<open>src/http/src/health\<close>: the run of
    the process for every configuration and all signals.
  \<^item> Delivery: the way of a change through all components, from the bytes of the protocol to the
    consumer that reads pages and commits.

  \<^bold>\<open>Composition.\<close> Delivery joins stream, ring, pipeline and store (the changes the server sent are
  what a reader gets, unless they share an LSN or a \<open>TRUNCATE\<close> names several tables) and offsets with the store (a consumer catches up with
  everything, at least once); this theory joins ring, pipeline and store for any producer, and
  snapshot and store; Egress joins offsets, replay and store; Daemon joins the configuration with
  the process. The repository has no code that moves events from one of these components to the
  next: the theorems compose the operations as their documentation says they are to be called.

  \<^bold>\<open>Termination.\<close> There is no fuel. The drain loop is a \<open>partial_function\<close> proved to return when no
  producer interferes; every other loop is structural or has a termination proof. The loops of
  compare-and-exchange and the producers are step relations without a bound on their length.

  \<^bold>\<open>Shortcomings of the code the theorems show\<close> include: a truncated event makes the decoder
  panic; events of a transaction lose its id and time, and with it changes that share an LSN
  overwrite each other, as do snapshot rows; of the tables of a \<open>TRUNCATE\<close> all but the first are
  dropped; filters compare numbers as texts; the primary key of a table whose name needs quoting
  is not found; overlapping commits move an offset back; a restarted
  log writer mixes new records into the oldest segment, and its collector ignores the watermark;
  the gate can stay open with a pause reason; creating a slot panics; captured DDL is ignored;
  migration 001 cannot be repeated and the script for the role fails; the shipped configuration
  does not load.

  \<^bold>\<open>Not modelled.\<close> The output of logging and tracing, which no result depends on; derived trait
  implementations (\<open>Debug\<close>, \<open>Clone\<close> of shared handles, serde and rkyv derives other than the
  deserialisers of configurations); plain getters and conversions, which are the record fields and
  constructors; column types in the SQL scripts; the protocol buffer files, from which no crate
  generates code; the shell scripts, which are placeholders; tests and benchmarks. Memory orderings
  weaker than sequential consistency are not distinguished: the step relations interleave atomic
  accesses.
\<close>

subsection \<open>From the source to the reader\<close>

text \<open>
  C13. End to end: what a reader of the store sees is what the source delivered. In any state the
  pipeline can reach, when all batches it handed out have been written and the accepted events
  have increasing keys, the accepted events are those stored, then those of the open batch and
  those still in the ring, and a read from any LSN returns the stored ones from there on, once
  each, in order, up to the limit.
\<close>

theorem end_to_end:
  assumes "event_queue Q items cap" and "pipe_reach Q sz s"
    and "rocksdb Rk content cfname"
    and "content (ts_db ts) (cf_name (ts_tenant_id ts)) = Some Map.empty"
    and "fold (write_step Rk) (p_flushed s) ([], ts) = (concat (map wb_events (p_flushed s)), ts')"
    and "sorted_wrt (<) (map make_key (p_accepted s))"
    and "list_all wire_ok (p_accepted s)" and "iter_clean Rk ts' start" and "limit * sz' < 2 ^ 63"
  shows "\<exists>stored. read_from Rk sz' ts' start limit = Ok (take (max 1 limit) (filter (\<lambda>e. start \<le> event_lsn e) stored))
    \<and> p_accepted s = stored @ wb_events (pc_current_batch (p_coord s)) @ items (rb_inner (pc_ring (p_coord s)))"
proof -
  let ?st = "concat (map wb_events (p_flushed s))"
  note read = flushed_read [OF assms(1-5,7-9)]
  have "sorted_wrt (<) (map make_key ?st)" using assms(6) by (simp add: read(2) sorted_wrt_append)
  from read entries_increasing [OF this, of start] show ?thesis by (intro exI [of _ ?st]) simp
qed

lemma demo_flushed_batches: "p_flushed demo_flushed = [batch_push 200 batch_new (demo_event 5)]"
  by (simp add: demo_flushed_def drain_body_def demo_start_def coordinator_new_def Let_def)

theorem end_to_end_witness:
  "\<exists>stored. read_from mem_rocks 200 (mem_written (p_flushed demo_flushed) default_tenant) (Lsn 0) 10 =
        Ok (take 10 (filter (\<lambda>e. Lsn 0 \<le> event_lsn e) stored))
    \<and> p_accepted demo_flushed = stored"
proof -
  have acc: "p_accepted demo_flushed = [demo_event 5]"
    by (simp add: demo_flushed_def demo_drained_def demo_pushed_def Let_def)
  have ok: "wire_ok (demo_event 5)"
    by (simp add: demo_event_def wire_ok_def wf_str_ascii is_ascii_def)
  have "\<exists>stored. read_from mem_rocks 200 (mem_written (p_flushed demo_flushed) default_tenant) (Lsn 0) 10 =
        Ok (take (max 1 10) (filter (\<lambda>e. Lsn 0 \<le> event_lsn e) stored))
    \<and> p_accepted demo_flushed = stored @ wb_events (pc_current_batch (p_coord demo_flushed))
        @ snd (rb_inner (pc_ring (p_coord demo_flushed)))"
    by (rule end_to_end [OF list_eq.event_queue_axioms demo_flushed_reach mem_rk.rocksdb_axioms
          mem_store_content mem_written(1) _ _ mem_written(2)]) (simp_all add: acc ok)
  moreover have "wb_events (pc_current_batch (p_coord demo_flushed)) = []"
    "snd (rb_inner (pc_ring (p_coord demo_flushed))) = []"
    by (simp_all add: demo_flushed_def take_batch_def demo_start_def coordinator_new_def drain_body_def Let_def)
  ultimately show ?thesis by simp
qed

subsection \<open>Snapshots in the store\<close>

lemma latest_same_key:
  "es \<noteq> [] \<Longrightarrow> list_all (\<lambda>e. make_key e = k) es \<Longrightarrow> latest es = [last es]"
proof (induction es)
  case (Cons e es)
  then show ?case by (cases es) (auto simp: list_all_iff)
qed simp

text \<open>
  C36. A snapshot does not survive the store: all its events carry the snapshot's LSN and the
  transaction id zero, so they share one key. However many rows and tables a snapshot has, once
  its events are written a read returns at most one of them, the last.
\<close>

theorem snapshot_collapses:
  assumes "rocksdb Rk content cfname"
    and "content (ts_db ts) (cf_name (ts_tenant_id ts)) = Some Map.empty"
    and "snapshot_all P sb c lsn = (Ok events, c')"
    and "fold (write_step Rk) batches ([], ts) = (events, ts')"
    and "list_all wire_ok events" and "iter_clean Rk ts' start" and "limit * sz < 2 ^ 63"
  shows "read_from Rk sz ts' start limit =
    Ok (if events = [] \<or> Lsn lsn < start then [] else [last events])"
proof -
  have keys: "list_all (\<lambda>e. ev_lsn e = lsn \<and> ev_xid e = 0 \<and> ev_op e = Insert) events"
    by (rule snapshot_all_events [OF assms(3)])
  have "read_from Rk sz ts' start limit = Ok (take (max 1 limit) (event_entries start events))"
    by (rule rocksdb.read_acked [OF assms(1,2,4-7)])
  moreover have "event_entries start events = (if events = [] \<or> Lsn lsn < start then [] else [last events])"
  proof (cases "events = []")
    case False
    have "list_all (\<lambda>e. make_key e = to_be_bytes lsn @ to_be_bytes (0 :: u32)) events"
      using keys by (auto simp: make_key_def list_all_iff)
    then have "latest events = [last events]" by (rule latest_same_key [OF False])
    moreover have "event_lsn (last events) = Lsn lsn"
      using keys last_in_set [OF False] by (auto simp: event_lsn_def list_all_iff)
    ultimately show ?thesis using False by (auto simp: event_entries_def)
  qed (simp add: event_entries_def)
  ultimately show ?thesis by auto
qed

definition snap_server :: "unit pg_ops" where
  "snap_server = \<lparr>pg_connect = \<lambda>_. Ok (),
     pg_query = \<lambda>c sql ps. (Ok (if sql = sql_snapshot_columns then [[PgText ''id'', PgText ''text'']]
                                else [[PgText ''a''], [PgText ''b'']]), c),
     pg_execute = \<lambda>c sql. (Ok 0, c)\<rparr>"

definition snap_row :: "string \<Rightarrow> ChangeEvent" where
  "snap_row v = snapshot_event 9 ''public'' ''t'' [(''id'', ''text'')] [PgText v]"

theorem snapshot_collapses_witness:
  "snapshot_all snap_server (builder_new [''public.t''] 100) () 9 = (Ok [snap_row ''a'', snap_row ''b''], ()) \<and>
   read_from mem_rocks 200 (mem_written
     [batch_push 200 (batch_push 200 batch_new (snap_row ''a'')) (snap_row ''b'')] default_tenant)
     lsn_zero 10 = Ok [snap_row ''b'']"
proof -
  let ?b = "batch_push 200 (batch_push 200 batch_new (snap_row ''a'')) (snap_row ''b'')"
  have sel: "snapshot_select [''id''] ''public'' ''t'' \<noteq> sql_snapshot_columns"
    by (simp add: snapshot_select_def sql_snapshot_columns_def)
  have snap: "snapshot_all snap_server (builder_new [''public.t''] 100) () 9 = (Ok [snap_row ''a'', snap_row ''b''], ())"
    using sel by (simp add: snapshot_all_def builder_new_def snapshot_table_def snap_server_def snap_row_def
        get_str_def row_at_def)
  have ok: "wire_ok (snap_row v)" if "v \<in> {''a'', ''b''}" for v
    using that by (auto simp: snap_row_def snapshot_event_def snapshot_row_def wire_ok_def wire_row_def wire_col_def
        wf_str_ascii is_ascii_def try_get_str_def)
  have w: "fold (write_step mem_rocks) [?b] ([], mem_store default_tenant) =
      ([snap_row ''a'', snap_row ''b''], mem_written [?b] default_tenant)"
    using mem_written(1) [of "[?b]" default_tenant] by simp
  have "read_from mem_rocks 200 (mem_written [?b] default_tenant) lsn_zero 10 =
      Ok (if [snap_row ''a'', snap_row ''b''] = [] \<or> Lsn 9 < lsn_zero then [] else [last [snap_row ''a'', snap_row ''b'']])"
    by (rule snapshot_collapses [OF mem_rk.rocksdb_axioms mem_store_content snap w _ mem_written(2)])
      (simp_all add: ok)
  then show ?thesis using snap by (simp add: lsn_zero_def less_lsn_def)
qed

end
